(* ===== verification/Prelude.thy ===== *)
theory Prelude
  imports Main "HOL-Library.Word" "HOL-Library.Monad_Syntax"
begin

text \<open>
  Shared vocabulary of the development.

  The kernel is C code that stops the machine when an \<^verbatim>\<open>ASSERT\<close> or a \<^verbatim>\<open>PANIC\<close> fires
  (\<^verbatim>\<open>src/src/lib/debug.h\<close>, \<^verbatim>\<open>src/src/lib/kernel/debug.c\<close>).  A kernel routine is therefore a
  function into \<open>'a option\<close>: \<open>Some r\<close> is a normal return with result \<open>r\<close>, and \<open>None\<close> is a run
  that never returns to its caller, because the kernel panicked or because a loop does not end.
  Sequencing is the \<open>do\<close> notation of the option type, so that definitions keep the statement
  order of the source.

  Pointers are 32-bit words with \<open>NULL = 0\<close>; sizes (\<^verbatim>\<open>size_t\<close>) and bit masks are 32-bit words
  or naturals with the wrap-around written out.
\<close>

section \<open>Types and automation\<close>

type_synonym addr = "32 word"
type_synonym byte = "8 word"

abbreviation NULL :: addr where
  "NULL \<equiv> 0"

named_theorems heap_simps \<open>rewriting of loads after stores\<close>
named_theorems run_simps \<open>unfolding of the kernel routines as straight-line code\<close>

section \<open>Assertions\<close>

text \<open>\<^verbatim>\<open>ASSERT (cond)\<close> and \<^verbatim>\<open>PANIC\<close>: the program goes on only when the condition holds.\<close>

definition ASSERT :: "bool \<Rightarrow> unit option" where
  "ASSERT b = (if b then Some () else None)"

lemma ASSERT_bind [simp, run_simps]: "Option.bind (ASSERT b) f = (if b then f () else None)"
  by (simp add: ASSERT_def)

lemma ASSERT_Some [simp]: "ASSERT b = Some u \<longleftrightarrow> b"
  by (simp add: ASSERT_def)

lemma bind_SomeE:
  assumes "Option.bind m f = Some r"
  obtains x where "m = Some x" and "f x = Some r"
  using assms by (cases m) auto

section \<open>Rounding macros (\<^verbatim>\<open>src/src/lib/round.h\<close>)\<close>

definition DIV_ROUND_UP :: "nat \<Rightarrow> nat \<Rightarrow> nat" where
  "DIV_ROUND_UP x step = (x + step - 1) div step"

definition ROUND_UP :: "nat \<Rightarrow> nat \<Rightarrow> nat" where
  "ROUND_UP x step = DIV_ROUND_UP x step * step"

definition ROUND_DOWN :: "nat \<Rightarrow> nat \<Rightarrow> nat" where
  "ROUND_DOWN x step = x div step * step"

lemma DIV_ROUND_UP_le_iff:
  assumes "0 < step"
  shows "DIV_ROUND_UP x step \<le> n \<longleftrightarrow> x \<le> n * step"
proof -
  have "DIV_ROUND_UP x step \<le> n \<longleftrightarrow> (x + step - 1) div step < n + 1"
    by (simp add: DIV_ROUND_UP_def less_Suc_eq_le)
  also have "\<dots> \<longleftrightarrow> x + step - 1 < (n + 1) * step"
    using assms by (simp only: div_less_iff_less_mult)
  also have "\<dots> \<longleftrightarrow> x \<le> n * step"
    using assms by (simp add: algebra_simps) linarith
  finally show ?thesis .
qed

lemma less_DIV_ROUND_UP_iff: "0 < step \<Longrightarrow> n < DIV_ROUND_UP x step \<longleftrightarrow> n * step < x"
  using DIV_ROUND_UP_le_iff [of step x n] by linarith

lemma ROUND_UP_ge: "0 < step \<Longrightarrow> x \<le> ROUND_UP x step"
  by (simp add: ROUND_UP_def flip: DIV_ROUND_UP_le_iff)

lemma ROUND_UP_less: "0 < step \<Longrightarrow> ROUND_UP x step < x + step"
  unfolding ROUND_UP_def DIV_ROUND_UP_def
  using div_times_less_eq_dividend [of "x + step - 1" step] by linarith

lemma ROUND_UP_dvd [simp]: "step dvd ROUND_UP x step"
  by (simp add: ROUND_UP_def)

lemma div_mod_within:
  assumes "(m :: nat) mod n + k < n"
  shows "(m + k) div n = m div n" and "(m + k) mod n = m mod n + k"
proof -
  have m: "n * (m div n) + m mod n = m" by simp
  show d: "(m + k) div n = m div n"
  proof (rule div_nat_eqI)
    show "n * (m div n) \<le> m + k" using m by linarith
    have "m + k < n * (m div n) + n" using m assms by linarith
    then show "m + k < n * Suc (m div n)" by simp
  qed
  have "n * (m div n) + (m + k) mod n = m + k" using mult_div_mod_eq [of n "m + k"] d by simp
  then show "(m + k) mod n = m mod n + k" using m by linarith
qed

section \<open>Signed 32-bit values\<close>

text \<open>The value of an \<^verbatim>\<open>int\<close> expression: two's complement at 32 bits.\<close>

definition s32 :: "int \<Rightarrow> int" where
  "s32 x = sint (word_of_int x :: 32 word)"

lemma sint_word_of_int: "- (2 ^ 31) \<le> x \<Longrightarrow> x < 2 ^ 31 \<Longrightarrow> sint (word_of_int x :: 32 word) = x"
  by (simp add: sint_sbintrunc' signed_take_bit_int_eq_self)

lemma s32_id: "- (2 ^ 31) \<le> x \<Longrightarrow> x < 2 ^ 31 \<Longrightarrow> s32 x = x"
  unfolding s32_def by (rule sint_word_of_int)

lemma sint_eq_unat:
  assumes "unat (w :: 32 word) < 2 ^ 31"
  shows "sint w = int (unat w)"
proof -
  have "- (2 ^ 31) \<le> int n \<and> int n < 2 ^ 31" if "n < 2 ^ 31" for n
    using that by simp
  then have "sint (word_of_int (int (unat w)) :: 32 word) = int (unat w)"
    using assms by (intro sint_word_of_int) blast+
  then show ?thesis by simp
qed

lemma s32_range: "- (2 ^ 31) \<le> s32 x" "s32 x < 2 ^ 31"
  using sint_greater_eq [of "word_of_int x :: 32 word"] sint_less [of "word_of_int x :: 32 word"] by (simp_all add: s32_def)

section \<open>Counting loops\<close>

text \<open>\<^verbatim>\<open>for (i = lo; i < hi; i++) body\<close> over an unsigned 32-bit counter: \<open>for_loop\<close> threads a state,
  \<open>for_ret\<close> is a loop whose body may \<^verbatim>\<open>return\<close>.\<close>

lemma unat_less_2p: "unat (n :: 'a::len word) < 2 ^ LENGTH('a)"
  by (rule unsigned_less)

lemma unat_Suc_less: "(i :: 'a::len word) < n \<Longrightarrow> unat (i + 1) = Suc (unat i)"
proof -
  assume "i < n"
  then have "Suc (unat i) < 2 ^ LENGTH('a)"
    using unsigned_less [of n] by (simp add: word_less_nat_alt less_trans_Suc)
  then show ?thesis by (simp add: unat_word_ariths)
qed

lemma unat_of_nat_less: "k < unat (n :: 'a::len word) \<Longrightarrow> unat (word_of_nat k :: 'a word) = k"
  using less_trans [OF _ unat_less_2p [of n], of k] by (simp add: unat_of_nat)

lemma unat_add_range:
  fixes s i c n :: "32 word"
  assumes "unat s + unat c \<le> unat n" and "i < c"
  shows "unat (s + i) = unat s + unat i" and "s + i < n"
  using assms unat_less_2p [of n]
  by (simp_all add: unat_plus_if' word_less_nat_alt)

lemma range_asserts:
  fixes s c n :: "32 word"
  assumes "unat s + unat c \<le> unat n"
  shows "s \<le> n" and "s + c \<le> n"
  using assms unat_less_2p [of n]
  by (simp_all add: unat_plus_if' word_le_nat_alt)

lemma word_inc_measure: "(i :: 'a::len word) < n \<Longrightarrow> unat n - unat (i + 1) < unat n - unat i"
  using unat_Suc_less [of i n] by (simp add: word_less_nat_alt)

function for_loop :: "32 word \<Rightarrow> 32 word \<Rightarrow> (32 word \<Rightarrow> 's \<Rightarrow> 's option) \<Rightarrow> 's \<Rightarrow> 's option" where
  "for_loop i n body s = (if i < n then do { s \<leftarrow> body i s; for_loop (i + 1) n body s } else Some s)"
  by pat_completeness auto
termination
  by (relation "measure (\<lambda>(i, n, _). unat n - unat i)") (auto simp: word_inc_measure)

function for_ret :: "32 word \<Rightarrow> 32 word \<Rightarrow> (32 word \<Rightarrow> 'r option option) \<Rightarrow> 'r option option" where
  "for_ret i n body = (if i < n then do {
       r \<leftarrow> body i;
       case r of Some x \<Rightarrow> Some (Some x) | None \<Rightarrow> for_ret (i + 1) n body
     } else Some None)"
  by pat_completeness auto
termination
  by (relation "measure (\<lambda>(i, n, _). unat n - unat i)") (auto simp: word_inc_measure)

declare for_loop.simps [simp del] for_ret.simps [simp del]

lemma for_loop_done [simp]: "\<not> i < n \<Longrightarrow> for_loop i n body s = Some s"
  by (subst for_loop.simps) simp

text \<open>The invariant rule: \<open>I k s\<close> holds before the iteration with counter \<open>k\<close>.\<close>

lemma for_loop_inv:
  assumes "I (unat i) s" and "i \<le> n"
    and "\<And>k s. i \<le> k \<Longrightarrow> k < n \<Longrightarrow> I (unat k) s \<Longrightarrow> \<exists>s'. body k s = Some s' \<and> I (Suc (unat k)) s'"
  shows "\<exists>s'. for_loop i n body s = Some s' \<and> I (unat n) s'"
  using assms
proof (induction i n body s rule: for_loop.induct)
  case (1 i n body s)
  show ?case
  proof (cases "i < n")
    case True
    obtain s1 where s1: "body i s = Some s1" "I (Suc (unat i)) s1"
      using 1(4) [OF order.refl True 1(2)] by blast
    have le: "i + 1 \<le> n" and lt: "i \<le> i + 1"
      using True unat_Suc_less [OF True] by (simp_all add: word_le_nat_alt word_less_nat_alt)
    have "\<exists>s'. for_loop (i + 1) n body s1 = Some s' \<and> I (unat n) s'"
    proof (rule 1(1) [OF True s1(1) _ le])
      show "I (unat (i + 1)) s1" using s1(2) True by (simp add: unat_Suc_less)
    qed (use 1(4) lt order_trans in blast)
    then show ?thesis using True s1 by (subst for_loop.simps) simp
  next
    case False
    then show ?thesis using 1(2,3) by (subst for_loop.simps) (auto simp: antisym)
  qed
qed

lemma for_ret_cases:
  assumes "\<And>k. i \<le> k \<Longrightarrow> k < n \<Longrightarrow> body k = Some (f k)"
  shows "for_ret i n body = Some None \<and> (\<forall>k. i \<le> k \<longrightarrow> k < n \<longrightarrow> f k = None)
    \<or> (\<exists>k r. i \<le> k \<and> k < n \<and> f k = Some r \<and> (\<forall>j. i \<le> j \<longrightarrow> j < k \<longrightarrow> f j = None) \<and> for_ret i n body = Some (Some r))"
  using assms
proof (induction i n body rule: for_ret.induct)
  case (1 i n body)
  show ?case
  proof (cases "i < n \<and> f i = None")
    case True
    then have inc: "unat (i + 1) = Suc (unat i)" using unat_Suc_less [of i n] by simp
    then have up: "i \<le> i + 1" by (simp add: word_le_nat_alt)
    have split: "i \<le> j \<longleftrightarrow> j = i \<or> i + 1 \<le> j" for j
      unfolding word_le_nat_alt inc word_unat_eq_iff by linarith
    have body: "body i = Some None" using 1(2) [of i] True by simp
    have step: "for_ret i n body = for_ret (i + 1) n body"
      using True body by (subst for_ret.simps) simp
    have pre: "body k = Some (f k)" if "i + 1 \<le> k" "k < n" for k
      using 1(2) that up by (meson order_trans)
    show ?thesis
    proof (rule 1(1) [OF conjunct1 [OF True] body refl, THEN disjE], erule (1) pre; elim exE conjE)
      assume none: "for_ret (i + 1) n body = Some None" "\<forall>k. i + 1 \<le> k \<longrightarrow> k < n \<longrightarrow> f k = None"
      have "f k = None" if "i \<le> k" "k < n" for k
        using that none(2) True split [of k] by auto
      then show ?thesis unfolding step using none(1) by blast
    next
      fix k r
      assume some: "i + 1 \<le> k" "k < n" "f k = Some r" "\<forall>j. i + 1 \<le> j \<longrightarrow> j < k \<longrightarrow> f j = None"
        "for_ret (i + 1) n body = Some (Some r)"
      have "f j = None" if "i \<le> j" "j < k" for j
        using that some(4) True split [of j] by auto
      moreover have "i \<le> k" using some(1) up by (rule order_trans [rotated])
      ultimately show ?thesis unfolding step using some(2,3,5) by blast
    qed
  next
    case False
    show ?thesis
    proof (cases "i < n")
      case True
      then obtain r where "f i = Some r" using False by auto
      moreover have "for_ret i n body = Some (Some r)"
        using True 1(2) [of i] calculation by (subst for_ret.simps) simp
      moreover have "\<forall>j. i \<le> j \<longrightarrow> j < i \<longrightarrow> f j = None" by auto
      ultimately show ?thesis using True order.refl by blast
    next
      case False
      then have "for_ret i n body = Some None" by (subst for_ret.simps) simp
      then show ?thesis using False by (meson order_le_less_trans)
    qed
  qed
qed

end
