(* ===== verification/Interfaces.thy ===== *)
theory Interfaces
  imports Prelude
begin

text \<open>
  The contracts between components, as locales: what a client of a queue, of an array of bits or
  of a block device may rely on.  Each is interpreted, on the definitions that model the code, in
  the theory of the component that provides it.
\<close>

section \<open>First-in first-out queues\<close>

text \<open>Client programs over any queue: enqueue a sequence, dequeue a number of items.\<close>

fun enq_all :: "('q \<Rightarrow> 'a \<Rightarrow> 'q option) \<Rightarrow> 'q \<Rightarrow> 'a list \<Rightarrow> 'q option" where
  "enq_all enq q [] = Some q"
| "enq_all enq q (x # xs) = do { q \<leftarrow> enq q x; enq_all enq q xs }"

fun deq_many :: "('q \<Rightarrow> ('q \<times> 'a) option) \<Rightarrow> 'q \<Rightarrow> nat \<Rightarrow> ('q \<times> 'a list) option" where
  "deq_many deq q 0 = Some (q, [])"
| "deq_many deq q (Suc n) = do {
     (q, x) \<leftarrow> deq q;
     (q, xs) \<leftarrow> deq_many deq q n;
     Some (q, x # xs)
   }"

text \<open>\<open>holds q xs\<close>: the queue is well formed and contains \<open>xs\<close>; \<open>room xs x\<close>: \<open>x\<close> may be added.\<close>

locale fifo_queue =
  fixes enq :: "'q \<Rightarrow> 'a \<Rightarrow> 'q option"
    and deq :: "'q \<Rightarrow> ('q \<times> 'a) option"
    and holds :: "'q \<Rightarrow> 'a list \<Rightarrow> bool"
    and room :: "'a list \<Rightarrow> 'a \<Rightarrow> bool"
  assumes enq_holds: "holds q xs \<Longrightarrow> room xs x \<Longrightarrow> \<exists>q'. enq q x = Some q' \<and> holds q' (xs @ [x])"
    and deq_holds: "holds q (x # xs) \<Longrightarrow> \<exists>q'. deq q = Some (q', x) \<and> holds q' xs"
begin

lemma enq_all_holds:
  "holds q xs \<Longrightarrow> (\<And>us v vs. ys = us @ v # vs \<Longrightarrow> room (xs @ us) v)
     \<Longrightarrow> \<exists>q'. enq_all enq q ys = Some q' \<and> holds q' (xs @ ys)"
proof (induction ys arbitrary: q xs)
  case Nil
  then show ?case by simp
next
  case (Cons y ys)
  have "room xs y"
    using Cons.prems(2) [of "[]"] by simp
  then obtain q1 where q1: "enq q y = Some q1" "holds q1 (xs @ [y])"
    using enq_holds Cons.prems(1) by blast
  have "room ((xs @ [y]) @ us) v" if "ys = us @ v # vs" for us v vs
    using Cons.prems(2) [of "y # us" v vs] that by simp
  from Cons.IH [OF q1(2) this] q1(1) show ?case by auto
qed

lemma deq_many_holds:
  "holds q (xs @ ys) \<Longrightarrow> \<exists>q'. deq_many deq q (length xs) = Some (q', xs) \<and> holds q' ys"
proof (induction xs arbitrary: q)
  case Nil
  then show ?case by simp
next
  case (Cons x xs)
  then obtain q1 where "deq q = Some (q1, x)" "holds q1 (xs @ ys)"
    using deq_holds by fastforce
  with Cons.IH [of q1] show ?case by auto
qed

text \<open>Everything comes out, in the order it went in, after what was there before.\<close>

lemma first_in_first_out:
  assumes "holds q xs" and "\<And>us v vs. ys = us @ v # vs \<Longrightarrow> room (xs @ us) v"
  shows "\<exists>q1 q2. enq_all enq q ys = Some q1
      \<and> deq_many deq q1 (length xs + length ys) = Some (q2, xs @ ys)
      \<and> holds q2 []"
proof -
  obtain q1 where "enq_all enq q ys = Some q1" "holds q1 (xs @ ys)"
    using enq_all_holds [OF assms(1), of ys] assms(2) by blast
  moreover from this(2) obtain q2 where "deq_many deq q1 (length (xs @ ys)) = Some (q2, xs @ ys)" "holds q2 []"
    using deq_many_holds [of q1 "xs @ ys" "[]"] by auto
  ultimately show ?thesis by auto
qed

end

section \<open>Allocators of runs of slots\<close>

text \<open>Sectors, page frames and swap slots are handed out by index: \<open>slots i n\<close> are the \<open>n\<close> indices from
  \<open>i\<close> on.\<close>

definition slots :: "32 word \<Rightarrow> 32 word \<Rightarrow> nat set" where
  "slots i n = {unat i..<unat i + unat n}"

fun alloc_many :: "('s \<Rightarrow> 32 word \<Rightarrow> ('s \<times> 32 word option) option) \<Rightarrow> 's \<Rightarrow> 32 word list
    \<Rightarrow> ('s \<times> 32 word option list) option" where
  "alloc_many alloc s [] = Some (s, [])"
| "alloc_many alloc s (n # ns) = do {
     (s, r) \<leftarrow> alloc s n;
     (s, rs) \<leftarrow> alloc_many alloc s ns;
     Some (s, r # rs)
   }"

text \<open>The regions a sequence of requests obtained.\<close>

fun regions :: "32 word list \<Rightarrow> 32 word option list \<Rightarrow> nat set list" where
  "regions (n # ns) (Some i # rs) = slots i n # regions ns rs"
| "regions (n # ns) (None # rs) = regions ns rs"
| "regions _ _ = []"

fun disjoint_regions :: "nat set list \<Rightarrow> bool" where
  "disjoint_regions [] = True"
| "disjoint_regions (r # rs) = ((\<forall>s\<in>set rs. r \<inter> s = {}) \<and> disjoint_regions rs)"

locale slot_allocator =
  fixes alloc :: "'s \<Rightarrow> 32 word \<Rightarrow> ('s \<times> 32 word option) option"
    and release :: "'s \<Rightarrow> 32 word \<Rightarrow> 32 word \<Rightarrow> 's option"
    and ok :: "'s \<Rightarrow> bool"
    and used :: "'s \<Rightarrow> nat set"
  assumes alloc_fresh: "ok s \<Longrightarrow> \<exists>s' r. alloc s n = Some (s', r) \<and> ok s' \<and>
        (case r of None \<Rightarrow> used s' = used s | Some i \<Rightarrow> slots i n \<inter> used s = {} \<and> used s' = used s \<union> slots i n)"
    and release_used: "ok s \<Longrightarrow> slots i n \<noteq> {} \<Longrightarrow> slots i n \<subseteq> used s \<Longrightarrow>
        \<exists>s'. release s i n = Some s' \<and> ok s' \<and> used s' = used s - slots i n"
begin

lemma alloc_many_regions:
  "ok s \<Longrightarrow> \<exists>s' rs. alloc_many alloc s ns = Some (s', rs) \<and> ok s' \<and> length rs = length ns
     \<and> disjoint_regions (regions ns rs) \<and> \<Union> (set (regions ns rs)) \<inter> used s = {}
     \<and> used s' = used s \<union> \<Union> (set (regions ns rs))"
proof (induction ns arbitrary: s)
  case Nil
  then show ?case by simp
next
  case (Cons n ns)
  obtain s1 r where 1: "alloc s n = Some (s1, r)" "ok s1"
      "case r of None \<Rightarrow> used s1 = used s | Some i \<Rightarrow> slots i n \<inter> used s = {} \<and> used s1 = used s \<union> slots i n"
    using alloc_fresh [OF Cons.prems, of n] by blast
  obtain s2 rs where 2: "alloc_many alloc s1 ns = Some (s2, rs)" "ok s2" "length rs = length ns"
      "disjoint_regions (regions ns rs)" "\<Union> (set (regions ns rs)) \<inter> used s1 = {}"
      "used s2 = used s1 \<union> \<Union> (set (regions ns rs))"
    using Cons.IH [OF 1(2)] by blast
  show ?case
  proof (cases r)
    case None
    then show ?thesis using 1 2 by simp
  next
    case (Some i)
    then have "\<forall>s\<in>set (regions ns rs). slots i n \<inter> s = {}" using 1(3) 2(5) by auto
    then show ?thesis using 1 2 Some by (simp add: Int_Un_distrib Un_assoc) blast
  qed
qed

lemma alloc_release:
  assumes "ok s" and "alloc s n = Some (s1, Some i)" and "0 < n"
  shows "\<exists>s2. release s1 i n = Some s2 \<and> ok s2 \<and> used s2 = used s"
proof -
  have s1: "ok s1" "slots i n \<inter> used s = {}" "used s1 = used s \<union> slots i n"
    using alloc_fresh [OF assms(1), of n] assms(2) by auto
  moreover have "slots i n \<noteq> {}" using assms(3) by (simp add: slots_def word_less_nat_alt)
  ultimately show ?thesis using release_used [of s1 i n] by (auto simp: Un_Diff)
qed

end

section \<open>Devices of 512-byte sectors\<close>

text \<open>Clients that move a run of consecutive sectors, one call per sector.\<close>

fun write_sectors :: "('d \<Rightarrow> 32 word \<Rightarrow> byte list \<Rightarrow> 'd option) \<Rightarrow> 'd \<Rightarrow> 32 word \<Rightarrow> byte list list \<Rightarrow> 'd option" where
  "write_sectors wr d s [] = Some d"
| "write_sectors wr d s (buf # bufs) = do { d \<leftarrow> wr d s buf; write_sectors wr d (s + 1) bufs }"

fun read_sectors :: "('d \<Rightarrow> 32 word \<Rightarrow> ('d \<times> byte list) option) \<Rightarrow> 'd \<Rightarrow> 32 word \<Rightarrow> nat
    \<Rightarrow> ('d \<times> byte list list) option" where
  "read_sectors rd d s 0 = Some (d, [])"
| "read_sectors rd d s (Suc n) = do {
     (d, buf) \<leftarrow> rd d s;
     (d, bufs) \<leftarrow> read_sectors rd d (s + 1) n;
     Some (d, buf # bufs)
   }"

text \<open>\<open>holds d c\<close>: the device has \<open>size'\<close> sectors and sector \<open>s\<close> contains \<open>c s\<close>.\<close>

locale sector_device =
  fixes rd :: "'d \<Rightarrow> 32 word \<Rightarrow> ('d \<times> byte list) option"
    and wr :: "'d \<Rightarrow> 32 word \<Rightarrow> byte list \<Rightarrow> 'd option"
    and size' :: "32 word"
    and holds :: "'d \<Rightarrow> (32 word \<Rightarrow> byte list) \<Rightarrow> bool"
  assumes rd_holds: "holds d c \<Longrightarrow> s < size' \<Longrightarrow> \<exists>d'. rd d s = Some (d', c s) \<and> holds d' c"
    and wr_holds: "holds d c \<Longrightarrow> s < size' \<Longrightarrow> \<exists>d'. wr d s buf = Some d' \<and> holds d' (c(s := buf))"
begin

lemma read_sectors_holds:
  "holds d c \<Longrightarrow> unat s + n \<le> unat size' \<Longrightarrow>
     \<exists>d'. read_sectors rd d s n = Some (d', map (\<lambda>i. c (s + word_of_nat i)) [0..<n]) \<and> holds d' c"
proof (induction n arbitrary: d s)
  case 0
  then show ?case by simp
next
  case (Suc n)
  then have s: "s < size'" by (simp add: word_less_nat_alt)
  then obtain d1 where d1: "rd d s = Some (d1, c s)" "holds d1 c"
    using rd_holds Suc.prems(1) by blast
  have "unat (s + 1) + n \<le> unat size'" using unat_Suc_less [OF s] Suc.prems(2) by simp
  from Suc.IH [OF d1(2) this] show ?case
    using d1(1) by (auto simp: add.assoc upt_conv_Cons map_Suc_upt [symmetric] o_def simp del: upt_Suc)
qed

lemma write_sectors_holds:
  "holds d c \<Longrightarrow> unat s + length bufs \<le> unat size' \<Longrightarrow>
     \<exists>d' c'. write_sectors wr d s bufs = Some d' \<and> holds d' c'
       \<and> (\<forall>t. c' t = (if s \<le> t \<and> unat t < unat s + length bufs then bufs ! (unat t - unat s) else c t))"
proof (induction bufs arbitrary: d s c)
  case Nil
  then show ?case by (auto simp: word_le_nat_alt)
next
  case (Cons buf bufs)
  then have s: "s < size'" by (simp add: word_less_nat_alt)
  then obtain d1 where d1: "wr d s buf = Some d1" "holds d1 (c(s := buf))"
    using wr_holds Cons.prems(1) by blast
  note s1 = unat_Suc_less [OF s]
  have "unat (s + 1) + length bufs \<le> unat size'" using s1 Cons.prems(2) by simp
  from Cons.IH [OF d1(2) this] obtain d' c' where 2: "write_sectors wr d1 (s + 1) bufs = Some d'" "holds d' c'"
      "\<And>t. c' t = (if s + 1 \<le> t \<and> unat t < unat (s + 1) + length bufs then bufs ! (unat t - unat (s + 1))
          else (c(s := buf)) t)"
    by blast
  have "c' t = (if s \<le> t \<and> unat t < unat s + length (buf # bufs) then (buf # bufs) ! (unat t - unat s) else c t)" for t
    unfolding 2(3) s1 word_le_nat_alt by (auto simp: nth_Cons' word_unat_eq_iff)
  then show ?case using d1(1) 2(1,2) by auto
qed

text \<open>A run of sectors reads back as it was written.\<close>

lemma sectors_round_trip:
  assumes "holds d c" and "unat s + length bufs \<le> unat size'"
  shows "\<exists>d1 d2. write_sectors wr d s bufs = Some d1 \<and> read_sectors rd d1 s (length bufs) = Some (d2, bufs)"
proof -
  obtain d1 c1 where 1: "write_sectors wr d s bufs = Some d1" "holds d1 c1"
      "\<And>t. c1 t = (if s \<le> t \<and> unat t < unat s + length bufs then bufs ! (unat t - unat s) else c t)"
    using write_sectors_holds [OF assms] by blast
  obtain d2 where 2: "read_sectors rd d1 s (length bufs)
      = Some (d2, map (\<lambda>i. c1 (s + word_of_nat i)) [0..<length bufs])"
    using read_sectors_holds [OF 1(2) assms(2)] by blast
  have "c1 (s + word_of_nat i) = bufs ! i" if "i < length bufs" for i
  proof -
    have "i < unat size'" using that assms(2) by simp
    then have "unat (word_of_nat i :: 32 word) = i" by (rule unat_of_nat_less)
    then have "unat (s + word_of_nat i) = unat s + i"
      using that assms(2) unat_less_2p [of size'] by (simp add: unat_plus_if')
    then show ?thesis using that by (simp add: 1(3) word_le_nat_alt)
  qed
  then have "map (\<lambda>i. c1 (s + word_of_nat i)) [0..<length bufs] = bufs"
    by (intro nth_equalityI) simp_all
  then show ?thesis using 1(1) 2 by auto
qed

end

end
