(* ===== verification/DList.thy ===== *)
theory DList
  imports Interfaces
begin

text \<open>
  The kernel's doubly linked lists, \<^verbatim>\<open>src/src/lib/kernel/list.c\<close> and \<^verbatim>\<open>list.h\<close>.

  The model keeps the pointers: a heap maps the address of every \<^verbatim>\<open>struct list_elem\<close> to its two
  links, a \<^verbatim>\<open>struct list\<close> is the address of its \<^verbatim>\<open>head\<close> element with the \<^verbatim>\<open>tail\<close> element eight
  bytes further on, and every routine is the sequence of loads, stores and assertions of the C
  code.  A load or store through a null pointer does not return.  The comparison callback
  \<^verbatim>\<open>less (a, b, aux)\<close> is a function of the two element addresses: callbacks read the structures
  that embed the elements and never the links.

  Loops that follow links are \<^theory_text>\<open>partial_function (option)\<close>: that they end is part of what is
  proved about them.
\<close>

section \<open>Elements, lists and the heap\<close>

record list_elem =
  le_prev :: addr
  le_next :: addr

type_synonym lheap = "addr \<Rightarrow> list_elem"
type_synonym less_func = "addr \<Rightarrow> addr \<Rightarrow> bool"

text \<open>\<^verbatim>\<open>struct list\<close>: two elements in a row, \<^verbatim>\<open>sizeof (struct list_elem) = 8\<close>.\<close>

definition head_of :: "addr \<Rightarrow> addr" where
  "head_of l = l"

definition tail_of :: "addr \<Rightarrow> addr" where
  "tail_of l = l + 8"

text \<open>The two assignable fields of an element, as C lvalues.\<close>

datatype lval = PrevOf addr | NextOf addr

definition upd_prev :: "lheap \<Rightarrow> addr \<Rightarrow> addr \<Rightarrow> lheap" where
  "upd_prev h a v = h(a := (h a)\<lparr>le_prev := v\<rparr>)"

definition upd_next :: "lheap \<Rightarrow> addr \<Rightarrow> addr \<Rightarrow> lheap" where
  "upd_next h a v = h(a := (h a)\<lparr>le_next := v\<rparr>)"

fun load :: "lheap \<Rightarrow> lval \<Rightarrow> addr option" where
  "load h (PrevOf a) = (if a = NULL then None else Some (le_prev (h a)))"
| "load h (NextOf a) = (if a = NULL then None else Some (le_next (h a)))"

fun store :: "lheap \<Rightarrow> lval \<Rightarrow> addr \<Rightarrow> lheap option" where
  "store h (PrevOf a) v = (if a = NULL then None else Some (upd_prev h a v))"
| "store h (NextOf a) v = (if a = NULL then None else Some (upd_next h a v))"

section \<open>Classification and traversal\<close>

definition is_head :: "lheap \<Rightarrow> addr \<Rightarrow> bool" where
  "is_head h e \<longleftrightarrow> e \<noteq> NULL \<and> le_prev (h e) = NULL \<and> le_next (h e) \<noteq> NULL"

definition is_interior :: "lheap \<Rightarrow> addr \<Rightarrow> bool" where
  "is_interior h e \<longleftrightarrow> e \<noteq> NULL \<and> le_prev (h e) \<noteq> NULL \<and> le_next (h e) \<noteq> NULL"

definition is_tail :: "lheap \<Rightarrow> addr \<Rightarrow> bool" where
  "is_tail h e \<longleftrightarrow> e \<noteq> NULL \<and> le_prev (h e) \<noteq> NULL \<and> le_next (h e) = NULL"

definition list_init :: "lheap \<Rightarrow> addr \<Rightarrow> lheap option" where
  "list_init h l = do {
     ASSERT (l \<noteq> NULL);
     h \<leftarrow> store h (PrevOf (head_of l)) NULL;
     h \<leftarrow> store h (NextOf (head_of l)) (tail_of l);
     h \<leftarrow> store h (PrevOf (tail_of l)) (head_of l);
     store h (NextOf (tail_of l)) NULL
   }"

definition list_begin :: "lheap \<Rightarrow> addr \<Rightarrow> addr option" where
  "list_begin h l = do { ASSERT (l \<noteq> NULL); load h (NextOf (head_of l)) }"

definition list_next :: "lheap \<Rightarrow> addr \<Rightarrow> addr option" where
  "list_next h e = do { ASSERT (is_head h e \<or> is_interior h e); load h (NextOf e) }"

definition list_end :: "addr \<Rightarrow> addr option" where
  "list_end l = do { ASSERT (l \<noteq> NULL); Some (tail_of l) }"

definition list_rbegin :: "lheap \<Rightarrow> addr \<Rightarrow> addr option" where
  "list_rbegin h l = do { ASSERT (l \<noteq> NULL); load h (PrevOf (tail_of l)) }"

definition list_prev :: "lheap \<Rightarrow> addr \<Rightarrow> addr option" where
  "list_prev h e = do { ASSERT (is_interior h e \<or> is_tail h e); load h (PrevOf e) }"

definition list_rend :: "addr \<Rightarrow> addr option" where
  "list_rend l = do { ASSERT (l \<noteq> NULL); Some (head_of l) }"

definition list_head :: "addr \<Rightarrow> addr option" where
  "list_head l = do { ASSERT (l \<noteq> NULL); Some (head_of l) }"

definition list_tail :: "addr \<Rightarrow> addr option" where
  "list_tail l = do { ASSERT (l \<noteq> NULL); Some (tail_of l) }"

definition list_empty :: "lheap \<Rightarrow> addr \<Rightarrow> bool option" where
  "list_empty h l = do { b \<leftarrow> list_begin h l; e \<leftarrow> list_end l; Some (b = e) }"

definition list_front :: "lheap \<Rightarrow> addr \<Rightarrow> addr option" where
  "list_front h l = do {
     emp \<leftarrow> list_empty h l;
     ASSERT (\<not> emp);
     load h (NextOf (head_of l))
   }"

definition list_back :: "lheap \<Rightarrow> addr \<Rightarrow> addr option" where
  "list_back h l = do {
     emp \<leftarrow> list_empty h l;
     ASSERT (\<not> emp);
     load h (PrevOf (tail_of l))
   }"

section \<open>Insertion, removal, splicing\<close>

definition list_insert :: "lheap \<Rightarrow> addr \<Rightarrow> addr \<Rightarrow> lheap option" where
  "list_insert h before elem = do {
     ASSERT (is_interior h before \<or> is_tail h before);
     ASSERT (elem \<noteq> NULL);
     p \<leftarrow> load h (PrevOf before);
     h \<leftarrow> store h (PrevOf elem) p;
     h \<leftarrow> store h (NextOf elem) before;
     p \<leftarrow> load h (PrevOf before);
     h \<leftarrow> store h (NextOf p) elem;
     store h (PrevOf before) elem
   }"

definition list_splice :: "lheap \<Rightarrow> addr \<Rightarrow> addr \<Rightarrow> addr \<Rightarrow> lheap option" where
  "list_splice h before first last' = do {
     ASSERT (is_interior h before \<or> is_tail h before);
     if first = last' then Some h
     else do {
       last' \<leftarrow> list_prev h last';
       ASSERT (is_interior h first);
       ASSERT (is_interior h last');
       fp \<leftarrow> load h (PrevOf first);
       ln \<leftarrow> load h (NextOf last');
       h \<leftarrow> store h (NextOf fp) ln;
       ln \<leftarrow> load h (NextOf last');
       fp \<leftarrow> load h (PrevOf first);
       h \<leftarrow> store h (PrevOf ln) fp;
       bp \<leftarrow> load h (PrevOf before);
       h \<leftarrow> store h (PrevOf first) bp;
       h \<leftarrow> store h (NextOf last') before;
       bp \<leftarrow> load h (PrevOf before);
       h \<leftarrow> store h (NextOf bp) first;
       store h (PrevOf before) last'
     }
   }"

definition list_push_front :: "lheap \<Rightarrow> addr \<Rightarrow> addr \<Rightarrow> lheap option" where
  "list_push_front h l elem = do { b \<leftarrow> list_begin h l; list_insert h b elem }"

definition list_push_back :: "lheap \<Rightarrow> addr \<Rightarrow> addr \<Rightarrow> lheap option" where
  "list_push_back h l elem = do { e \<leftarrow> list_end l; list_insert h e elem }"

text \<open>The result is the new heap and the element that followed the removed one.\<close>

definition list_remove :: "lheap \<Rightarrow> addr \<Rightarrow> (lheap \<times> addr) option" where
  "list_remove h elem = do {
     ASSERT (is_interior h elem);
     p \<leftarrow> load h (PrevOf elem);
     n \<leftarrow> load h (NextOf elem);
     h \<leftarrow> store h (NextOf p) n;
     n \<leftarrow> load h (NextOf elem);
     p \<leftarrow> load h (PrevOf elem);
     h \<leftarrow> store h (PrevOf n) p;
     n \<leftarrow> load h (NextOf elem);
     Some (h, n)
   }"

definition list_pop_front :: "lheap \<Rightarrow> addr \<Rightarrow> (lheap \<times> addr) option" where
  "list_pop_front h l = do {
     front \<leftarrow> list_front h l;
     (h, n) \<leftarrow> list_remove h front;
     Some (h, front)
   }"

definition list_pop_back :: "lheap \<Rightarrow> addr \<Rightarrow> (lheap \<times> addr) option" where
  "list_pop_back h l = do {
     back \<leftarrow> list_back h l;
     (h, n) \<leftarrow> list_remove h back;
     Some (h, back)
   }"

section \<open>Whole-list operations\<close>

text \<open>\<^verbatim>\<open>list_size\<close> counts in a 32-bit \<^verbatim>\<open>size_t\<close>.\<close>

partial_function (option) size_loop :: "lheap \<Rightarrow> addr \<Rightarrow> addr \<Rightarrow> 32 word \<Rightarrow> 32 word option" where
  "size_loop h l e cnt = do {
     end \<leftarrow> list_end l;
     if e = end then Some cnt
     else do { e \<leftarrow> list_next h e; size_loop h l e (cnt + 1) }
   }"

definition list_size :: "lheap \<Rightarrow> addr \<Rightarrow> 32 word option" where
  "list_size h l = do { e \<leftarrow> list_begin h l; size_loop h l e 0 }"

definition swap :: "lheap \<Rightarrow> lval \<Rightarrow> lval \<Rightarrow> lheap option" where
  "swap h a b = do {
     t \<leftarrow> load h a;
     vb \<leftarrow> load h b;
     h \<leftarrow> store h a vb;
     store h b t
   }"

partial_function (option) reverse_loop :: "lheap \<Rightarrow> addr \<Rightarrow> addr \<Rightarrow> lheap option" where
  "reverse_loop h l e = do {
     end \<leftarrow> list_end l;
     if e = end then Some h
     else do {
       h \<leftarrow> swap h (PrevOf e) (NextOf e);
       e \<leftarrow> load h (PrevOf e);
       reverse_loop h l e
     }
   }"

definition list_reverse :: "lheap \<Rightarrow> addr \<Rightarrow> lheap option" where
  "list_reverse h l = do {
     emp \<leftarrow> list_empty h l;
     if emp then Some h
     else do {
       e \<leftarrow> list_begin h l;
       h \<leftarrow> reverse_loop h l e;
       h \<leftarrow> swap h (NextOf (head_of l)) (PrevOf (tail_of l));
       hn \<leftarrow> load h (NextOf (head_of l));
       tp \<leftarrow> load h (PrevOf (tail_of l));
       swap h (PrevOf hn) (NextOf tp)
     }
   }"


section \<open>Well-formed lists\<close>

text \<open>
  \<open>seg h p xs q\<close>: following links from node \<open>p\<close> one meets exactly the nodes \<open>xs\<close> and then \<open>q\<close>,
  in both directions.
\<close>

primrec seg :: "lheap \<Rightarrow> addr \<Rightarrow> addr list \<Rightarrow> addr \<Rightarrow> bool" where
  "seg h p [] q \<longleftrightarrow> le_next (h p) = q \<and> le_prev (h q) = p"
| "seg h p (x # xs) q \<longleftrightarrow> le_next (h p) = x \<and> le_prev (h x) = p \<and> seg h x xs q"

definition nodes :: "addr \<Rightarrow> addr list \<Rightarrow> addr list" where
  "nodes l xs = l # xs @ [tail_of l]"

text \<open>The invariant of list.c (the picture at the top of the file): the list at \<open>l\<close> holds exactly
  the elements \<open>xs\<close>, in order, between its two header elements.\<close>

definition dlist :: "lheap \<Rightarrow> addr \<Rightarrow> addr list \<Rightarrow> bool" where
  "dlist h l xs \<longleftrightarrow> distinct (nodes l xs) \<and> NULL \<notin> set (nodes l xs) \<and> seg h l xs (tail_of l)
     \<and> le_prev (h l) = NULL \<and> le_next (h (tail_of l)) = NULL"

text \<open>The element an iterator stands on when \<open>xs\<close> remains: its first element, else the tail.\<close>

definition cur :: "addr \<Rightarrow> addr list \<Rightarrow> addr" where
  "cur l xs = hd (xs @ [tail_of l])"

lemma cur_simps [simp]: "cur l [] = tail_of l" "cur l (x # xs) = x"
  by (simp_all add: cur_def)

lemma cur_append: "cur l (xs @ ys) = (if xs = [] then cur l ys else hd xs)"
  by (cases xs) simp_all

lemma set_nodes [simp]: "set (nodes l xs) = insert l (insert (tail_of l) (set xs))"
  by (auto simp: nodes_def)

lemma distinct_nodes: "distinct (nodes l xs) \<longleftrightarrow>
    distinct xs \<and> l \<notin> set xs \<and> tail_of l \<notin> set xs \<and> l \<noteq> tail_of l"
  by (auto simp: nodes_def)

subsection \<open>Loads after stores\<close>

lemma upd_next_simps [simp, heap_simps]:
  "le_next (upd_next h a v b) = (if b = a then v else le_next (h b))"
  "le_prev (upd_next h a v b) = le_prev (h b)"
  by (simp_all add: upd_next_def)

lemma upd_prev_simps [simp, heap_simps]:
  "le_prev (upd_prev h a v b) = (if b = a then v else le_prev (h b))"
  "le_next (upd_prev h a v b) = le_next (h b)"
  by (simp_all add: upd_prev_def)

lemma upd_other:
  "b \<noteq> a \<Longrightarrow> upd_next h a v b = h b"
  "b \<noteq> a \<Longrightarrow> upd_prev h a v b = h b"
  by (simp_all add: upd_next_def upd_prev_def)

lemma seg_upd_next [simp, heap_simps]:
  "a \<noteq> p \<Longrightarrow> a \<notin> set xs \<Longrightarrow> seg (upd_next h a v) p xs q = seg h p xs q"
  by (induction xs arbitrary: p) auto

lemma seg_upd_prev [simp, heap_simps]:
  "a \<noteq> q \<Longrightarrow> a \<notin> set xs \<Longrightarrow> seg (upd_prev h a v) p xs q = seg h p xs q"
  by (induction xs arbitrary: p) auto

lemma seg_append [simp]: "seg h p (xs @ y # ys) q \<longleftrightarrow> seg h p xs y \<and> seg h y ys q"
  by (induction xs arbitrary: p) auto

lemma seg_last: "seg h p xs q \<Longrightarrow> le_prev (h q) = last (p # xs)"
  by (induction xs arbitrary: p) auto

lemma seg_first: "seg h p xs q \<Longrightarrow> le_next (h p) = hd (xs @ [q])"
  by (cases xs) auto

lemma seg_cong:
  "(\<And>a. a \<in> set (p # xs @ [q]) \<Longrightarrow> h' a = h a) \<Longrightarrow> seg h' p xs q = seg h p xs q"
  by (induction xs arbitrary: p) auto

text \<open>A list is untouched by writes to nodes that are not its own.\<close>

lemma dlist_frame:
  assumes "dlist h l xs" and "\<And>a. a \<in> set (nodes l xs) \<Longrightarrow> h' a = h a"
  shows "dlist h' l xs"
proof -
  have "seg h' l xs (tail_of l) = seg h l xs (tail_of l)"
    by (rule seg_cong) (use assms(2) in auto)
  then show ?thesis
    using assms by (simp add: dlist_def)
qed

lemma dlist_notNULL: "dlist h l xs \<Longrightarrow> l \<noteq> NULL \<and> tail_of l \<noteq> NULL \<and> NULL \<notin> set xs"
  by (auto simp: dlist_def)

lemma dlist_distinct: "dlist h l xs \<Longrightarrow> distinct xs \<and> l \<notin> set xs \<and> tail_of l \<notin> set xs \<and> l \<noteq> tail_of l"
  by (simp add: dlist_def distinct_nodes)

subsection \<open>What the links of a well-formed list are\<close>

lemma dlist_head_next: "dlist h l xs \<Longrightarrow> le_next (h l) = cur l xs"
  by (auto simp: dlist_def cur_def dest: seg_first)

lemma dlist_next: "dlist h l (xs @ e # ys) \<Longrightarrow> le_next (h e) = cur l ys"
  by (auto simp: dlist_def cur_def dest: seg_first)

lemma dlist_prev:
  assumes "dlist h l (xs @ ys)" shows "le_prev (h (cur l ys)) = last (l # xs)"
proof (cases ys)
  case Nil
  then show ?thesis
    using assms by (auto simp: dlist_def dest: seg_last)
next
  case (Cons y zs)
  then show ?thesis
    using assms by (auto simp: dlist_def dest!: seg_last)
qed

lemma last_in_nodes: "dlist h l (xs @ ys) \<Longrightarrow> last (l # xs) \<noteq> NULL"
  using dlist_notNULL [of h l "xs @ ys"] by (cases xs rule: rev_cases) auto

lemma cur_notNULL: "dlist h l (xs @ ys) \<Longrightarrow> cur l ys \<noteq> NULL"
  using dlist_notNULL [of h l "xs @ ys"] by (cases ys) auto

lemma dlist_interior: "dlist h l (xs @ e # ys) \<Longrightarrow> is_interior h e"
  using dlist_next [of h l xs e ys] dlist_prev [of h l xs "e # ys"]
    last_in_nodes [of h l xs "e # ys"] cur_notNULL [of h l "xs @ [e]" ys]
    dlist_notNULL [of h l "xs @ e # ys"]
  by (simp add: is_interior_def)

lemma dlist_cur: "dlist h l (xs @ ys) \<Longrightarrow> is_interior h (cur l ys) \<or> is_tail h (cur l ys)"
  using dlist_interior [of h l xs] dlist_prev [of h l xs ys] last_in_nodes [of h l xs ys]
  by (cases ys) (auto simp: is_tail_def dlist_def)

lemma dlist_head: "dlist h l xs \<Longrightarrow> is_head h l"
  using dlist_head_next [of h l xs] cur_notNULL [of h l "[]" xs]
  by (simp add: is_head_def dlist_def)

lemma list_begin_dlist [simp]: "dlist h l xs \<Longrightarrow> list_begin h l = Some (cur l xs)"
  using dlist_head_next [of h l xs] dlist_notNULL [of h l xs]
  by (simp add: list_begin_def head_of_def)

lemma list_end_dlist [simp]: "dlist h l xs \<Longrightarrow> list_end l = Some (tail_of l)"
  using dlist_notNULL [of h l xs] by (simp add: list_end_def)

lemma list_next_dlist: "dlist h l (xs @ e # ys) \<Longrightarrow> list_next h e = Some (cur l ys)"
  using dlist_interior [of h l xs e ys] dlist_next [of h l xs e ys] dlist_notNULL [of h l "xs @ e # ys"]
  by (simp add: list_next_def)

lemma list_next_head: "dlist h l xs \<Longrightarrow> list_next h l = Some (cur l xs)"
  using dlist_head [of h l xs] dlist_head_next [of h l xs] dlist_notNULL [of h l xs]
  by (simp add: list_next_def)

lemma list_prev_dlist: "dlist h l (xs @ ys) \<Longrightarrow> list_prev h (cur l ys) = Some (last (l # xs))"
  using dlist_cur [of h l xs ys] dlist_prev [of h l xs ys] cur_notNULL [of h l xs ys]
  by (simp add: list_prev_def)

lemma list_empty_dlist [simp]: "dlist h l xs \<Longrightarrow> list_empty h l = Some (xs = [])"
  using dlist_distinct [of h l xs] by (cases xs) (auto simp: list_empty_def)

section \<open>Refinement of the operations\<close>

lemma list_init_dlist:
  assumes "l \<noteq> NULL" and "tail_of l \<noteq> NULL"
  shows "\<exists>h'. list_init h l = Some h' \<and> dlist h' l [] \<and> (\<forall>a. a \<notin> set (nodes l []) \<longrightarrow> h' a = h a)"
proof -
  have "l \<noteq> tail_of l"
    by (simp add: tail_of_def)
  with assms show ?thesis
    by (auto simp: list_init_def head_of_def dlist_def distinct_nodes upd_other)
qed

lemma seg_link:
  assumes "seg h p (xs @ ys) q" and "distinct (p # xs @ ys @ [q])" and "e \<notin> set (p # xs @ ys @ [q])"
    and "pr = last (p # xs)" and "nx = hd (ys @ [q])"
  shows "seg (upd_prev (upd_next (upd_next (upd_prev h e pr) e nx) pr e) nx e) p (xs @ e # ys) q"
  using assms by (cases xs rule: rev_cases; cases ys) auto

text \<open>Refinement of \<^verbatim>\<open>list_insert\<close>: inserting before the position where \<open>ys\<close> starts.\<close>

lemma list_insert_dlist:
  assumes d: "dlist h l (xs @ ys)" and e: "e \<notin> set (nodes l (xs @ ys))" "e \<noteq> NULL"
  obtains h' where "list_insert h (cur l ys) e = Some h'" and "dlist h' l (xs @ e # ys)"
    and "\<And>a. a \<notin> set (nodes l (xs @ e # ys)) \<Longrightarrow> h' a = h a"
proof -
  define p where "p = last (l # xs)"
  define b where "b = cur l ys"
  define h' where "h' = upd_prev (upd_next (upd_next (upd_prev h e p) e b) p e) b e"
  have pmem: "p = l \<or> p \<in> set xs"
    by (cases xs rule: rev_cases) (simp_all add: p_def)
  have bmem: "b = tail_of l \<or> b \<in> set ys"
    by (cases ys) (simp_all add: b_def)
  have neq: "b \<noteq> e" "p \<noteq> e" "b \<noteq> NULL" "p \<noteq> NULL"
    using pmem bmem e d dlist_notNULL [OF d] by auto
  have bp: "le_prev (h b) = p"
    unfolding b_def p_def by (rule dlist_prev [OF d])
  have run: "list_insert h b e = Some h'"
    using dlist_cur [OF d] e(2) neq bp by (simp add: list_insert_def h'_def b_def [symmetric])
  have "seg h' l (xs @ e # ys) (tail_of l)"
    unfolding h'_def using d e dlist_distinct [OF d]
    by (intro seg_link) (auto simp: dlist_def p_def b_def cur_def)
  moreover have "le_prev (h' l) = NULL" "le_next (h' (tail_of l)) = NULL"
    using d e dlist_distinct [OF d] pmem bmem by (auto simp: h'_def dlist_def)
  ultimately have "dlist h' l (xs @ e # ys)"
    using d e by (auto simp: dlist_def distinct_nodes)
  moreover have "h' a = h a" if "a \<notin> set (nodes l (xs @ e # ys))" for a
  proof -
    have "a \<noteq> p" "a \<noteq> b" "a \<noteq> e"
      using that pmem bmem by auto
    then show ?thesis by (simp add: h'_def upd_other)
  qed
  ultimately show ?thesis
    using that run by (auto simp: b_def)
qed

lemma seg_unlink:
  assumes "seg h p (xs @ e # ys) q" and "distinct (p # xs @ e # ys @ [q])"
    and "pr = last (p # xs)" and "nx = hd (ys @ [q])"
  shows "seg (upd_prev (upd_next h pr nx) nx pr) p (xs @ ys) q"
  using assms by (cases xs rule: rev_cases; cases ys) auto

lemma list_remove_dlist:
  assumes d: "dlist h l (xs @ e # ys)"
  obtains h' where "list_remove h e = Some (h', cur l ys)" and "dlist h' l (xs @ ys)"
    and "\<And>a. a \<notin> set (nodes l (xs @ ys)) \<Longrightarrow> h' a = h a"
proof -
  define p where "p = last (l # xs)"
  define n where "n = cur l ys"
  define h' where "h' = upd_prev (upd_next h p n) n p"
  have pmem: "p = l \<or> p \<in> set xs"
    by (cases xs rule: rev_cases) (simp_all add: p_def)
  have nmem: "n = tail_of l \<or> n \<in> set ys"
    by (cases ys) (simp_all add: n_def)
  have neq: "n \<noteq> e" "p \<noteq> e" "n \<noteq> NULL" "p \<noteq> NULL" "e \<noteq> NULL"
    using pmem nmem dlist_distinct [OF d] dlist_notNULL [OF d] by auto
  have links: "le_prev (h e) = p" "le_next (h e) = n"
    using dlist_prev [OF d] dlist_next [OF d] by (simp_all add: p_def n_def)
  have run: "list_remove h e = Some (h', n)"
    using dlist_interior [OF d] neq links by (simp add: list_remove_def h'_def)
  have "seg h' l (xs @ ys) (tail_of l)"
    unfolding h'_def using d dlist_distinct [OF d]
    by (intro seg_unlink [where e = e]) (auto simp: dlist_def p_def n_def cur_def)
  moreover have "le_prev (h' l) = NULL" "le_next (h' (tail_of l)) = NULL"
    using d dlist_distinct [OF d] pmem nmem by (auto simp: h'_def dlist_def)
  ultimately have "dlist h' l (xs @ ys)"
    using d by (auto simp: dlist_def distinct_nodes)
  moreover have "h' a = h a" if "a \<notin> set (nodes l (xs @ ys))" for a
  proof -
    have "a \<noteq> p" "a \<noteq> n"
      using that pmem nmem by auto
    then show ?thesis by (simp add: h'_def upd_other)
  qed
  ultimately show ?thesis
    using that run by (auto simp: n_def)
qed

lemma list_push_front_dlist:
  assumes "dlist h l xs" and "e \<notin> set (nodes l xs)" and "e \<noteq> NULL"
  obtains h' where "list_push_front h l e = Some h'" and "dlist h' l (e # xs)"
    and "\<And>a. a \<notin> set (nodes l (e # xs)) \<Longrightarrow> h' a = h a"
  using list_insert_dlist [of h l "[]" xs e] assms by (auto simp: list_push_front_def)

lemma list_push_back_dlist:
  assumes "dlist h l xs" and "e \<notin> set (nodes l xs)" and "e \<noteq> NULL"
  obtains h' where "list_push_back h l e = Some h'" and "dlist h' l (xs @ [e])"
    and "\<And>a. a \<notin> set (nodes l (xs @ [e])) \<Longrightarrow> h' a = h a"
  using list_insert_dlist [of h l xs "[]" e] assms by (auto simp: list_push_back_def)

lemma list_front_dlist: "dlist h l (x # xs) \<Longrightarrow> list_front h l = Some x"
  using dlist_head_next [of h l "x # xs"] dlist_notNULL [of h l "x # xs"]
  by (simp add: list_front_def head_of_def)

lemma list_back_dlist: "dlist h l (xs @ [x]) \<Longrightarrow> list_back h l = Some x"
  using dlist_prev [of h l "xs @ [x]" "[]"] dlist_notNULL [of h l "xs @ [x]"]
  by (simp add: list_back_def)

lemma list_front_empty: "dlist h l [] \<Longrightarrow> list_front h l = None \<and> list_back h l = None"
  by (simp add: list_front_def list_back_def)

lemma list_pop_front_dlist:
  assumes "dlist h l (x # xs)"
  obtains h' where "list_pop_front h l = Some (h', x)" and "dlist h' l xs"
    and "\<And>a. a \<notin> set (nodes l xs) \<Longrightarrow> h' a = h a"
proof -
  obtain h' where "list_remove h x = Some (h', cur l xs)" "dlist h' l xs"
    and "\<And>a. a \<notin> set (nodes l xs) \<Longrightarrow> h' a = h a"
    using list_remove_dlist [of h l "[]" x xs] assms by auto
  then show ?thesis
    using that list_front_dlist [OF assms] by (simp add: list_pop_front_def)
qed

lemma list_pop_back_dlist:
  assumes "dlist h l (xs @ [x])"
  obtains h' where "list_pop_back h l = Some (h', x)" and "dlist h' l xs"
    and "\<And>a. a \<notin> set (nodes l xs) \<Longrightarrow> h' a = h a"
proof -
  obtain h' where "list_remove h x = Some (h', tail_of l)" "dlist h' l xs"
    and "\<And>a. a \<notin> set (nodes l xs) \<Longrightarrow> h' a = h a"
    using list_remove_dlist [of h l xs x "[]"] assms by auto
  then show ?thesis
    using that list_back_dlist [OF assms] by (simp add: list_pop_back_def)
qed

lemma size_loop_dlist:
  "dlist h l (xs @ ys) \<Longrightarrow> size_loop h l (cur l ys) cnt = Some (cnt + of_nat (length ys))"
proof (induction ys arbitrary: xs cnt)
  case Nil
  then show ?case by (subst size_loop.simps) simp
next
  case (Cons y ys)
  then have "size_loop h l (cur l ys) (cnt + 1) = Some (cnt + 1 + of_nat (length ys))"
    using Cons.IH [of "xs @ [y]"] by simp
  moreover have "y \<noteq> tail_of l"
    using dlist_distinct [OF Cons.prems] by auto
  ultimately show ?case
    using Cons.prems list_next_dlist [of h l xs y ys] by (subst size_loop.simps) (simp add: algebra_simps)
qed

lemma list_size_dlist: "dlist h l xs \<Longrightarrow> list_size h l = Some (of_nat (length xs))"
  using size_loop_dlist [of h l "[]" xs 0] by (simp add: list_size_def)


subsection \<open>Splicing\<close>

definition link :: "lheap \<Rightarrow> addr \<Rightarrow> addr \<Rightarrow> bool" where
  "link h a b \<longleftrightarrow> le_next (h a) = b \<and> le_prev (h b) = a"

abbreviation chain :: "lheap \<Rightarrow> addr list \<Rightarrow> bool" where
  "chain h \<equiv> successively (link h)"

lemma seg_chain: "seg h p xs q \<longleftrightarrow> chain h (p # xs @ [q])"
  by (induction xs arbitrary: p) (auto simp: link_def)


lemma chain_upd_next: "a \<notin> set (butlast xs) \<Longrightarrow> chain (upd_next h a v) xs = chain h xs"
  by (induction xs rule: induct_list012) (auto simp: link_def)

lemma chain_upd_prev: "a \<notin> set (tl xs) \<Longrightarrow> chain (upd_prev h a v) xs = chain h xs"
proof (induction xs rule: induct_list012)
  case (3 x y zs)
  then show ?case by (cases zs) (auto simp: link_def)
qed auto

lemma last_notin_butlast: "distinct xs \<Longrightarrow> xs \<noteq> [] \<Longrightarrow> last xs \<notin> set (butlast xs)"
  by (cases xs rule: rev_cases) auto

lemma hd_notin_tl: "distinct xs \<Longrightarrow> xs \<noteq> [] \<Longrightarrow> hd xs \<notin> set (tl xs)"
  by (cases xs) auto

lemma last_notin_disjoint: "set xs \<inter> set ys = {} \<Longrightarrow> ys \<noteq> [] \<Longrightarrow> last ys \<notin> set (butlast xs)"
  using in_set_butlastD last_in_set by fastforce

lemma hd_notin_disjoint: "set xs \<inter> set ys = {} \<Longrightarrow> ys \<noteq> [] \<Longrightarrow> hd ys \<notin> set (tl xs)"
  by (metis disjoint_iff hd_in_set list.sel(2) list.set_sel(2))

lemma last_neq: "set xs \<inter> set ys = {} \<Longrightarrow> xs \<noteq> [] \<Longrightarrow> ys \<noteq> [] \<Longrightarrow> last xs \<noteq> last ys"
  using last_in_set by fastforce

lemma hd_neq: "set xs \<inter> set ys = {} \<Longrightarrow> xs \<noteq> [] \<Longrightarrow> ys \<noteq> [] \<Longrightarrow> hd xs \<noteq> hd ys"
  using hd_in_set by fastforce

text \<open>The heap \<^verbatim>\<open>list_splice\<close> leaves behind, in the order of its six stores.\<close>

definition splice_heap :: "lheap \<Rightarrow> addr \<Rightarrow> addr \<Rightarrow> addr \<Rightarrow> addr \<Rightarrow> addr \<Rightarrow> addr \<Rightarrow> lheap" where
  "splice_heap h bp b fp f la ln =
     upd_prev (upd_next (upd_next (upd_prev (upd_prev (upd_next h fp ln) ln fp) f bp) la b) bp f) b la"

lemma chain_splice:
  assumes "chain h (as @ bs @ cs @ ds)" and "distinct (as @ bs @ cs @ ds)"
    and ne: "as \<noteq> []" "bs \<noteq> []" "cs \<noteq> []" "ds \<noteq> []"
  shows "chain (splice_heap h (last as) (hd bs) (last bs) (hd cs) (last cs) (hd ds)) (as @ cs @ bs @ ds)"
proof -
  have dis: "set as \<inter> set bs = {}" "set as \<inter> set cs = {}" "set as \<inter> set ds = {}"
      "set bs \<inter> set cs = {}" "set bs \<inter> set ds = {}" "set cs \<inter> set ds = {}"
      "set bs \<inter> set as = {}" "set cs \<inter> set as = {}" "set ds \<inter> set as = {}"
      "set cs \<inter> set bs = {}" "set ds \<inter> set bs = {}" "set ds \<inter> set cs = {}"
    and d: "distinct as" "distinct bs" "distinct cs" "distinct ds"
    using assms(2) by auto
  note facts = ne dis d last_notin_butlast hd_notin_tl last_notin_disjoint hd_notin_disjoint
    last_neq hd_neq chain_upd_next chain_upd_prev
  show ?thesis
    using assms(1) unfolding successively_append_iff splice_heap_def
    by (simp add: facts) (simp add: facts link_def)
qed


lemma chain_splice_other:
  assumes "chain h (as @ bs)" and "chain h (us @ cs @ ds)" and "distinct (as @ bs @ us @ cs @ ds)"
    and ne: "as \<noteq> []" "bs \<noteq> []" "us \<noteq> []" "cs \<noteq> []" "ds \<noteq> []"
  shows "chain (splice_heap h (last as) (hd bs) (last us) (hd cs) (last cs) (hd ds)) (as @ cs @ bs)"
    and "chain (splice_heap h (last as) (hd bs) (last us) (hd cs) (last cs) (hd ds)) (us @ ds)"
proof -
  have dis: "set as \<inter> set bs = {}" "set as \<inter> set cs = {}" "set as \<inter> set ds = {}" "set as \<inter> set us = {}"
      "set bs \<inter> set cs = {}" "set bs \<inter> set ds = {}" "set cs \<inter> set ds = {}" "set bs \<inter> set us = {}"
      "set bs \<inter> set as = {}" "set cs \<inter> set as = {}" "set ds \<inter> set as = {}" "set us \<inter> set as = {}"
      "set cs \<inter> set bs = {}" "set ds \<inter> set bs = {}" "set ds \<inter> set cs = {}" "set us \<inter> set bs = {}"
      "set us \<inter> set cs = {}" "set cs \<inter> set us = {}" "set us \<inter> set ds = {}" "set ds \<inter> set us = {}"
    and d: "distinct as" "distinct bs" "distinct cs" "distinct ds" "distinct us"
    using assms(3) by auto
  note facts = ne dis d last_notin_butlast hd_notin_tl last_notin_disjoint hd_notin_disjoint
    last_neq hd_neq chain_upd_next chain_upd_prev
  show "chain (splice_heap h (last as) (hd bs) (last us) (hd cs) (last cs) (hd ds)) (as @ cs @ bs)"
    and "chain (splice_heap h (last as) (hd bs) (last us) (hd cs) (last cs) (hd ds)) (us @ ds)"
    using assms(1,2) unfolding successively_append_iff splice_heap_def
    by (simp_all add: facts) (simp_all add: facts link_def)
qed

text \<open>The straight-line part of \<^verbatim>\<open>list_splice\<close>, under what its loads need.\<close>

lemma list_splice_run:
  assumes "is_interior h b \<or> is_tail h b" and "f \<noteq> ln" and "list_prev h ln = Some la"
    and "is_interior h f" and "is_interior h la" and "le_prev (h f) = fp" and "le_next (h la) = ln"
    and "le_prev (h b) = bp" and "la \<noteq> fp" and "b \<noteq> ln" and "b \<noteq> f" and "f \<noteq> ln" and "ln \<noteq> NULL" and "bp \<noteq> NULL"
  shows "list_splice h b f ln = Some (splice_heap h bp b fp f la ln)"
  using assms by (auto simp: list_splice_def splice_heap_def is_interior_def is_tail_def)

lemma splice_heap_frame:
  "a \<notin> {bp, b, fp, f, la, ln} \<Longrightarrow> splice_heap h bp b fp f la ln a = h a"
  by (simp add: splice_heap_def upd_other)

lemma last_Cons_mem: "last (l # xs) = l \<or> last (l # xs) \<in> set xs"
  by (cases xs rule: rev_cases) auto

lemma hd_snoc_mem: "hd (xs @ [t]) = t \<or> hd (xs @ [t]) \<in> set xs"
  by (cases xs) auto

lemma list_splice_dlist:
  assumes d: "dlist h l (xs @ ys @ zs @ ws)" and ne: "ys \<noteq> []" "zs \<noteq> []"
  obtains h' where "list_splice h (hd ys) (hd zs) (cur l ws) = Some h'"
    and "dlist h' l (xs @ zs @ ys @ ws)" and "\<And>a. a \<notin> set (nodes l (xs @ ys @ zs @ ws)) \<Longrightarrow> h' a = h a"
proof -
  define ln where "ln = cur l ws"
  define bp where "bp = last (l # xs)"
  define h' where "h' = splice_heap h bp (hd ys) (last ys) (hd zs) (last zs) ln"
  have ends: "hd ys # tl ys = ys" "hd zs # tl zs = zs" "butlast ys @ [last ys] = ys" "butlast zs @ [last zs] = zs"
    using ne by simp_all
  have dl: "dlist h l ((xs @ ys @ zs) @ ws)"
    using d by simp
  have "dlist h l (xs @ ys @ (butlast zs @ [last zs]) @ ws)"
    and "dlist h l (xs @ ys @ (hd zs # tl zs) @ ws)"
    and "dlist h l (xs @ (hd ys # tl ys) @ zs @ ws)"
    unfolding ends by (rule d)+
  then have dz: "dlist h l ((xs @ ys @ butlast zs) @ last zs # ws)"
    and dz1: "dlist h l ((xs @ ys) @ hd zs # (tl zs @ ws))"
    and dy: "dlist h l (xs @ hd ys # (tl ys @ zs @ ws))"
    by simp_all
  have lnmem: "ln = tail_of l \<or> ln \<in> set ws"
    using hd_snoc_mem [of ws "tail_of l"] by (simp add: ln_def cur_def)
  have bpmem: "bp = l \<or> bp \<in> set xs"
    using last_Cons_mem [of l xs] by (simp add: bp_def)
  have run: "list_splice h (hd ys) (hd zs) ln = Some h'"
    unfolding h'_def
  proof (rule list_splice_run)
    show "is_interior h (hd ys) \<or> is_tail h (hd ys)"
      using dlist_interior [OF dy] ..
    show "list_prev h ln = Some (last zs)"
      using list_prev_dlist [OF dl] ne by (simp add: ln_def)
    show "is_interior h (hd zs)"
      by (rule dlist_interior [OF dz1])
    show "is_interior h (last zs)"
      by (rule dlist_interior [OF dz])
    show "le_prev (h (hd zs)) = last ys"
      using dlist_prev [OF dz1] ne by simp
    show "le_next (h (last zs)) = ln"
      using dlist_next [OF dz] by (simp add: ln_def)
    show "le_prev (h (hd ys)) = bp"
      using dlist_prev [OF dy] by (simp add: bp_def)
    show "ln \<noteq> NULL" "bp \<noteq> NULL"
      using cur_notNULL [OF dl] last_in_nodes [OF dy] by (simp_all add: ln_def bp_def)
    have "hd ys \<in> set ys" "last ys \<in> set ys" "hd zs \<in> set zs" "last zs \<in> set zs"
      using ne by simp_all
    then show "hd zs \<noteq> ln" "last zs \<noteq> last ys" "hd ys \<noteq> ln" "hd ys \<noteq> hd zs" "hd zs \<noteq> ln"
      using dlist_distinct [OF d] lnmem by auto
  qed
  have "chain h' ((l # xs) @ zs @ ys @ (ws @ [tail_of l]))"
    unfolding h'_def ln_def bp_def cur_def
    by (rule chain_splice) (use d ne in \<open>auto simp: dlist_def seg_chain nodes_def\<close>)
  then have "seg h' l (xs @ zs @ ys @ ws) (tail_of l)"
    by (simp add: seg_chain)
  moreover have "le_prev (h' l) = NULL" "le_next (h' (tail_of l)) = NULL"
  proof -
    have "hd ys \<in> set ys" "last ys \<in> set ys" "hd zs \<in> set zs" "last zs \<in> set zs"
      using ne by simp_all
    then show "le_prev (h' l) = NULL" "le_next (h' (tail_of l)) = NULL"
      using d dlist_distinct [OF d] lnmem bpmem
      by (auto simp: h'_def splice_heap_def dlist_def)
  qed
  ultimately have "dlist h' l (xs @ zs @ ys @ ws)"
    using d by (auto simp: dlist_def distinct_nodes)
  moreover have "h' a = h a" if "a \<notin> set (nodes l (xs @ ys @ zs @ ws))" for a
  proof -
    have "hd ys \<in> set ys" "last ys \<in> set ys" "hd zs \<in> set zs" "last zs \<in> set zs"
      using ne by simp_all
    then have "a \<notin> {bp, hd ys, last ys, hd zs, last zs, ln}"
      using that lnmem bpmem by auto
    then show ?thesis
      unfolding h'_def by (rule splice_heap_frame)
  qed
  ultimately show ?thesis
    using that run by (simp add: ln_def)
qed


lemma list_splice_other_dlist:
  assumes d: "dlist h l (xs @ ys)" and m: "dlist h m (us @ zs @ vs)" and ne: "zs \<noteq> []"
    and dis: "set (nodes l (xs @ ys)) \<inter> set (nodes m (us @ zs @ vs)) = {}"
  obtains h' where "list_splice h (cur l ys) (hd zs) (cur m vs) = Some h'"
    and "dlist h' l (xs @ zs @ ys)" and "dlist h' m (us @ vs)"
    and "\<And>a. a \<notin> set (nodes l (xs @ ys)) \<union> set (nodes m (us @ zs @ vs)) \<Longrightarrow> h' a = h a"
proof -
  define b where "b = cur l ys"
  define bp where "bp = last (l # xs)"
  define ln where "ln = cur m vs"
  define fp where "fp = last (m # us)"
  define h' where "h' = splice_heap h bp b fp (hd zs) (last zs) ln"
  have ends: "hd zs # tl zs = zs" "butlast zs @ [last zs] = zs"
    using ne by simp_all
  have ml: "dlist h m ((us @ zs) @ vs)"
    using m by simp
  have "dlist h m (us @ (butlast zs @ [last zs]) @ vs)" and "dlist h m (us @ (hd zs # tl zs) @ vs)"
    unfolding ends by (rule m)+
  then have mz: "dlist h m ((us @ butlast zs) @ last zs # vs)" and mz1: "dlist h m (us @ hd zs # (tl zs @ vs))"
    by simp_all
  have mem: "b = tail_of l \<or> b \<in> set ys" "bp = l \<or> bp \<in> set xs" "ln = tail_of m \<or> ln \<in> set vs"
      "fp = m \<or> fp \<in> set us" "hd zs \<in> set zs" "last zs \<in> set zs"
    using hd_snoc_mem [of ys "tail_of l"] last_Cons_mem [of l xs] hd_snoc_mem [of vs "tail_of m"]
      last_Cons_mem [of m us] ne
    by (simp_all add: b_def bp_def ln_def fp_def cur_def)
  have L: "{b, bp, l, tail_of l} \<subseteq> set (nodes l (xs @ ys))"
    and M: "{ln, fp, m, tail_of m, hd zs, last zs} \<subseteq> set (nodes m (us @ zs @ vs))"
    using mem by auto
  have own: "l \<noteq> b" "tail_of l \<noteq> bp" "m \<notin> {hd zs, ln}" "tail_of m \<notin> {last zs, fp}"
    using dlist_distinct [OF d] dlist_distinct [OF m] mem by auto
  have run: "list_splice h b (hd zs) ln = Some h'"
    unfolding h'_def
  proof (rule list_splice_run)
    show "is_interior h b \<or> is_tail h b"
      unfolding b_def by (rule dlist_cur [OF d])
    show "list_prev h ln = Some (last zs)"
      using list_prev_dlist [OF ml] ne by (simp add: ln_def)
    show "is_interior h (hd zs)"
      by (rule dlist_interior [OF mz1])
    show "is_interior h (last zs)"
      by (rule dlist_interior [OF mz])
    show "le_prev (h (hd zs)) = fp"
      using dlist_prev [OF mz1] by (simp add: fp_def)
    show "le_next (h (last zs)) = ln"
      using dlist_next [OF mz] by (simp add: ln_def)
    show "le_prev (h b) = bp"
      unfolding b_def bp_def by (rule dlist_prev [OF d])
    show "ln \<noteq> NULL" "bp \<noteq> NULL"
      using cur_notNULL [OF ml] last_in_nodes [OF d] by (simp_all add: ln_def bp_def)
    show "hd zs \<noteq> ln" "hd zs \<noteq> ln" "last zs \<noteq> fp"
      using dlist_distinct [OF m] mem(3-6) by auto
    show "b \<noteq> ln" "b \<noteq> hd zs"
      using L M dis by blast+
  qed
  have "chain h ((l # xs) @ (ys @ [tail_of l]))" and "chain h ((m # us) @ zs @ (vs @ [tail_of m]))"
    using d m by (simp_all add: dlist_def seg_chain)
  moreover have "distinct ((l # xs) @ (ys @ [tail_of l]) @ (m # us) @ zs @ (vs @ [tail_of m]))"
    using dlist_distinct [OF d] dlist_distinct [OF m] dis by auto
  ultimately have sp: "l # xs \<noteq> [] \<Longrightarrow> ys @ [tail_of l] \<noteq> [] \<Longrightarrow> m # us \<noteq> [] \<Longrightarrow> vs @ [tail_of m] \<noteq> [] \<Longrightarrow>
      chain h' ((l # xs) @ zs @ (ys @ [tail_of l])) \<and> chain h' ((m # us) @ (vs @ [tail_of m]))"
    unfolding h'_def b_def ln_def bp_def fp_def cur_def
    using chain_splice_other [of h "l # xs" "ys @ [tail_of l]" "m # us" zs "vs @ [tail_of m]"] ne by blast
  have "chain h' ((l # xs) @ zs @ (ys @ [tail_of l]))" "chain h' ((m # us) @ (vs @ [tail_of m]))"
    using sp by blast+
  then have "seg h' l (xs @ zs @ ys) (tail_of l)" "seg h' m (us @ vs) (tail_of m)"
    by (simp_all add: seg_chain)
  moreover have "le_prev (h' l) = NULL" "le_next (h' (tail_of l)) = NULL"
    "le_prev (h' m) = NULL" "le_next (h' (tail_of m)) = NULL"
  proof -
    have "l \<notin> {b, hd zs, ln}" "tail_of l \<notin> {bp, last zs, fp}" "m \<notin> {b, hd zs, ln}" "tail_of m \<notin> {bp, last zs, fp}"
      using L M own dis by blast+
    then show "le_prev (h' l) = NULL" "le_next (h' (tail_of l)) = NULL"
      "le_prev (h' m) = NULL" "le_next (h' (tail_of m)) = NULL"
      using d m by (simp_all add: h'_def splice_heap_def dlist_def)
  qed
  ultimately have "dlist h' l (xs @ zs @ ys)" "dlist h' m (us @ vs)"
    using dlist_distinct [OF d] dlist_distinct [OF m] dlist_notNULL [OF d] dlist_notNULL [OF m] dis
    by (auto simp: dlist_def distinct_nodes)
  moreover have "h' a = h a" if "a \<notin> set (nodes l (xs @ ys)) \<union> set (nodes m (us @ zs @ vs))" for a
  proof -
    have "a \<notin> {bp, b, fp, hd zs, last zs, ln}"
      using that L M by blast
    then show ?thesis
      unfolding h'_def by (rule splice_heap_frame)
  qed
  ultimately show ?thesis
    using that run by (simp add: ln_def b_def)
qed

subsection \<open>Reversal\<close>

definition flip_links :: "addr set \<Rightarrow> lheap \<Rightarrow> lheap" where
  "flip_links A h = (\<lambda>a. if a \<in> A then \<lparr>le_prev = le_next (h a), le_next = le_prev (h a)\<rparr> else h a)"

lemma flip_links_simps [simp]:
  "le_prev (flip_links A h a) = (if a \<in> A then le_next (h a) else le_prev (h a))"
  "le_next (flip_links A h a) = (if a \<in> A then le_prev (h a) else le_next (h a))"
  by (simp_all add: flip_links_def)

lemma swap_flip:
  assumes "e \<noteq> NULL" and "e \<notin> A"
  shows "swap (flip_links A h) (PrevOf e) (NextOf e) = Some (flip_links (insert e A) h)"
proof -
  have "upd_next (upd_prev (flip_links A h) e (le_next (h e))) e (le_prev (h e)) = flip_links (insert e A) h"
    using assms by (auto simp: upd_next_def upd_prev_def flip_links_def fun_eq_iff)
  then show ?thesis
    using assms by (simp add: swap_def)
qed

lemma reverse_loop_dlist:
  "dlist h l (xs @ ys) \<Longrightarrow> reverse_loop (flip_links (set xs) h) l (cur l ys) = Some (flip_links (set (xs @ ys)) h)"
proof (induction ys arbitrary: xs)
  case Nil
  then show ?case by (subst reverse_loop.simps) simp
next
  case (Cons y ys)
  have y: "y \<noteq> tail_of l" "y \<notin> set xs" "y \<noteq> NULL"
    using dlist_distinct [OF Cons.prems] dlist_notNULL [OF Cons.prems] by auto
  have "reverse_loop (flip_links (insert y (set xs)) h) l (cur l ys)
      = Some (flip_links (set (xs @ y # ys)) h)"
    using Cons.IH [of "xs @ [y]"] Cons.prems by simp
  then show ?case
    using Cons.prems y swap_flip [OF y(3) y(2)] dlist_next [OF Cons.prems]
    by (subst reverse_loop.simps) simp
qed

lemma set_tl_subset: "set (tl ys) \<subseteq> set ys"
  by (cases ys) auto

lemma chain_flip_rev: "set xs \<subseteq> A \<Longrightarrow> chain (flip_links A h) (rev xs) = chain h xs"
  unfolding successively_rev
proof (induction xs rule: induct_list012)
  case (3 x y zs)
  then show ?case by (auto simp: link_def)
qed auto

lemma list_reverse_dlist:
  assumes d: "dlist h l xs"
  obtains h' where "list_reverse h l = Some h'" and "dlist h' l (rev xs)"
    and "\<And>a. a \<notin> set (nodes l xs) \<Longrightarrow> h' a = h a"
proof (cases "xs = []")
  case True
  then show ?thesis
    using that [of h] d by (simp add: list_reverse_def)
next
  case False
  define H where "H = flip_links (set xs) h"
  define H1 where "H1 = upd_prev (upd_next H l (last xs)) (tail_of l) (hd xs)"
  define h' where "h' = upd_next (upd_prev H1 (last xs) l) (hd xs) (tail_of l)"
  have inx: "hd xs \<in> set xs" "last xs \<in> set xs"
    using False by simp_all
  have mem: "l \<notin> set xs" "tail_of l \<notin> set xs" "l \<noteq> tail_of l" "l \<noteq> NULL" "tail_of l \<noteq> NULL"
    using dlist_distinct [OF d] dlist_notNULL [OF d] by simp_all
  have neq: "hd xs \<noteq> NULL" "last xs \<noteq> NULL" "hd xs \<noteq> l" "hd xs \<noteq> tail_of l" "last xs \<noteq> l" "last xs \<noteq> tail_of l"
    using inx mem dlist_notNULL [OF d] by metis+
  have lnk: "le_next (h l) = hd xs" "le_prev (h (tail_of l)) = last xs"
      "le_prev (h (hd xs)) = l" "le_next (h (last xs)) = tail_of l"
    using dlist_head_next [OF d] dlist_prev [of h l xs "[]"] dlist_prev [of h l "[]" xs]
      dlist_next [of h l "butlast xs" "last xs" "[]"] d False
    by (simp_all add: cur_def)
  have loop: "reverse_loop h l (cur l xs) = Some H"
    using reverse_loop_dlist [of h l "[]" xs] d by (simp add: H_def flip_links_def)
  have Hv: "le_next (H l) = hd xs" "le_prev (H (tail_of l)) = last xs"
      "le_next (H (hd xs)) = l" "le_prev (H (last xs)) = tail_of l"
    using inx mem lnk by (simp_all add: H_def)
  have "list_reverse h l = Some h'"
    using d False loop mem neq Hv
    by (simp add: list_reverse_def swap_def head_of_def H1_def h'_def)
  moreover have "dlist h' l (rev xs)"
  proof -
    have "chain h xs"
      using d by (simp add: dlist_def seg_chain successively_Cons successively_append_iff split: if_splits)
    then have "chain H (rev xs)"
      unfolding H_def by (subst chain_flip_rev) simp_all
    moreover have "last xs \<notin> set (tl (rev xs))" "hd xs \<notin> set (butlast (rev xs))"
      using False dlist_distinct [OF d] hd_notin_tl [of "rev xs"] last_notin_butlast [of "rev xs"]
      by (simp_all add: hd_rev last_rev)
    moreover have "l \<notin> set (butlast (rev xs))" "tail_of l \<notin> set (tl (rev xs))"
      using mem set_tl_subset [of "rev xs"] in_set_butlastD [of l "rev xs"] by auto
    ultimately have "chain h' (rev xs)"
      by (simp add: h'_def H1_def chain_upd_next chain_upd_prev del: successively_rev)
    then have "seg h' l (rev xs) (tail_of l)"
      using False mem neq
      by (simp add: seg_chain successively_Cons successively_append_iff hd_append hd_rev last_rev link_def
          h'_def H1_def del: successively_rev)
    moreover have "le_prev (h' l) = NULL" "le_next (h' (tail_of l)) = NULL"
      using d mem neq by (simp_all add: h'_def H1_def H_def dlist_def)
    ultimately show ?thesis
      using d by (simp add: dlist_def distinct_nodes)
  qed
  moreover have "h' a = h a" if "a \<notin> set (nodes l xs)" for a
  proof -
    have "a \<noteq> l" "a \<noteq> tail_of l" "a \<noteq> hd xs" "a \<noteq> last xs" "a \<notin> set xs"
      using that inx by auto
    then show ?thesis
      by (simp add: h'_def H1_def H_def upd_other flip_links_def)
  qed
  ultimately show ?thesis
    using that by blast
qed


section \<open>Properties\<close>

text \<open>C14. Inserting a fresh element before any position of a list (an interior element or the tail) succeeds
  and yields the list with the element at that position; removing it again returns the element that followed
  it and restores the sequence; every other list is left as it was.\<close>

theorem list_insert_remove_correct:
  assumes "dlist h l (xs @ ys)" and "e \<notin> set (nodes l (xs @ ys))" and "e \<noteq> NULL"
  shows "\<exists>h1 h2. list_insert h (cur l ys) e = Some h1 \<and> dlist h1 l (xs @ e # ys)
      \<and> list_remove h1 e = Some (h2, cur l ys) \<and> dlist h2 l (xs @ ys)
      \<and> (\<forall>m zs. dlist h m zs \<longrightarrow> set (nodes m zs) \<inter> set (nodes l (xs @ e # ys)) = {}
           \<longrightarrow> dlist h1 m zs \<and> dlist h2 m zs)"
proof -
  obtain h1 where h1: "list_insert h (cur l ys) e = Some h1" "dlist h1 l (xs @ e # ys)"
      "\<And>a. a \<notin> set (nodes l (xs @ e # ys)) \<Longrightarrow> h1 a = h a"
    using list_insert_dlist [OF assms] by blast
  obtain h2 where h2: "list_remove h1 e = Some (h2, cur l ys)" "dlist h2 l (xs @ ys)"
      "\<And>a. a \<notin> set (nodes l (xs @ ys)) \<Longrightarrow> h2 a = h1 a"
    using list_remove_dlist [OF h1(2)] by blast
  have "dlist h1 m zs \<and> dlist h2 m zs"
    if "dlist h m zs" "set (nodes m zs) \<inter> set (nodes l (xs @ e # ys)) = {}" for m zs
  proof
    show m1: "dlist h1 m zs"
      by (rule dlist_frame [OF that(1)], rule h1(3)) (use that(2) in blast)
    show "dlist h2 m zs"
      by (rule dlist_frame [OF m1], rule h2(3)) (use that(2) in auto)
  qed
  with h1 h2 show ?thesis by blast
qed

text \<open>C12. \<^verbatim>\<open>list_splice\<close> moves a non-empty range out of one list and into another, before any position,
  keeping the order of the range and of both lists, and writes to no other node.\<close>

theorem list_splice_correct:
  assumes "dlist h l (xs @ ys)" and "dlist h m (us @ zs @ vs)" and "zs \<noteq> []"
    and "set (nodes l (xs @ ys)) \<inter> set (nodes m (us @ zs @ vs)) = {}"
  shows "\<exists>h'. list_splice h (cur l ys) (hd zs) (cur m vs) = Some h'
      \<and> dlist h' l (xs @ zs @ ys) \<and> dlist h' m (us @ vs)
      \<and> (\<forall>a. a \<notin> set (nodes l (xs @ ys)) \<union> set (nodes m (us @ zs @ vs)) \<longrightarrow> h' a = h a)"
  using list_splice_other_dlist [OF assms] by blast

text \<open>C26. \<^verbatim>\<open>list_reverse\<close> ends and leaves the list with the reversed sequence, writing to no node outside it.\<close>

theorem list_reverse_correct:
  assumes "dlist h l xs"
  shows "\<exists>h'. list_reverse h l = Some h' \<and> dlist h' l (rev xs)
      \<and> (\<forall>a. a \<notin> set (nodes l xs) \<longrightarrow> h' a = h a)"
  using list_reverse_dlist [OF assms] by blast

text \<open>The kernel's lists are queues: \<^verbatim>\<open>list_push_back\<close> and \<^verbatim>\<open>list_pop_front\<close> on one list.\<close>

interpretation lq: fifo_queue "\<lambda>h e. list_push_back h l e" "\<lambda>h. list_pop_front h l" "\<lambda>h xs. dlist h l xs"
    "\<lambda>xs e. e \<notin> set (nodes l xs) \<and> e \<noteq> NULL" for l
proof
  fix h :: lheap and xs :: "addr list" and e :: addr
  assume "dlist h l xs" and "e \<notin> set (nodes l xs) \<and> e \<noteq> NULL"
  then show "\<exists>h'. list_push_back h l e = Some h' \<and> dlist h' l (xs @ [e])"
    using list_push_back_dlist [of h l xs e] by blast
next
  fix h :: lheap and x :: addr and xs :: "addr list"
  assume "dlist h l (x # xs)"
  then show "\<exists>h'. list_pop_front h l = Some (h', x) \<and> dlist h' l xs"
    using list_pop_front_dlist [of h l x xs] by blast
qed

text \<open>C22. Elements pushed at the back of a list are popped from the front in the order they were pushed,
  after those already there; this is what the run queue and the semaphore wait lists rely on.\<close>

theorem list_fifo:
  assumes "dlist h l xs" and "distinct (nodes l (xs @ ys))" and "NULL \<notin> set ys"
  shows "\<exists>h1 h2. enq_all (\<lambda>h e. list_push_back h l e) h ys = Some h1
      \<and> deq_many (\<lambda>h. list_pop_front h l) h1 (length xs + length ys) = Some (h2, xs @ ys) \<and> dlist h2 l []"
  by (rule lq.first_in_first_out [OF assms(1)]) (use assms(2,3) in \<open>auto simp: distinct_nodes\<close>)

section \<open>Concrete instances\<close>

text \<open>Lists at 100 (elements 300, 200, 400) and at 600 (elements 700, 800).\<close>

definition ex_heap :: lheap where
  "ex_heap = (\<lambda>_. \<lparr>le_prev = 0, le_next = 0\<rparr>)
     (100 := \<lparr>le_prev = 0, le_next = 300\<rparr>, 300 := \<lparr>le_prev = 100, le_next = 200\<rparr>,
      200 := \<lparr>le_prev = 300, le_next = 400\<rparr>, 400 := \<lparr>le_prev = 200, le_next = 108\<rparr>,
      108 := \<lparr>le_prev = 400, le_next = 0\<rparr>,
      600 := \<lparr>le_prev = 0, le_next = 700\<rparr>, 700 := \<lparr>le_prev = 600, le_next = 800\<rparr>,
      800 := \<lparr>le_prev = 700, le_next = 608\<rparr>, 608 := \<lparr>le_prev = 800, le_next = 0\<rparr>)"

lemma ex_heap_dlist: "dlist ex_heap 100 [300, 200, 400]"
  by (simp add: dlist_def ex_heap_def nodes_def tail_of_def)

lemma ex_heap_dlist2: "dlist ex_heap 600 [700, 800]"
  by (simp add: dlist_def ex_heap_def nodes_def tail_of_def)

theorem list_insert_remove_correct_witness:
  "\<exists>h1 h2. list_insert ex_heap (cur 100 [200, 400]) 500 = Some h1 \<and> dlist h1 100 ([300] @ 500 # [200, 400])
      \<and> list_remove h1 500 = Some (h2, cur 100 [200, 400]) \<and> dlist h2 100 ([300] @ [200, 400])
      \<and> (\<forall>m zs. dlist ex_heap m zs \<longrightarrow> set (nodes m zs) \<inter> set (nodes 100 ([300] @ 500 # [200, 400])) = {}
           \<longrightarrow> dlist h1 m zs \<and> dlist h2 m zs)"
  by (rule list_insert_remove_correct) (simp_all add: ex_heap_dlist tail_of_def)

theorem list_splice_correct_witness:
  "\<exists>h'. list_splice ex_heap (cur 100 [200, 400]) (hd [800]) (cur 600 []) = Some h'
      \<and> dlist h' 100 ([300] @ [800] @ [200, 400]) \<and> dlist h' 600 ([700] @ [])
      \<and> (\<forall>a. a \<notin> set (nodes 100 ([300] @ [200, 400])) \<union> set (nodes 600 ([700] @ [800] @ [])) \<longrightarrow> h' a = ex_heap a)"
  by (rule list_splice_correct) (simp_all add: ex_heap_dlist ex_heap_dlist2 tail_of_def)

theorem list_reverse_correct_witness:
  "\<exists>h'. list_reverse ex_heap 100 = Some h' \<and> dlist h' 100 (rev [300, 200, 400])
      \<and> (\<forall>a. a \<notin> set (nodes 100 [300, 200, 400]) \<longrightarrow> h' a = ex_heap a)"
  by (rule list_reverse_correct) (rule ex_heap_dlist)

theorem list_fifo_witness:
  "\<exists>h1 h2. enq_all (\<lambda>h e. list_push_back h 100 e) ex_heap [500, 900] = Some h1
      \<and> deq_many (\<lambda>h. list_pop_front h 100) h1 (length [300, 200, 400 :: addr] + length [500, 900 :: addr])
          = Some (h2, [300, 200, 400] @ [500, 900]) \<and> dlist h2 100 []"
  by (rule list_fifo) (simp_all add: ex_heap_dlist distinct_nodes tail_of_def)

end
