(* ===== verification/DList_Sort.thy ===== *)
theory DList_Sort
  imports DList "HOL-Library.Multiset"
begin

text \<open>
  The ordered-list operations of \<^verbatim>\<open>src/src/lib/kernel/list.c\<close>: the natural merge sort
  \<^verbatim>\<open>list_sort\<close> with its helpers, ordered insertion, duplicate removal, maximum and minimum.
\<close>

section \<open>Sorting\<close>

partial_function (option) is_sorted_loop :: "lheap \<Rightarrow> addr \<Rightarrow> addr \<Rightarrow> less_func \<Rightarrow> bool option" where
  "is_sorted_loop h a b lt = do {
     a \<leftarrow> list_next h a;
     if a = b then Some True
     else do {
       p \<leftarrow> list_prev h a;
       if lt a p then Some False else is_sorted_loop h a b lt
     }
   }"

definition is_sorted :: "lheap \<Rightarrow> addr \<Rightarrow> addr \<Rightarrow> less_func \<Rightarrow> bool option" where
  "is_sorted h a b lt = (if a \<noteq> b then is_sorted_loop h a b lt else Some True)"

text \<open>The \<^verbatim>\<open>do ... while\<close> of \<^verbatim>\<open>find_end_of_run\<close>; the second conjunct of its condition is
  evaluated only when the first holds.\<close>

partial_function (option) run_loop :: "lheap \<Rightarrow> addr \<Rightarrow> addr \<Rightarrow> less_func \<Rightarrow> addr option" where
  "run_loop h a b lt = do {
     a \<leftarrow> list_next h a;
     if a = b then Some a
     else do {
       p \<leftarrow> list_prev h a;
       if \<not> lt a p then run_loop h a b lt else Some a
     }
   }"

definition find_end_of_run :: "lheap \<Rightarrow> addr \<Rightarrow> addr \<Rightarrow> less_func \<Rightarrow> addr option" where
  "find_end_of_run h a b lt = do {
     ASSERT (a \<noteq> NULL);
     ASSERT (b \<noteq> NULL);
     ASSERT (a \<noteq> b);
     run_loop h a b lt
   }"

partial_function (option) merge_loop ::
    "lheap \<Rightarrow> addr \<Rightarrow> addr \<Rightarrow> addr \<Rightarrow> less_func \<Rightarrow> lheap option" where
  "merge_loop h a0 a1b0 b1 lt =
     (if a0 \<noteq> a1b0 \<and> a1b0 \<noteq> b1 then
        if \<not> lt a1b0 a0 then do {
          a0 \<leftarrow> list_next h a0;
          merge_loop h a0 a1b0 b1 lt
        }
        else do {
          a1b0 \<leftarrow> list_next h a1b0;
          p \<leftarrow> list_prev h a1b0;
          h \<leftarrow> list_splice h a0 p a1b0;
          merge_loop h a0 a1b0 b1 lt
        }
      else Some h)"

definition inplace_merge :: "lheap \<Rightarrow> addr \<Rightarrow> addr \<Rightarrow> addr \<Rightarrow> less_func \<Rightarrow> lheap option" where
  "inplace_merge h a0 a1b0 b1 lt = do {
     ASSERT (a0 \<noteq> NULL);
     ASSERT (a1b0 \<noteq> NULL);
     ASSERT (b1 \<noteq> NULL);
     sa \<leftarrow> is_sorted h a0 a1b0 lt;
     ASSERT sa;
     sb \<leftarrow> is_sorted h a1b0 b1 lt;
     ASSERT sb;
     merge_loop h a0 a1b0 b1 lt
   }"

text \<open>One pass of \<^verbatim>\<open>list_sort\<close>: the inner \<^verbatim>\<open>for\<close> loop, from \<open>a0\<close>, with the run counter.\<close>

partial_function (option) sort_pass ::
    "lheap \<Rightarrow> addr \<Rightarrow> addr \<Rightarrow> 32 word \<Rightarrow> less_func \<Rightarrow> (lheap \<times> 32 word) option" where
  "sort_pass h l a0 cnt lt = do {
     end \<leftarrow> list_end l;
     if a0 = end then Some (h, cnt)
     else do {
       a1b0 \<leftarrow> find_end_of_run h a0 end lt;
       if a1b0 = end then Some (h, cnt + 1)
       else do {
         b1 \<leftarrow> find_end_of_run h a1b0 end lt;
         h \<leftarrow> inplace_merge h a0 a1b0 b1 lt;
         sort_pass h l b1 (cnt + 1) lt
       }
     }
   }"

partial_function (option) sort_loop :: "lheap \<Rightarrow> addr \<Rightarrow> less_func \<Rightarrow> lheap option" where
  "sort_loop h l lt = do {
     a0 \<leftarrow> list_begin h l;
     (h, output_run_cnt) \<leftarrow> sort_pass h l a0 0 lt;
     if output_run_cnt > 1 then sort_loop h l lt else Some h
   }"

definition list_sort :: "lheap \<Rightarrow> addr \<Rightarrow> less_func \<Rightarrow> lheap option" where
  "list_sort h l lt = do {
     ASSERT (l \<noteq> NULL);
     h \<leftarrow> sort_loop h l lt;
     b \<leftarrow> list_begin h l;
     e \<leftarrow> list_end l;
     s \<leftarrow> is_sorted h b e lt;
     ASSERT s;
     Some h
   }"

partial_function (option) ordered_loop ::
    "lheap \<Rightarrow> addr \<Rightarrow> addr \<Rightarrow> addr \<Rightarrow> less_func \<Rightarrow> addr option" where
  "ordered_loop h l elem e lt = do {
     end \<leftarrow> list_end l;
     if e = end then Some e
     else if lt elem e then Some e
     else do { e \<leftarrow> list_next h e; ordered_loop h l elem e lt }
   }"

definition list_insert_ordered :: "lheap \<Rightarrow> addr \<Rightarrow> addr \<Rightarrow> less_func \<Rightarrow> lheap option" where
  "list_insert_ordered h l elem lt = do {
     ASSERT (l \<noteq> NULL);
     ASSERT (elem \<noteq> NULL);
     e \<leftarrow> list_begin h l;
     e \<leftarrow> ordered_loop h l elem e lt;
     list_insert h e elem
   }"

partial_function (option) unique_loop ::
    "lheap \<Rightarrow> addr \<Rightarrow> addr \<Rightarrow> addr \<Rightarrow> less_func \<Rightarrow> lheap option" where
  "unique_loop h l duplicates elem lt = do {
     nxt \<leftarrow> list_next h elem;
     end \<leftarrow> list_end l;
     if nxt = end then Some h
     else if \<not> lt elem nxt \<and> \<not> lt nxt elem then do {
       (h, n) \<leftarrow> list_remove h nxt;
       h \<leftarrow> (if duplicates \<noteq> NULL then list_push_back h duplicates nxt else Some h);
       unique_loop h l duplicates elem lt
     }
     else unique_loop h l duplicates nxt lt
   }"

definition list_unique :: "lheap \<Rightarrow> addr \<Rightarrow> addr \<Rightarrow> less_func \<Rightarrow> lheap option" where
  "list_unique h l duplicates lt = do {
     ASSERT (l \<noteq> NULL);
     emp \<leftarrow> list_empty h l;
     if emp then Some h
     else do { elem \<leftarrow> list_begin h l; unique_loop h l duplicates elem lt }
   }"

partial_function (option) max_loop ::
    "lheap \<Rightarrow> addr \<Rightarrow> addr \<Rightarrow> addr \<Rightarrow> less_func \<Rightarrow> addr option" where
  "max_loop h l e mx lt = do {
     end \<leftarrow> list_end l;
     if e = end then Some mx
     else do {
       let mx = (if lt mx e then e else mx);
       e \<leftarrow> list_next h e;
       max_loop h l e mx lt
     }
   }"

definition list_max :: "lheap \<Rightarrow> addr \<Rightarrow> less_func \<Rightarrow> addr option" where
  "list_max h l lt = do {
     mx \<leftarrow> list_begin h l;
     end \<leftarrow> list_end l;
     if mx \<noteq> end then do { e \<leftarrow> list_next h mx; max_loop h l e mx lt } else Some mx
   }"

partial_function (option) min_loop ::
    "lheap \<Rightarrow> addr \<Rightarrow> addr \<Rightarrow> addr \<Rightarrow> less_func \<Rightarrow> addr option" where
  "min_loop h l e mn lt = do {
     end \<leftarrow> list_end l;
     if e = end then Some mn
     else do {
       let mn = (if lt e mn then e else mn);
       e \<leftarrow> list_next h e;
       min_loop h l e mn lt
     }
   }"

definition list_min :: "lheap \<Rightarrow> addr \<Rightarrow> less_func \<Rightarrow> addr option" where
  "list_min h l lt = do {
     mn \<leftarrow> list_begin h l;
     end \<leftarrow> list_end l;
     if mn \<noteq> end then do { e \<leftarrow> list_next h mn; min_loop h l e mn lt } else Some mn
   }"


section \<open>The sort as a function on lists\<close>

text \<open>What \<^verbatim>\<open>inplace_merge\<close>, \<^verbatim>\<open>find_end_of_run\<close> and one pass of \<^verbatim>\<open>list_sort\<close> do to the sequence.\<close>

fun imerge :: "('a \<Rightarrow> 'a \<Rightarrow> bool) \<Rightarrow> 'a list \<Rightarrow> 'a list \<Rightarrow> 'a list" where
  "imerge lt [] bs = bs"
| "imerge lt as [] = as"
| "imerge lt (a # as) (b # bs) =
     (if \<not> lt b a then a # imerge lt as (b # bs) else b # imerge lt (a # as) bs)"

fun split_run :: "('a \<Rightarrow> 'a \<Rightarrow> bool) \<Rightarrow> 'a \<Rightarrow> 'a list \<Rightarrow> 'a list \<times> 'a list" where
  "split_run lt x [] = ([x], [])"
| "split_run lt x (y # ys) =
     (if \<not> lt y x then (case split_run lt y ys of (r, s) \<Rightarrow> (x # r, s)) else ([x], y # ys))"

lemma split_run_append: "split_run lt x ys = (r, s) \<Longrightarrow> r @ s = x # ys"
  by (induction lt x ys arbitrary: r s rule: split_run.induct) (auto split: if_splits prod.splits)

lemma split_run_ne: "split_run lt x ys = (r, s) \<Longrightarrow> \<exists>r'. r = x # r'"
  by (cases ys) (auto split: if_splits prod.splits)

lemma split_run_length: "split_run lt x ys = (r, s) \<Longrightarrow> length s \<le> length ys"
  using split_run_append [of lt x ys r s] split_run_ne [of lt x ys r s] by (auto dest: arg_cong [of _ _ length])

function pass :: "('a \<Rightarrow> 'a \<Rightarrow> bool) \<Rightarrow> 'a list \<Rightarrow> 'a list \<times> nat" where
  "pass lt [] = ([], 0)"
| "pass lt (x # xs) =
     (case split_run lt x xs of
        (r1, []) \<Rightarrow> (r1, 1)
      | (r1, y # ys) \<Rightarrow>
          (case split_run lt y ys of (r2, s2) \<Rightarrow>
             (case pass lt s2 of (out, n) \<Rightarrow> (imerge lt r1 r2 @ out, Suc n))))"
  by pat_completeness auto
termination
  by (relation "measure (\<lambda>(lt, xs). length xs)")
    (auto dest!: split_run_length [OF sym])

subsection \<open>The abstract sort is correct\<close>

abbreviation adj_sorted :: "('a \<Rightarrow> 'a \<Rightarrow> bool) \<Rightarrow> 'a list \<Rightarrow> bool" where
  "adj_sorted lt \<equiv> successively (\<lambda>x y. \<not> lt y x)"

text \<open>A comparison callback that is a strict weak order on the elements it is used on.\<close>

definition strict_weak_order :: "('a \<Rightarrow> 'a \<Rightarrow> bool) \<Rightarrow> 'a set \<Rightarrow> bool" where
  "strict_weak_order lt A \<longleftrightarrow> (\<forall>x\<in>A. \<forall>y\<in>A. lt x y \<longrightarrow> \<not> lt y x)
     \<and> (\<forall>x\<in>A. \<forall>y\<in>A. \<forall>z\<in>A. \<not> lt x y \<longrightarrow> \<not> lt y z \<longrightarrow> \<not> lt x z)"

lemma strict_weak_order_subset: "strict_weak_order lt A \<Longrightarrow> B \<subseteq> A \<Longrightarrow> strict_weak_order lt B"
  unfolding strict_weak_order_def by blast

lemma swo_asym: "strict_weak_order lt A \<Longrightarrow> x \<in> A \<Longrightarrow> y \<in> A \<Longrightarrow> lt x y \<Longrightarrow> \<not> lt y x"
  unfolding strict_weak_order_def by blast

lemma swo_trans: "strict_weak_order lt A \<Longrightarrow> x \<in> A \<Longrightarrow> y \<in> A \<Longrightarrow> z \<in> A \<Longrightarrow> \<not> lt x y \<Longrightarrow> \<not> lt y z \<Longrightarrow> \<not> lt x z"
  unfolding strict_weak_order_def by blast

lemma adj_sorted_sorted_wrt:
  assumes "strict_weak_order lt (set xs)"
  shows "adj_sorted lt xs \<longleftrightarrow> sorted_wrt (\<lambda>x y. \<not> lt y x) xs"
  by (rule successively_iff_sorted_wrt_strong) (use assms in \<open>unfold strict_weak_order_def, blast\<close>)

lemma mset_imerge [simp]: "mset (imerge lt as bs) = mset as + mset bs"
  by (induction lt as bs rule: imerge.induct) auto

lemma set_imerge [simp]: "set (imerge lt as bs) = set as \<union> set bs"
  by (metis mset_imerge set_mset_mset set_mset_union)

lemma imerge_ne [simp]: "imerge lt as bs = [] \<longleftrightarrow> as = [] \<and> bs = []"
  by (metis mset_imerge mset_zero_iff union_eq_empty)

lemma adj_sorted_imerge:
  "strict_weak_order lt (set as \<union> set bs) \<Longrightarrow> adj_sorted lt as \<Longrightarrow> adj_sorted lt bs
     \<Longrightarrow> adj_sorted lt (imerge lt as bs)"
proof (induction lt as bs rule: imerge.induct)
  case (3 lt a as b bs)
  show ?case
  proof (cases "lt b a")
    case False
    have "strict_weak_order lt (set as \<union> set (b # bs))"
      using 3(3) by (rule strict_weak_order_subset) auto
    then have "adj_sorted lt (imerge lt as (b # bs))"
      using 3 False by (auto simp: successively_Cons)
    moreover have "\<not> lt (hd (imerge lt as (b # bs))) a"
      using False 3(4) by (cases as) (auto simp: successively_Cons)
    ultimately show ?thesis
      using False by (auto simp: successively_Cons)
  next
    case True
    have "strict_weak_order lt (set (a # as) \<union> set bs)"
      using 3(3) by (rule strict_weak_order_subset) auto
    then have "adj_sorted lt (imerge lt (a # as) bs)"
      using 3 True by (auto simp: successively_Cons)
    moreover have "\<not> lt a b"
      using swo_asym [OF 3(3), of b a] True by auto
    then have "\<not> lt (hd (imerge lt (a # as) bs)) b"
      using 3(5) by (cases bs) (auto simp: successively_Cons)
    ultimately show ?thesis
      using True by (auto simp: successively_Cons)
  qed
qed auto

lemma adj_sorted_run: "split_run lt x ys = (r, s) \<Longrightarrow> adj_sorted lt r"
  by (induction lt x ys arbitrary: r s rule: split_run.induct)
    (auto split: if_splits prod.splits simp: successively_Cons dest: split_run_ne)

text \<open>Number of maximal runs.\<close>

fun nruns :: "('a \<Rightarrow> 'a \<Rightarrow> bool) \<Rightarrow> 'a list \<Rightarrow> nat" where
  "nruns lt [] = 0"
| "nruns lt [x] = 1"
| "nruns lt (x # y # ys) = (if lt y x then Suc (nruns lt (y # ys)) else nruns lt (y # ys))"

lemma nruns_pos: "xs \<noteq> [] \<Longrightarrow> 0 < nruns lt xs"
  by (induction lt xs rule: nruns.induct) auto

lemma nruns_append: "nruns lt (xs @ ys) \<le> nruns lt xs + nruns lt ys"
  by (induction lt xs rule: nruns.induct) (cases ys; auto)+

lemma nruns_sorted: "adj_sorted lt xs \<Longrightarrow> nruns lt xs \<le> 1"
  by (induction lt xs rule: nruns.induct) auto

lemma nruns_sorted_iff: "nruns lt xs \<le> 1 \<longleftrightarrow> adj_sorted lt xs"
proof (induction lt xs rule: nruns.induct)
  case (3 lt x y ys)
  then show ?case using nruns_pos [of "y # ys" lt] by auto
qed auto

lemma nruns_le_length: "nruns lt xs \<le> length xs"
  by (induction lt xs rule: nruns.induct) auto

lemma nruns_split: "split_run lt x ys = (r, s) \<Longrightarrow> nruns lt (x # ys) = Suc (nruns lt s)"
  by (induction lt x ys arbitrary: r s rule: split_run.induct) (auto split: if_splits prod.splits)

lemma pass_props:
  assumes "strict_weak_order lt (set xs)" and "pass lt xs = (ys, n)"
  shows "mset ys = mset xs \<and> nruns lt ys \<le> n \<and> n = (nruns lt xs + 1) div 2"
  using assms
proof (induction lt xs arbitrary: ys n rule: pass.induct)
  case (1 lt)
  then show ?case by simp
next
  case (2 lt x xs)
  obtain r1 s1 where r1: "split_run lt x xs = (r1, s1)" by fastforce
  note app1 = split_run_append [OF r1] and nr1 = nruns_split [OF r1] and so1 = adj_sorted_run [OF r1]
  show ?case
  proof (cases s1)
    case Nil
    then show ?thesis
      using 2(3) r1 app1 nr1 nruns_sorted [OF so1] by simp
  next
    case (Cons y s)
    obtain r2 s2 where r2: "split_run lt y s = (r2, s2)" by fastforce
    obtain out k where p: "pass lt s2 = (out, k)" by fastforce
    note app2 = split_run_append [OF r2] and nr2 = nruns_split [OF r2] and so2 = adj_sorted_run [OF r2]
    have eq: "x # xs = r1 @ r2 @ s2"
      using app1 app2 Cons by simp
    have sub: "strict_weak_order lt (set s2)" "strict_weak_order lt (set r1 \<union> set r2)"
      using 2(2) unfolding eq by (auto elim: strict_weak_order_subset)
    from 2(1) [OF _ Cons _ _ p] r1 r2 sub(1) p
    have IH: "mset out = mset s2" "nruns lt out \<le> k" "k = (nruns lt s2 + 1) div 2"
      by (auto simp: Cons)
    have ys: "ys = imerge lt r1 r2 @ out" "n = Suc k"
      using 2(3) r1 r2 p Cons by auto
    have "nruns lt ys \<le> 1 + k"
      using nruns_append [of lt "imerge lt r1 r2" out] nruns_sorted [OF adj_sorted_imerge [OF sub(2) so1 so2]] IH ys
      by simp
    moreover have "nruns lt (x # xs) = Suc (Suc (nruns lt s2))"
      using nr1 nr2 Cons by simp
    ultimately show ?thesis
      using IH ys unfolding eq by simp
  qed
qed


text \<open>Stability: elements that the callback does not distinguish keep their order.\<close>

definition equiv_to :: "('a \<Rightarrow> 'a \<Rightarrow> bool) \<Rightarrow> 'a \<Rightarrow> 'a \<Rightarrow> bool" where
  "equiv_to lt k x \<longleftrightarrow> \<not> lt k x \<and> \<not> lt x k"

lemma imerge_filter:
  assumes "strict_weak_order lt (insert k (set as \<union> set bs))" and "adj_sorted lt as"
  shows "filter (equiv_to lt k) (imerge lt as bs) = filter (equiv_to lt k) (as @ bs)"
  using assms
proof (induction lt as bs rule: imerge.induct)
  case (3 lt a as b bs)
  note swo = 3(3)
  show ?case
  proof (cases "lt b a")
    case False
    have "strict_weak_order lt (insert k (set as \<union> set (b # bs)))"
      using swo by (rule strict_weak_order_subset) auto
    then show ?thesis
      using 3(1) 3(4) False by (auto simp: successively_Cons)
  next
    case True
    have sub: "strict_weak_order lt (insert k (set (a # as) \<union> set bs))"
      using swo by (rule strict_weak_order_subset) auto
    have "filter (equiv_to lt k) (a # as) = []" if b: "equiv_to lt k b"
    proof -
      have "sorted_wrt (\<lambda>x y. \<not> lt y x) (a # as)"
        using adj_sorted_sorted_wrt [of lt "a # as"] strict_weak_order_subset [OF swo] 3(4) by auto
      then have ge: "\<not> lt x a" if "x \<in> set (a # as)" for x
        using that swo_asym [OF swo, of a a] by auto
      have "\<not> equiv_to lt k x" if x: "x \<in> set (a # as)" for x
      proof
        assume "equiv_to lt k x"
        then have "\<not> lt b x"
          using b x swo_trans [OF swo, of b k x] by (auto simp: equiv_to_def)
        then have "\<not> lt b a"
          using ge [OF x] x swo_trans [OF swo, of b x a] by auto
        with True show False by simp
      qed
      then show ?thesis
        by (simp add: filter_empty_conv)
    qed
    then have "filter (equiv_to lt k) (b # (a # as) @ bs) = filter (equiv_to lt k) ((a # as) @ b # bs)"
      by (cases "equiv_to lt k b") auto
    moreover have "filter (equiv_to lt k) (imerge lt (a # as) bs) = filter (equiv_to lt k) ((a # as) @ bs)"
      using 3(2) 3(4) True sub by simp
    then have "filter (equiv_to lt k) (b # imerge lt (a # as) bs) = filter (equiv_to lt k) (b # (a # as) @ bs)"
      by (simp only: filter.simps)
    ultimately show ?thesis
      using True by simp
  qed
qed auto

lemma pass_filter:
  assumes "strict_weak_order lt (insert k (set xs))" and "pass lt xs = (ys, n)"
  shows "filter (equiv_to lt k) ys = filter (equiv_to lt k) xs"
  using assms
proof (induction lt xs arbitrary: ys n rule: pass.induct)
  case (1 lt)
  then show ?case by simp
next
  case (2 lt x xs)
  obtain r1 s1 where r1: "split_run lt x xs = (r1, s1)" by fastforce
  note app1 = split_run_append [OF r1] and so1 = adj_sorted_run [OF r1]
  show ?case
  proof (cases s1)
    case Nil
    then show ?thesis
      using 2(3) r1 app1 by simp
  next
    case (Cons y s)
    obtain r2 s2 where r2: "split_run lt y s = (r2, s2)" by fastforce
    obtain out m where p: "pass lt s2 = (out, m)" by fastforce
    have eq: "x # xs = r1 @ r2 @ s2"
      using app1 split_run_append [OF r2] Cons by simp
    have sub: "strict_weak_order lt (insert k (set s2))" "strict_weak_order lt (insert k (set r1 \<union> set r2))"
      using 2(2) unfolding eq by (auto elim: strict_weak_order_subset)
    from 2(1) [OF _ Cons _ _ p] r1 r2 sub(1) p
    have IH: "filter (equiv_to lt k) out = filter (equiv_to lt k) s2"
      by (auto simp: Cons)
    have ys: "ys = imerge lt r1 r2 @ out"
      using 2(3) r1 r2 p Cons by auto
    show ?thesis
      using IH imerge_filter [OF sub(2) so1] unfolding ys eq by simp
  qed
qed

section \<open>The pointer code refines it\<close>

lemma is_sorted_loop_dlist:
  "dlist h l (xs @ y # ys @ zs) \<Longrightarrow>
     is_sorted_loop h y (cur l zs) lt = Some (adj_sorted lt (y # ys))"
proof (induction ys arbitrary: xs y)
  case Nil
  then show ?case
    using list_next_dlist [of h l xs y zs] by (subst is_sorted_loop.simps) simp
next
  case (Cons z ys)
  have "z \<noteq> cur l zs"
    using dlist_distinct [OF Cons.prems] by (cases zs) auto
  moreover have "list_next h y = Some z"
    using list_next_dlist [of h l xs y "z # ys @ zs"] Cons.prems by simp
  moreover have "list_prev h z = Some y"
    using list_prev_dlist [of h l "xs @ [y]" "z # ys @ zs"] Cons.prems by simp
  moreover have "is_sorted_loop h z (cur l zs) lt = Some (adj_sorted lt (z # ys))"
    using Cons.IH [of "xs @ [y]" z] Cons.prems by simp
  ultimately show ?case
    by (subst is_sorted_loop.simps) simp
qed

lemma is_sorted_dlist:
  assumes "dlist h l (xs @ ys @ zs)"
  shows "is_sorted h (cur l (ys @ zs)) (cur l zs) lt = Some (adj_sorted lt ys)"
proof (cases ys)
  case Nil
  then show ?thesis by (simp add: is_sorted_def)
next
  case (Cons y ys')
  have "y \<noteq> cur l zs"
    using dlist_distinct [OF assms] Cons by (cases zs) auto
  then show ?thesis
    using is_sorted_loop_dlist [of h l xs y ys' zs lt] assms Cons by (simp add: is_sorted_def)
qed

lemma run_loop_dlist:
  "dlist h l (xs @ y # ys) \<Longrightarrow> run_loop h y (tail_of l) lt = Some (cur l (snd (split_run lt y ys)))"
proof (induction ys arbitrary: xs y)
  case Nil
  then show ?case
    using list_next_dlist [of h l xs y "[]"] by (subst run_loop.simps) simp
next
  case (Cons z ys)
  have "z \<noteq> tail_of l"
    using dlist_distinct [OF Cons.prems] by auto
  moreover have "list_next h y = Some z"
    using list_next_dlist [of h l xs y "z # ys"] Cons.prems by simp
  moreover have "list_prev h z = Some y"
    using list_prev_dlist [of h l "xs @ [y]" "z # ys"] Cons.prems by simp
  moreover have "run_loop h z (tail_of l) lt = Some (cur l (snd (split_run lt z ys)))"
    using Cons.IH [of "xs @ [y]" z] Cons.prems by simp
  ultimately show ?case
    by (subst run_loop.simps) (simp split: prod.splits)
qed

lemma find_end_of_run_dlist:
  assumes "dlist h l (xs @ y # ys)"
  shows "find_end_of_run h y (tail_of l) lt = Some (cur l (snd (split_run lt y ys)))"
  using run_loop_dlist [OF assms] dlist_notNULL [OF assms] dlist_distinct [OF assms]
  by (auto simp: find_end_of_run_def)

lemma merge_loop_dlist:
  assumes "dlist h l (ps @ as @ bs @ qs)"
  shows "\<exists>h'. merge_loop h (cur l (as @ bs @ qs)) (cur l (bs @ qs)) (cur l qs) lt = Some h'
      \<and> dlist h' l (ps @ imerge lt as bs @ qs)
      \<and> (\<forall>a. a \<notin> set (nodes l (ps @ as @ bs @ qs)) \<longrightarrow> h' a = h a)"
  using assms
proof (induction lt as bs arbitrary: h ps rule: imerge.induct)
  case (1 lt bs)
  then show ?case by (subst merge_loop.simps) simp
next
  case (2 lt a as)
  then show ?case by (subst merge_loop.simps) simp
next
  case (3 lt a as b bs)
  note d = "3.prems"
  have neq: "a \<noteq> b" "b \<noteq> cur l qs"
    using dlist_distinct [OF d] by (auto, cases qs) auto
  show ?case
  proof (cases "lt b a")
    case False
    have nx: "list_next h a = Some (cur l (as @ b # bs @ qs))"
      using list_next_dlist [of h l ps a "as @ b # bs @ qs"] d by simp
    from 3(1) [OF False, of h "ps @ [a]"] d obtain h' where
      "merge_loop h (cur l (as @ b # bs @ qs)) b (cur l qs) lt = Some h'"
      "dlist h' l ((ps @ [a]) @ imerge lt as (b # bs) @ qs)"
      "\<forall>x. x \<notin> set (nodes l ((ps @ [a]) @ as @ (b # bs) @ qs)) \<longrightarrow> h' x = h x"
      by auto
    then show ?thesis
      using neq nx False by (subst merge_loop.simps) auto
  next
    case True
    have nx: "list_next h b = Some (cur l (bs @ qs))"
      using list_next_dlist [of h l "ps @ a # as" b "bs @ qs"] d by simp
    have pv: "list_prev h (cur l (bs @ qs)) = Some b"
      using list_prev_dlist [of h l "ps @ a # as @ [b]" "bs @ qs"] d by simp
    obtain h1 where h1: "list_splice h a b (cur l (bs @ qs)) = Some h1"
      "dlist h1 l (ps @ b # a # as @ bs @ qs)"
      "\<And>x. x \<notin> set (nodes l (ps @ a # as @ b # bs @ qs)) \<Longrightarrow> h1 x = h x"
      using list_splice_dlist [of h l ps "a # as" "[b]" "bs @ qs"] d by auto
    from 3(2) [of h1 "ps @ [b]"] True h1(2) obtain h' where
      "merge_loop h1 a (cur l (bs @ qs)) (cur l qs) lt = Some h'"
      "dlist h' l ((ps @ [b]) @ imerge lt (a # as) bs @ qs)"
      "\<forall>x. x \<notin> set (nodes l ((ps @ [b]) @ (a # as) @ bs @ qs)) \<longrightarrow> h' x = h1 x"
      by auto
    then show ?thesis
      using neq nx pv h1(1,3) True by (subst merge_loop.simps) auto
  qed
qed

lemma inplace_merge_dlist:
  assumes d: "dlist h l (ps @ as @ bs @ qs)" and "adj_sorted lt as" and "adj_sorted lt bs"
  obtains h' where "inplace_merge h (cur l (as @ bs @ qs)) (cur l (bs @ qs)) (cur l qs) lt = Some h'"
    and "dlist h' l (ps @ imerge lt as bs @ qs)"
    and "\<And>a. a \<notin> set (nodes l (ps @ as @ bs @ qs)) \<Longrightarrow> h' a = h a"
proof -
  have nn: "cur l (as @ bs @ qs) \<noteq> NULL" "cur l (bs @ qs) \<noteq> NULL" "cur l qs \<noteq> NULL"
    using cur_notNULL [of h l ps "as @ bs @ qs"] cur_notNULL [of h l "ps @ as" "bs @ qs"]
      cur_notNULL [of h l "ps @ as @ bs" qs] d by simp_all
  have so: "is_sorted h (cur l (as @ bs @ qs)) (cur l (bs @ qs)) lt = Some True"
      "is_sorted h (cur l (bs @ qs)) (cur l qs) lt = Some True"
    using is_sorted_dlist [of h l ps as "bs @ qs" lt] is_sorted_dlist [of h l "ps @ as" bs qs lt] assms
    by simp_all
  obtain h' where "merge_loop h (cur l (as @ bs @ qs)) (cur l (bs @ qs)) (cur l qs) lt = Some h'"
      "dlist h' l (ps @ imerge lt as bs @ qs)" "\<forall>a. a \<notin> set (nodes l (ps @ as @ bs @ qs)) \<longrightarrow> h' a = h a"
    using merge_loop_dlist [OF d] by blast
  then show ?thesis
    using that nn so by (simp add: inplace_merge_def)
qed

lemma sort_pass_dlist:
  assumes "dlist h l (ps @ xs)" and "pass lt xs = (ys, n)"
  shows "\<exists>h'. sort_pass h l (cur l xs) cnt lt = Some (h', cnt + of_nat n) \<and> dlist h' l (ps @ ys)
      \<and> (\<forall>a. a \<notin> set (nodes l (ps @ xs)) \<longrightarrow> h' a = h a)"
  using assms
proof (induction lt xs arbitrary: h ps ys n cnt rule: pass.induct)
  case (1 lt)
  then show ?case by (subst sort_pass.simps) simp
next
  case (2 lt x xs)
  note d = "2.prems"(1)
  obtain r1 s1 where r1: "split_run lt x xs = (r1, s1)" by fastforce
  have x: "x \<noteq> tail_of l"
    using dlist_distinct [OF d] by auto
  have f1: "find_end_of_run h x (tail_of l) lt = Some (cur l s1)"
    using find_end_of_run_dlist [OF d] r1 by simp
  show ?case
  proof (cases s1)
    case Nil
    then show ?thesis
      using "2.prems" x f1 r1 split_run_append [OF r1] by (subst sort_pass.simps) auto
  next
    case (Cons y s)
    obtain r2 s2 where r2: "split_run lt y s = (r2, s2)" by fastforce
    obtain out m where p: "pass lt s2 = (out, m)" by fastforce
    have eq: "x # xs = r1 @ r2 @ s2" and eqy: "r2 @ s2 = y # s"
      using split_run_append [OF r1] split_run_append [OF r2] Cons by simp_all
    have dr: "dlist h l (ps @ r1 @ r2 @ s2)" and dy: "dlist h l ((ps @ r1) @ y # s)"
      using d eqy unfolding eq by simp_all
    have "cur l (x # xs) = x"
      by simp
    then have cx: "cur l (r1 @ r2 @ s2) = x" "cur l (r2 @ s2) = y"
      using eqy unfolding eq by simp_all
    have y: "y \<noteq> tail_of l"
      using dlist_distinct [OF dy] by auto
    have f2: "find_end_of_run h y (tail_of l) lt = Some (cur l s2)"
      using find_end_of_run_dlist [OF dy] r2 by simp
    obtain h1 where h1: "inplace_merge h x y (cur l s2) lt = Some h1"
        "dlist h1 l (ps @ imerge lt r1 r2 @ s2)" "\<And>a. a \<notin> set (nodes l (ps @ r1 @ r2 @ s2)) \<Longrightarrow> h1 a = h a"
      using inplace_merge_dlist [OF dr adj_sorted_run [OF r1] adj_sorted_run [OF r2]] cx by metis
    from 2(1) [OF r1 [symmetric] Cons r2 [symmetric], where h = h1 and ps = "ps @ imerge lt r1 r2"
        and ys = out and n = m and cnt = "cnt + 1"] h1(2) p
    obtain h' where "sort_pass h1 l (cur l s2) (cnt + 1) lt = Some (h', cnt + 1 + of_nat m)"
      "dlist h' l ((ps @ imerge lt r1 r2) @ out)"
      "\<forall>a. a \<notin> set (nodes l ((ps @ imerge lt r1 r2) @ s2)) \<longrightarrow> h' a = h1 a"
      by auto
    moreover have "ys = imerge lt r1 r2 @ out" "n = Suc m"
      using "2.prems"(2) r1 r2 p Cons by auto
    moreover have "set (x # xs) = set r1 \<union> set r2 \<union> set s2"
      unfolding eq by auto
    ultimately show ?thesis
      using x y f1 f2 h1 Cons d by (subst sort_pass.simps) (auto simp: algebra_simps)
  qed
qed


text \<open>Element addresses are distinct 32-bit words, so the run counter cannot wrap.\<close>

lemma dlist_length: "dlist h l xs \<Longrightarrow> length xs < 2 ^ 32"
proof -
  assume d: "dlist h l xs"
  have "card (set xs) < card (UNIV :: 32 word set)"
    using dlist_notNULL [OF d] by (intro psubset_card_mono) auto
  then show ?thesis
    using distinct_card [of xs] dlist_distinct [OF d] by (simp add: card_word)
qed

lemma sort_loop_dlist:
  assumes "dlist h l xs" and "strict_weak_order lt (set xs)"
  shows "\<exists>h' ys. sort_loop h l lt = Some h' \<and> dlist h' l ys \<and> mset ys = mset xs \<and> adj_sorted lt ys
      \<and> (\<forall>k\<in>set xs. filter (equiv_to lt k) ys = filter (equiv_to lt k) xs)
      \<and> (\<forall>a. a \<notin> set (nodes l xs) \<longrightarrow> h' a = h a)"
  using assms
proof (induction "nruns lt xs" arbitrary: h xs rule: less_induct)
  case less
  note d = less.prems(1) and swo = less.prems(2)
  obtain ys n where p: "pass lt xs = (ys, n)" by fastforce
  note pp = pass_props [OF swo p]
  have pf: "filter (equiv_to lt k) ys = filter (equiv_to lt k) xs" if "k \<in> set xs" for k
    using that pass_filter [OF _ p, of k] swo by (simp add: insert_absorb)
  obtain h1 where h1: "sort_pass h l (cur l xs) 0 lt = Some (h1, of_nat n)" "dlist h1 l ys"
      "\<forall>a. a \<notin> set (nodes l xs) \<longrightarrow> h1 a = h a"
    using sort_pass_dlist [of h l "[]" xs lt ys n 0] d p by auto
  have sets: "set ys = set xs"
    using pp mset_eq_setD by blast
  have "n < 2 ^ 32"
    using pp nruns_le_length [of lt xs] dlist_length [OF d] by simp
  then have cmp: "(1 < (of_nat n :: 32 word)) = (1 < n)"
    by (simp add: word_less_nat_alt unat_of_nat)
  show ?case
  proof (cases "1 < n")
    case True
    then have "nruns lt ys < nruns lt xs"
      using pp by linarith
    from less.hyps [OF this h1(2)] swo sets obtain h2 zs where
      "sort_loop h1 l lt = Some h2" "dlist h2 l zs" "mset zs = mset ys" "adj_sorted lt zs"
      "\<forall>k\<in>set ys. filter (equiv_to lt k) zs = filter (equiv_to lt k) ys"
      "\<forall>a. a \<notin> set (nodes l ys) \<longrightarrow> h2 a = h1 a"
      by auto
    moreover from this have "sort_loop h l lt = Some h2"
      using d h1(1) cmp True by (subst sort_loop.simps) simp
    ultimately show ?thesis
      using pp pf sets h1(3) by auto
  next
    case False
    then have "sort_loop h l lt = Some h1"
      using d h1(1) cmp by (subst sort_loop.simps) simp
    moreover have "adj_sorted lt ys"
      using pp False nruns_sorted_iff [of lt ys] by simp
    ultimately show ?thesis
      using pp pf h1(2,3) by blast
  qed
qed

section \<open>Properties\<close>

text \<open>C1. \<^verbatim>\<open>list_sort\<close> ends without failing any of its assertions; afterwards the list holds a permutation
  of its elements in non-decreasing order, elements the callback does not distinguish keep their relative
  order, and no node outside the list is written.  The callback must be a strict weak order on the elements.\<close>

theorem list_sort_correct:
  assumes "dlist h l xs" and "strict_weak_order lt (set xs)"
  shows "\<exists>h' ys. list_sort h l lt = Some h' \<and> dlist h' l ys \<and> mset ys = mset xs
      \<and> sorted_wrt (\<lambda>x y. \<not> lt y x) ys
      \<and> (\<forall>k\<in>set xs. filter (equiv_to lt k) ys = filter (equiv_to lt k) xs)
      \<and> (\<forall>a. a \<notin> set (nodes l xs) \<longrightarrow> h' a = h a)"
proof -
  obtain h' ys where r: "sort_loop h l lt = Some h'" "dlist h' l ys" "mset ys = mset xs" "adj_sorted lt ys"
      "\<forall>k\<in>set xs. filter (equiv_to lt k) ys = filter (equiv_to lt k) xs"
      "\<forall>a. a \<notin> set (nodes l xs) \<longrightarrow> h' a = h a"
    using sort_loop_dlist [OF assms] by blast
  have "is_sorted h' (cur l ys) (tail_of l) lt = Some True"
    using is_sorted_dlist [of h' l "[]" ys "[]" lt] r by simp
  moreover have "sorted_wrt (\<lambda>x y. \<not> lt y x) ys"
    using adj_sorted_sorted_wrt [of lt ys] assms(2) r(3,4) mset_eq_setD [OF r(3)] by simp
  ultimately show ?thesis
    using r dlist_notNULL [OF assms(1)] by (auto simp: list_sort_def)
qed

section \<open>Ordered insertion, duplicates, extrema\<close>

lemma ordered_loop_dlist:
  "dlist h l (ps @ xs) \<Longrightarrow> ordered_loop h l e (cur l xs) lt = Some (cur l (dropWhile (\<lambda>x. \<not> lt e x) xs))"
proof (induction xs arbitrary: ps)
  case Nil
  then show ?case by (subst ordered_loop.simps) simp
next
  case (Cons x xs)
  have "x \<noteq> tail_of l"
    using dlist_distinct [OF Cons.prems] by auto
  moreover have "ordered_loop h l e (cur l xs) lt = Some (cur l (dropWhile (\<lambda>x. \<not> lt e x) xs))"
    using Cons.IH [of "ps @ [x]"] Cons.prems by simp
  ultimately show ?case
    using Cons.prems list_next_dlist [of h l ps x xs] by (subst ordered_loop.simps) simp
qed

lemma sorted_insert:
  assumes "strict_weak_order lt (insert e (set xs))" and "sorted_wrt (\<lambda>x y. \<not> lt y x) xs"
  shows "sorted_wrt (\<lambda>x y. \<not> lt y x) (takeWhile (\<lambda>x. \<not> lt e x) xs @ e # dropWhile (\<lambda>x. \<not> lt e x) xs)"
  using assms
proof (induction xs)
  case (Cons x xs)
  have sub: "strict_weak_order lt (insert e (set xs))"
    using Cons.prems(1) by (rule strict_weak_order_subset) auto
  show ?case
  proof (cases "lt e x")
    case True
    have "\<not> lt x e"
      using swo_asym [OF Cons.prems(1), of e x] True by auto
    then have "\<not> lt y e" if "y \<in> set xs" for y
      using swo_trans [OF Cons.prems(1), of y x e] that Cons.prems(2) by auto
    with \<open>\<not> lt x e\<close> True Cons.prems(2) show ?thesis by simp
  next
    case False
    have "set (takeWhile (\<lambda>x. \<not> lt e x) xs @ e # dropWhile (\<lambda>x. \<not> lt e x) xs) = insert e (set xs)"
      by (metis (no_types, lifting) list.set(2) set_append takeWhile_dropWhile_id Un_insert_right)
    then show ?thesis
      using Cons sub False by auto
  qed
qed simp

text \<open>C27. \<^verbatim>\<open>list_insert_ordered\<close> puts the element into a sorted list after every element that is not
  greater and before the first that is, so the list stays sorted.\<close>

theorem list_insert_ordered_correct:
  assumes "dlist h l xs" and "e \<notin> set (nodes l xs)" and "e \<noteq> NULL"
    and "strict_weak_order lt (insert e (set xs))" and "sorted_wrt (\<lambda>x y. \<not> lt y x) xs"
  shows "\<exists>h' ys zs. list_insert_ordered h l e lt = Some h' \<and> xs = ys @ zs \<and> dlist h' l (ys @ e # zs)
      \<and> sorted_wrt (\<lambda>x y. \<not> lt y x) (ys @ e # zs) \<and> (\<forall>y\<in>set ys. \<not> lt e y) \<and> (zs \<noteq> [] \<longrightarrow> lt e (hd zs))"
proof -
  let ?ys = "takeWhile (\<lambda>x. \<not> lt e x) xs" and ?zs = "dropWhile (\<lambda>x. \<not> lt e x) xs"
  have "dlist h l (?ys @ ?zs)" "e \<notin> set (nodes l (?ys @ ?zs))"
    using assms by simp_all
  then obtain h' where "list_insert h (cur l ?zs) e = Some h'" "dlist h' l (?ys @ e # ?zs)"
    using assms(3) by (blast elim: list_insert_dlist)
  then have "list_insert_ordered h l e lt = Some h' \<and> dlist h' l (?ys @ e # ?zs)"
    using ordered_loop_dlist [of h l "[]" xs e lt] assms(1,3) dlist_notNULL [OF assms(1)]
    by (simp add: list_insert_ordered_def)
  moreover have "\<forall>y\<in>set ?ys. \<not> lt e y"
    by (auto dest: set_takeWhileD)
  moreover have "?zs \<noteq> [] \<longrightarrow> lt e (hd ?zs)"
    using hd_dropWhile [of "\<lambda>x. \<not> lt e x" xs] by auto
  ultimately show ?thesis
    using sorted_insert [OF assms(4,5)] by (metis takeWhile_dropWhile_id)
qed

text \<open>What \<^verbatim>\<open>list_unique\<close> keeps after \<open>x\<close>, and what it removes.\<close>

fun uniq :: "('a \<Rightarrow> 'a \<Rightarrow> bool) \<Rightarrow> 'a \<Rightarrow> 'a list \<Rightarrow> 'a list \<times> 'a list" where
  "uniq lt x [] = ([], [])"
| "uniq lt x (y # ys) =
     (if equiv_to lt x y then (case uniq lt x ys of (k, d) \<Rightarrow> (k, y # d))
      else (case uniq lt y ys of (k, d) \<Rightarrow> (y # k, d)))"

lemma unique_loop_dlist:
  assumes "dlist h l (ps @ x # xs)" and "uniq lt x xs = (k, d)"
    and "m = NULL \<and> ds = [] \<or> m \<noteq> NULL \<and> dlist h m ds \<and> set (nodes m ds) \<inter> set (nodes l (ps @ x # xs)) = {}"
  shows "\<exists>h'. unique_loop h l m x lt = Some h' \<and> dlist h' l (ps @ x # k) \<and> (m \<noteq> NULL \<longrightarrow> dlist h' m (ds @ d))"
  using assms
proof (induction lt x xs arbitrary: h ps k d ds rule: uniq.induct)
  case (1 lt x)
  then show ?case
    using list_next_dlist [of h l ps x "[]"] by (subst unique_loop.simps) auto
next
  case (2 lt x y ys)
  note dl = "2.prems"(1)
  have nx: "list_next h x = Some y"
    using list_next_dlist [OF dl] by simp
  have y: "y \<noteq> tail_of l" "y \<noteq> NULL"
    using dlist_distinct [OF dl] dlist_notNULL [OF dl] by auto
  show ?case
  proof (cases "equiv_to lt x y")
    case True
    obtain k' d' where u: "uniq lt x ys = (k', d')" by fastforce
    have kd: "k = k'" "d = y # d'"
      using "2.prems"(2) True u by auto
    obtain h1 where h1: "list_remove h y = Some (h1, cur l ys)" "dlist h1 l ((ps @ [x]) @ ys)"
        "\<And>a. a \<notin> set (nodes l ((ps @ [x]) @ ys)) \<Longrightarrow> h1 a = h a"
      using list_remove_dlist [of h l "ps @ [x]" y ys] dl by auto
    obtain h2 where h2: "(if m \<noteq> NULL then list_push_back h1 m y else Some h1) = Some h2"
        "dlist h2 l (ps @ x # ys)"
        "m = NULL \<and> ds @ [y] = ds @ [y] \<or> m \<noteq> NULL \<and> dlist h2 m (ds @ [y]) \<and> set (nodes m (ds @ [y])) \<inter> set (nodes l (ps @ x # ys)) = {}"
    proof (cases "m = NULL")
      case True
      then show ?thesis using that h1 by simp
    next
      case False
      then have dm: "dlist h m ds" and dis: "set (nodes m ds) \<inter> set (nodes l (ps @ x # y # ys)) = {}"
        using "2.prems"(3) by auto
      have "dlist h1 m ds"
        by (rule dlist_frame [OF dm], rule h1(3)) (use dis in auto)
      moreover have "y \<notin> set (nodes m ds)"
        using dis by auto
      ultimately obtain h2 where h2: "list_push_back h1 m y = Some h2" "dlist h2 m (ds @ [y])"
          "\<And>a. a \<notin> set (nodes m (ds @ [y])) \<Longrightarrow> h2 a = h1 a"
        using y(2) by (blast elim: list_push_back_dlist)
      have dis2: "set (nodes m (ds @ [y])) \<inter> set (nodes l (ps @ x # ys)) = {}"
        using dis dlist_distinct [OF dl] by auto
      have "dlist h2 l ((ps @ [x]) @ ys)"
        by (rule dlist_frame [OF h1(2)], rule h2(3)) (use dis2 in auto)
      then show ?thesis
        using that h2 dis2 False by simp
    qed
    have "\<exists>h'. unique_loop h2 l m x lt = Some h' \<and> dlist h' l (ps @ x # k') \<and> (m \<noteq> NULL \<longrightarrow> dlist h' m ((if m = NULL then [] else ds @ [y]) @ d'))"
      by (rule 2(1) [OF True h2(2) u]) (use h2(3) in auto)
    then show ?thesis
      using nx y dl h1(1) h2(1) True kd
      by (subst unique_loop.simps) (auto simp: equiv_to_def split: if_splits)
  next
    case False
    obtain k' d' where u: "uniq lt y ys = (k', d')" by fastforce
    have kd: "k = y # k'" "d = d'"
      using "2.prems"(2) False u by auto
    have "\<exists>h'. unique_loop h l m y lt = Some h' \<and> dlist h' l ((ps @ [x]) @ y # k') \<and> (m \<noteq> NULL \<longrightarrow> dlist h' m (ds @ d'))"
      by (rule 2(2) [OF False _ u]) (use dl "2.prems"(3) in auto)
    then show ?thesis
      using nx y dl False kd by (subst unique_loop.simps) (auto simp: equiv_to_def)
  qed
qed

text \<open>Division of a list into its groups of neighbours that are equal to the first of the group.\<close>

definition unique_groups :: "('a \<Rightarrow> 'a \<Rightarrow> bool) \<Rightarrow> 'a list list \<Rightarrow> bool" where
  "unique_groups lt gs \<longleftrightarrow> (\<forall>g \<in> set gs. g \<noteq> [] \<and> (\<forall>y \<in> set (tl g). equiv_to lt (hd g) y))
     \<and> successively (\<lambda>g g'. \<not> equiv_to lt (hd g) (hd g')) gs"

lemma unique_groups_Cons:
  "unique_groups lt (g # gs) \<longleftrightarrow> g \<noteq> [] \<and> (\<forall>y \<in> set (tl g). equiv_to lt (hd g) y) \<and> unique_groups lt gs
     \<and> (gs \<noteq> [] \<longrightarrow> \<not> equiv_to lt (hd g) (hd (hd gs)))"
  by (cases gs) (auto simp: unique_groups_def)

lemma uniq_groups:
  "uniq lt x xs = (k, d) \<Longrightarrow> \<exists>g gs. concat ((x # g) # gs) = x # xs \<and> unique_groups lt ((x # g) # gs)
     \<and> map hd gs = k \<and> g @ concat (map tl gs) = d"
proof (induction lt x xs arbitrary: k d rule: uniq.induct)
  case (1 lt x)
  then show ?case by (intro exI [of _ "[]"]) (simp add: unique_groups_def)
next
  case (2 lt x y ys)
  show ?case
  proof (cases "equiv_to lt x y")
    case True
    obtain k' d' where u: "uniq lt x ys = (k', d')" by fastforce
    then have "k = k'" "d = y # d'" using 2(3) True by auto
    with 2(1) [OF True u] obtain g gs where "concat ((x # g) # gs) = x # ys" "unique_groups lt ((x # g) # gs)"
        "map hd gs = k" "y # g @ concat (map tl gs) = d" by auto
    with True show ?thesis by (intro exI [of _ "y # g"] exI [of _ gs]) (auto simp: unique_groups_Cons)
  next
    case False
    obtain k' d' where u: "uniq lt y ys = (k', d')" by fastforce
    then have kd: "k = y # k'" "d = d'" using 2(3) False by auto
    from 2(2) [OF False u] obtain g gs where "concat ((y # g) # gs) = y # ys" "unique_groups lt ((y # g) # gs)"
        "map hd gs = k'" "g @ concat (map tl gs) = d'" by blast
    with False kd show ?thesis
      by (intro exI [of _ "[]"] exI [of _ "(y # g) # gs"]) (simp add: unique_groups_Cons)
  qed
qed

text \<open>C29. \<^verbatim>\<open>list_unique\<close> divides the list, in order, into groups of neighbours that are equal to the first element of the
  group, where the first elements of consecutive groups differ; it keeps exactly the first element of each group, in their
  order, and appends the others, in their order, to the list of duplicates when there is one.\<close>

theorem list_unique_correct:
  assumes "dlist h l xs"
    and "m = NULL \<or> dlist h m ds \<and> set (nodes m ds) \<inter> set (nodes l xs) = {}"
  shows "\<exists>h' gs. list_unique h l m lt = Some h' \<and> concat gs = xs
      \<and> (\<forall>g \<in> set gs. g \<noteq> [] \<and> (\<forall>y \<in> set (tl g). equiv_to lt (hd g) y))
      \<and> successively (\<lambda>g g'. \<not> equiv_to lt (hd g) (hd g')) gs
      \<and> dlist h' l (map hd gs) \<and> (m \<noteq> NULL \<longrightarrow> dlist h' m (ds @ concat (map tl gs)))"
proof (cases xs)
  case Nil
  then have "list_unique h l m lt = Some h" using assms(1) dlist_notNULL [OF assms(1)] by (simp add: list_unique_def)
  then show ?thesis using assms Nil by (intro exI [of _ h] exI [of _ "[]"]) auto
next
  case (Cons x ys)
  obtain k d where u: "uniq lt x ys = (k, d)" by fastforce
  have "\<exists>h'. unique_loop h l m x lt = Some h' \<and> dlist h' l ([] @ x # k)
      \<and> (m \<noteq> NULL \<longrightarrow> dlist h' m ((if m = NULL then [] else ds) @ d))"
    by (rule unique_loop_dlist [OF _ u]) (use assms Cons in auto)
  then obtain h' where h': "list_unique h l m lt = Some h'" "dlist h' l (x # k)" "m \<noteq> NULL \<longrightarrow> dlist h' m (ds @ d)"
    using assms(1) Cons dlist_notNULL [OF assms(1)] by (auto simp: list_unique_def split: if_splits)
  obtain g gs where "concat ((x # g) # gs) = x # ys" "unique_groups lt ((x # g) # gs)" "map hd gs = k" "g @ concat (map tl gs) = d"
    using uniq_groups [OF u] by blast
  with h' Cons show ?thesis
    by (intro exI [of _ h'] exI [of _ "(x # g) # gs"]) (simp add: unique_groups_def)
qed

text \<open>A maximum that no earlier element equals, as a left fold.\<close>

lemma max_loop_dlist:
  "dlist h l (ps @ xs) \<Longrightarrow>
     max_loop h l (cur l xs) mx lt = Some (foldl (\<lambda>m e. if lt m e then e else m) mx xs)"
proof (induction xs arbitrary: ps mx)
  case Nil
  then show ?case by (subst max_loop.simps) simp
next
  case (Cons x xs)
  have "x \<noteq> tail_of l"
    using dlist_distinct [OF Cons.prems] by auto
  then show ?case
    using Cons.prems Cons.IH [of "ps @ [x]"] list_next_dlist [of h l ps x xs]
    by (subst max_loop.simps) simp
qed

lemma min_loop_dlist:
  "dlist h l (ps @ xs) \<Longrightarrow>
     min_loop h l (cur l xs) mn lt = Some (foldl (\<lambda>m e. if lt e m then e else m) mn xs)"
proof (induction xs arbitrary: ps mn)
  case Nil
  then show ?case by (subst min_loop.simps) simp
next
  case (Cons x xs)
  have "x \<noteq> tail_of l"
    using dlist_distinct [OF Cons.prems] by auto
  then show ?case
    using Cons.prems Cons.IH [of "ps @ [x]"] list_next_dlist [of h l ps x xs]
    by (subst min_loop.simps) simp
qed

lemma foldl_first_max:
  assumes "strict_weak_order lt (set (as @ m # bs) \<union> set xs)"
    and "\<forall>a\<in>set as. lt a m" and "\<forall>b\<in>set bs. \<not> lt m b"
  shows "\<exists>as' bs'. as @ m # bs @ xs = as' @ foldl (\<lambda>m e. if lt m e then e else m) m xs # bs'
      \<and> (\<forall>a\<in>set as'. lt a (foldl (\<lambda>m e. if lt m e then e else m) m xs))
      \<and> (\<forall>b\<in>set bs'. \<not> lt (foldl (\<lambda>m e. if lt m e then e else m) m xs) b)"
  using assms
proof (induction xs arbitrary: as m bs)
  case Nil
  then show ?case by auto
next
  case (Cons x xs)
  note swo = Cons.prems(1)
  show ?case
  proof (cases "lt m x")
    case True
    have lt1: "lt a x" if "a \<in> set (as @ m # bs)" for a
    proof (rule ccontr)
      assume "\<not> lt a x"
      moreover have "\<not> lt m a"
        using that Cons.prems(2,3) swo_asym [OF swo, of a m] swo_asym [OF swo, of m m] by auto
      ultimately have "\<not> lt m x"
        using swo_trans [OF swo, of m a x] that by auto
      with True show False by simp
    qed
    have "strict_weak_order lt (set ((as @ m # bs) @ x # []) \<union> set xs)"
      using swo by (rule strict_weak_order_subset) auto
    from Cons.IH [OF this] lt1 True show ?thesis by auto
  next
    case False
    have "strict_weak_order lt (set (as @ m # (bs @ [x])) \<union> set xs)"
      using swo by (rule strict_weak_order_subset) auto
    from Cons.IH [OF this] Cons.prems(2,3) False show ?thesis by auto
  qed
qed

lemma list_max_dlist:
  assumes "dlist h l xs" and "xs \<noteq> []" and "strict_weak_order lt (set xs)"
  shows "\<exists>as m bs. xs = as @ m # bs \<and> list_max h l lt = Some m \<and> (\<forall>a\<in>set as. lt a m) \<and> (\<forall>b\<in>set bs. \<not> lt m b)"
proof -
  obtain x ys where xs: "xs = x # ys"
    using assms(2) by (cases xs) auto
  have "x \<noteq> tail_of l"
    using dlist_distinct [OF assms(1)] xs by auto
  then have "list_max h l lt = Some (foldl (\<lambda>m e. if lt m e then e else m) x ys)"
    using assms(1) xs list_next_dlist [of h l "[]" x ys] max_loop_dlist [of h l "[x]" ys x lt]
    by (simp add: list_max_def)
  then show ?thesis
    using foldl_first_max [of lt "[]" x "[]" ys] assms(3) xs by simp
qed

lemma strict_weak_order_converse: "strict_weak_order (\<lambda>a b. lt b a) A = strict_weak_order lt A"
  unfolding strict_weak_order_def by blast

lemma list_min_dlist:
  assumes "dlist h l xs" and "xs \<noteq> []" and "strict_weak_order lt (set xs)"
  shows "\<exists>as m bs. xs = as @ m # bs \<and> list_min h l lt = Some m \<and> (\<forall>a\<in>set as. lt m a) \<and> (\<forall>b\<in>set bs. \<not> lt b m)"
proof -
  obtain x ys where xs: "xs = x # ys"
    using assms(2) by (cases xs) auto
  have "x \<noteq> tail_of l"
    using dlist_distinct [OF assms(1)] xs by auto
  then have "list_min h l lt = Some (foldl (\<lambda>m e. if lt e m then e else m) x ys)"
    using assms(1) xs list_next_dlist [of h l "[]" x ys] min_loop_dlist [of h l "[x]" ys x lt]
    by (simp add: list_min_def)
  moreover have "strict_weak_order (\<lambda>a b. lt b a) (set ([] @ x # []) \<union> set ys)"
    using assms(3) xs by (subst strict_weak_order_converse) simp
  ultimately show ?thesis
    using foldl_first_max [of "\<lambda>a b. lt b a" "[]" x "[]" ys] xs by simp
qed

text \<open>C30. On a non-empty list \<^verbatim>\<open>list_max\<close> and \<^verbatim>\<open>list_min\<close> return the earliest maximum and the earliest
  minimum.\<close>

theorem list_extrema_correct:
  assumes "dlist h l xs" and "xs \<noteq> []" and "strict_weak_order lt (set xs)"
  shows "(\<exists>as m bs. xs = as @ m # bs \<and> list_max h l lt = Some m \<and> (\<forall>a\<in>set as. lt a m) \<and> (\<forall>b\<in>set bs. \<not> lt m b))
      \<and> (\<exists>as m bs. xs = as @ m # bs \<and> list_min h l lt = Some m \<and> (\<forall>a\<in>set as. lt m a) \<and> (\<forall>b\<in>set bs. \<not> lt b m))"
  by (rule conjI [OF list_max_dlist [OF assms] list_min_dlist [OF assms]])

section \<open>Concrete instances\<close>

lemma less_word_swo: "strict_weak_order (<) (A :: 'a :: linorder set)"
  by (auto simp: strict_weak_order_def)

theorem list_sort_correct_witness:
  "\<exists>h' ys. list_sort ex_heap 100 (<) = Some h' \<and> dlist h' 100 ys \<and> mset ys = {#200, 300, 400#}
      \<and> sorted_wrt (\<lambda>x y. \<not> y < x) ys"
  using list_sort_correct [OF ex_heap_dlist less_word_swo] by (auto simp: add_mset_commute)

theorem list_insert_ordered_correct_witness:
  "\<exists>h' ys zs. list_insert_ordered ex_heap 100 500 (\<lambda>a b. False) = Some h' \<and> [300, 200, 400] = ys @ zs
      \<and> dlist h' 100 (ys @ 500 # zs) \<and> sorted_wrt (\<lambda>x y. \<not> False) (ys @ 500 # zs)
      \<and> (\<forall>y\<in>set ys. \<not> False) \<and> (zs \<noteq> [] \<longrightarrow> False)"
  by (rule list_insert_ordered_correct [OF ex_heap_dlist]) (simp_all add: tail_of_def strict_weak_order_def)

theorem list_unique_correct_witness:
  "\<exists>h' gs. list_unique ex_heap 100 600 (\<lambda>a b. False) = Some h' \<and> concat gs = [300, 200, 400]
      \<and> (\<forall>g \<in> set gs. g \<noteq> [] \<and> (\<forall>y \<in> set (tl g). equiv_to (\<lambda>a b. False) (hd g) y))
      \<and> successively (\<lambda>g g'. \<not> equiv_to (\<lambda>a b. False) (hd g) (hd g')) gs
      \<and> dlist h' 100 (map hd gs) \<and> ((600 :: addr) \<noteq> NULL \<longrightarrow> dlist h' 600 ([700, 800] @ concat (map tl gs)))"
  by (rule list_unique_correct [OF ex_heap_dlist]) (simp add: ex_heap_dlist2 nodes_def tail_of_def)

theorem list_extrema_correct_witness:
  "(\<exists>as m bs. [300, 200, 400] = as @ m # bs \<and> list_max ex_heap 100 (<) = Some m \<and> (\<forall>a\<in>set as. a < m) \<and> (\<forall>b\<in>set bs. \<not> m < b))
   \<and> (\<exists>as m bs. [300, 200, 400] = as @ m # bs \<and> list_min ex_heap 100 (<) = Some m \<and> (\<forall>a\<in>set as. m < a) \<and> (\<forall>b\<in>set bs. \<not> b < m))"
  by (rule list_extrema_correct [OF ex_heap_dlist _ less_word_swo]) simp


end
