(* ===== verification/Bytes.thy ===== *)
theory Bytes
  imports Prelude
begin

text \<open>
  The byte layout of the structures the kernel writes to disk: 16- and 32-bit integers are stored least
  significant byte first, as on the 80x86 the kernel runs on; a string is the bytes before the first zero.
\<close>

unbundle bit_operations_syntax

definition le32 :: "32 word \<Rightarrow> byte list" where
  "le32 w = [ucast w, ucast (drop_bit 8 w), ucast (drop_bit 16 w), ucast (drop_bit 24 w)]"

definition of_le32 :: "byte list \<Rightarrow> 32 word" where
  "of_le32 bs = ucast (bs ! 0) OR push_bit 8 (ucast (bs ! 1)) OR push_bit 16 (ucast (bs ! 2))
     OR push_bit 24 (ucast (bs ! 3))"

definition of_le16 :: "byte list \<Rightarrow> 16 word" where
  "of_le16 bs = ucast (bs ! 0) OR push_bit 8 (ucast (bs ! 1))"

text \<open>A bytes_at of a buffer: \<open>n\<close> bytes from offset \<open>i\<close> on; and overwriting a bytes_at (\<^verbatim>\<open>memcpy\<close>).\<close>

definition bytes_at :: "nat \<Rightarrow> nat \<Rightarrow> 'a list \<Rightarrow> 'a list" where
  "bytes_at i n xs = take n (drop i xs)"

definition splice_at :: "nat \<Rightarrow> 'a list \<Rightarrow> 'a list \<Rightarrow> 'a list" where
  "splice_at i ys xs = take i xs @ ys @ drop (i + length ys) xs"

definition words_to_bytes :: "32 word list \<Rightarrow> byte list" where
  "words_to_bytes ws = concat (map le32 ws)"

fun bytes_to_words :: "byte list \<Rightarrow> 32 word list" where
  "bytes_to_words (a # b # c # d # bs) = of_le32 [a, b, c, d] # bytes_to_words bs"
| "bytes_to_words _ = []"

text \<open>C strings: the characters before the terminating zero, and \<^verbatim>\<open>strlcpy\<close> into a field of \<open>n\<close> bytes whose
  remaining bytes keep their old value.\<close>

definition cstr :: "byte list \<Rightarrow> byte list" where
  "cstr bs = takeWhile (\<lambda>b. b \<noteq> 0) bs"

definition strlcpy_field :: "byte list \<Rightarrow> byte list \<Rightarrow> byte list" where
  "strlcpy_field s old =
     (let n = min (length s) (length old - 1) in take n s @ [0] @ drop (n + 1) old)"

section \<open>Round trips\<close>

lemma length_le32 [simp]: "length (le32 w) = 4"
  by (simp add: le32_def)

lemma of_le32_le32 [simp]: "of_le32 (le32 w) = w"
proof (rule bit_word_eqI)
  fix n
  assume "n < LENGTH(32)"
  then consider "n < 8" | "8 \<le> n" "n < 16" | "16 \<le> n" "n < 24" | "24 \<le> n" "n < 32"
    by force
  then show "bit (of_le32 (le32 w)) n \<longleftrightarrow> bit w n"
    by cases (auto simp: of_le32_def le32_def bit_or_iff bit_push_bit_iff bit_unsigned_iff bit_drop_bit_eq
        possible_bit_word bit_imp_le_length)
qed

lemma of_le32_append [simp]: "of_le32 (le32 w @ bs) = w"
proof -
  have "of_le32 (le32 w @ bs) = of_le32 (le32 w)"
    by (simp add: of_le32_def nth_append)
  then show ?thesis by simp
qed

lemma bytes_words_round_trip [simp]: "bytes_to_words (words_to_bytes ws) = ws"
proof (induction ws)
  case Nil
  then show ?case by (simp add: words_to_bytes_def)
next
  case (Cons w ws)
  obtain a b c d where w: "le32 w = [a, b, c, d]"
    by (simp add: le32_def)
  then have "of_le32 [a, b, c, d] = w"
    using of_le32_le32 [of w] by simp
  then show ?case using Cons w by (simp add: words_to_bytes_def)
qed

lemma length_words_to_bytes [simp]: "length (words_to_bytes ws) = 4 * length ws"
  by (induction ws) (simp_all add: words_to_bytes_def)

lemma length_bytes_at [simp]: "length (bytes_at i n xs) = min n (length xs - i)"
  by (simp add: bytes_at_def)

lemma length_splice_at [simp]: "i + length ys \<le> length xs \<Longrightarrow> length (splice_at i ys xs) = length xs"
  by (simp add: splice_at_def)

lemma bytes_at_splice: "i + length ys \<le> length xs \<Longrightarrow> bytes_at i (length ys) (splice_at i ys xs) = ys"
  by (simp add: bytes_at_def splice_at_def)

lemma nth_bytes_at: "k < n \<Longrightarrow> i + k < length xs \<Longrightarrow> bytes_at i n xs ! k = xs ! (i + k)"
  by (simp add: bytes_at_def)

lemma nth_splice_at:
  "i + length ys \<le> length xs \<Longrightarrow> k < length xs \<Longrightarrow>
     splice_at i ys xs ! k = (if i \<le> k \<and> k < i + length ys then ys ! (k - i) else xs ! k)"
  by (auto simp: splice_at_def nth_append)

lemma cstr_strlcpy: "0 \<notin> set s \<Longrightarrow> length s < length old \<Longrightarrow> cstr (strlcpy_field s old) = s"
  by (simp add: cstr_def strlcpy_field_def Let_def takeWhile_tail takeWhile_eq_all_conv)
    (metis)

lemma length_strlcpy [simp]: "0 < length old \<Longrightarrow> length (strlcpy_field s old) = length old"
  by (cases old) (auto simp: strlcpy_field_def Let_def)

lemma bytes_at_split: "m \<le> n \<Longrightarrow> bytes_at i n xs = bytes_at i m xs @ bytes_at (i + m) (n - m) xs"
  using take_add [of m "n - m" "drop i xs"] by (simp add: bytes_at_def add.commute)

lemma bytes_at_0 [simp]: "bytes_at i 0 xs = []"
  by (simp add: bytes_at_def)

lemma bytes_at_beyond: "length xs \<le> i \<Longrightarrow> bytes_at i n xs = []"
  by (simp add: bytes_at_def)

lemma bytes_at_all [simp]: "length xs = n \<Longrightarrow> bytes_at 0 n xs = xs"
  by (simp add: bytes_at_def)

lemma splice_at_Nil [simp]: "splice_at i [] xs = xs"
  by (simp add: splice_at_def)

lemma splice_at_splice:
  "i + length ys + length zs \<le> length xs \<Longrightarrow> splice_at (i + length ys) zs (splice_at i ys xs) = splice_at i (ys @ zs) xs"
  by (simp add: splice_at_def ac_simps)

lemma splice_bytes_at:
  assumes "w + n + m \<le> length b" and "i + n + m \<le> length xs"
  shows "splice_at (i + n) (bytes_at (w + n) m b) (splice_at i (bytes_at w n b) xs) = splice_at i (bytes_at w (n + m) b) xs"
proof -
  have "length (bytes_at w n b) = n" "length (bytes_at (w + n) m b) = m" using assms(1) by simp_all
  then show ?thesis
    using splice_at_splice [of i "bytes_at w n b" "bytes_at (w + n) m b" xs] bytes_at_split [of n "n + m" w b] assms(2)
    by simp
qed

lemma length_bytes_to_words: "length (bytes_to_words bs) = length bs div 4"
  by (induction bs rule: bytes_to_words.induct) auto

end
