(* ===== verification/Block.thy ===== *)
theory Block
  imports Interfaces Bytes
begin

text \<open>
  The block device layer, \<^verbatim>\<open>src/src/devices/block.c\<close>, and disk partitions, \<^verbatim>\<open>src/src/devices/partition.c\<close>.

  A block device is named by the index of its descriptor.  Its driver is either an IDE disk or a partition of
  another device; the operations table of \<^verbatim>\<open>struct block_operations\<close> is the constructor.  A disk holds, for every
  sector, the bytes last written to it (the port-level protocol of \<^verbatim>\<open>ide.c\<close> is not modelled).
\<close>

section \<open>Devices\<close>

type_synonym block_sector_t = "32 word"

definition BLOCK_SECTOR_SIZE :: nat where
  "BLOCK_SECTOR_SIZE = 512"

datatype block_type = BLOCK_KERNEL | BLOCK_FILESYS | BLOCK_SCRATCH | BLOCK_SWAP | BLOCK_RAW | BLOCK_FOREIGN

fun type_num :: "block_type \<Rightarrow> nat" where
  "type_num BLOCK_KERNEL = 0"
| "type_num BLOCK_FILESYS = 1"
| "type_num BLOCK_SCRATCH = 2"
| "type_num BLOCK_SWAP = 3"
| "type_num BLOCK_RAW = 4"
| "type_num BLOCK_FOREIGN = 5"

definition BLOCK_ROLE_CNT :: nat where
  "BLOCK_ROLE_CNT = 4"

definition BLOCK_CNT :: nat where
  "BLOCK_CNT = 6"

text \<open>\<^verbatim>\<open>Partition p start\<close> is \<^verbatim>\<open>partition_operations\<close> with \<^verbatim>\<open>struct partition {p, start}\<close> as its \<^verbatim>\<open>aux\<close>.\<close>

datatype driver = Ide | Partition nat block_sector_t

record block =
  bl_name :: string
  bl_type :: block_type
  bl_size :: block_sector_t
  bl_driver :: driver
  read_cnt :: "64 word"
  write_cnt :: "64 word"

text \<open>All devices: descriptors, the list \<^verbatim>\<open>all_blocks\<close>, the array \<^verbatim>\<open>block_by_role\<close>, the contents of the disks, and
  the outcome of the coming memory allocations (\<open>[]\<close>: they succeed).\<close>

record blocks =
  descr :: "nat \<rightharpoonup> block"
  all_blocks :: "nat list"
  block_by_role :: "nat option list"
  media :: "nat \<Rightarrow> block_sector_t \<Rightarrow> byte list"
  bl_next_id :: nat
  bl_mallocs :: "bool list"

fun block_type_name :: "block_type \<Rightarrow> string" where
  "block_type_name BLOCK_KERNEL = ''kernel''"
| "block_type_name BLOCK_FILESYS = ''filesys''"
| "block_type_name BLOCK_SCRATCH = ''scratch''"
| "block_type_name BLOCK_SWAP = ''swap''"
| "block_type_name BLOCK_RAW = ''raw''"
| "block_type_name BLOCK_FOREIGN = ''foreign''"

definition block_get_role :: "blocks \<Rightarrow> block_type \<Rightarrow> nat option option" where
  "block_get_role S role = do {
     ASSERT (type_num role < BLOCK_ROLE_CNT);
     Some (block_by_role S ! type_num role)
   }"

definition block_set_role :: "blocks \<Rightarrow> block_type \<Rightarrow> nat option \<Rightarrow> blocks option" where
  "block_set_role S role b = do {
     ASSERT (type_num role < BLOCK_ROLE_CNT);
     Some (S\<lparr>block_by_role := (block_by_role S)[type_num role := b]\<rparr>)
   }"

definition block_first :: "blocks \<Rightarrow> nat option" where
  "block_first S = (case all_blocks S of [] \<Rightarrow> None | b # _ \<Rightarrow> Some b)"

fun next_in :: "nat list \<Rightarrow> nat \<Rightarrow> nat option" where
  "next_in (a # b # xs) x = (if a = x then Some b else next_in (b # xs) x)"
| "next_in _ x = None"

definition block_next :: "blocks \<Rightarrow> nat \<Rightarrow> nat option" where
  "block_next S b = next_in (all_blocks S) b"

definition block_get_by_name :: "blocks \<Rightarrow> string \<Rightarrow> nat option" where
  "block_get_by_name S name =
     find (\<lambda>b. case descr S b of Some bl \<Rightarrow> name = bl_name bl | None \<Rightarrow> False) (all_blocks S)"

definition check_sector :: "block \<Rightarrow> block_sector_t \<Rightarrow> unit option" where
  "check_sector bl sector = (if sector \<ge> bl_size bl then None else Some ())"

definition block_size :: "block \<Rightarrow> block_sector_t" where
  "block_size bl = bl_size bl"

section \<open>Reading and writing sectors\<close>

text \<open>\<^verbatim>\<open>block_read\<close> and \<^verbatim>\<open>block_write\<close> call the driver; for a partition that is \<^verbatim>\<open>partition_read\<close> and
  \<^verbatim>\<open>partition_write\<close>, which access the underlying device at \<^verbatim>\<open>p->start + sector\<close>.\<close>

partial_function (option) block_read :: "blocks \<Rightarrow> nat \<Rightarrow> block_sector_t \<Rightarrow> (blocks \<times> byte list) option" where
  "block_read S b sector = do {
     bl \<leftarrow> descr S b;
     check_sector bl sector;
     (S, buffer) \<leftarrow> (case bl_driver bl of
         Ide \<Rightarrow> Some (S, media S b sector)
       | Partition p start \<Rightarrow> block_read S p (start + sector));
     Some (S\<lparr>descr := (descr S)(b \<mapsto> bl\<lparr>read_cnt := read_cnt bl + 1\<rparr>)\<rparr>, buffer)
   }"

partial_function (option) block_write :: "blocks \<Rightarrow> nat \<Rightarrow> block_sector_t \<Rightarrow> byte list \<Rightarrow> blocks option" where
  "block_write S b sector buffer = do {
     bl \<leftarrow> descr S b;
     check_sector bl sector;
     ASSERT (bl_type bl \<noteq> BLOCK_FOREIGN);
     S \<leftarrow> (case bl_driver bl of
         Ide \<Rightarrow> Some (S\<lparr>media := (media S)(b := (media S b)(sector := buffer))\<rparr>)
       | Partition p start \<Rightarrow> block_write S p (start + sector) buffer);
     Some (S\<lparr>descr := (descr S)(b \<mapsto> bl\<lparr>write_cnt := write_cnt bl + 1\<rparr>)\<rparr>)
   }"

text \<open>The rows printed by \<^verbatim>\<open>block_print_stats\<close>; reading the role array out of its bounds is \<open>None\<close>.\<close>

fun print_stats_loop :: "blocks \<Rightarrow> nat list \<Rightarrow> (string \<times> string \<times> 64 word \<times> 64 word) list option" where
  "print_stats_loop S [] = Some []"
| "print_stats_loop S (i # is) =
     (if i < length (block_by_role S) then do {
        rows \<leftarrow> (case block_by_role S ! i of
            None \<Rightarrow> Some []
          | Some b \<Rightarrow> do {
              bl \<leftarrow> descr S b;
              Some [(bl_name bl, block_type_name (bl_type bl), read_cnt bl, write_cnt bl)]
            });
        rest \<leftarrow> print_stats_loop S is;
        Some (rows @ rest)
      }
      else None)"

definition block_print_stats :: "blocks \<Rightarrow> (string \<times> string \<times> 64 word \<times> 64 word) list option" where
  "block_print_stats S = print_stats_loop S [0..<BLOCK_CNT]"

section \<open>Registration\<close>

definition bl_malloc :: "blocks \<Rightarrow> blocks \<times> bool" where
  "bl_malloc S = (case bl_mallocs S of [] \<Rightarrow> (S, True) | r # rs \<Rightarrow> (S\<lparr>bl_mallocs := rs\<rparr>, r))"

definition block_register :: "blocks \<Rightarrow> string \<Rightarrow> block_type \<Rightarrow> block_sector_t \<Rightarrow> driver \<Rightarrow> (blocks \<times> nat) option" where
  "block_register S name type size' ops = do {
     let (S, ok) = bl_malloc S;
     ASSERT ok;
     let b = bl_next_id S;
     Some (S\<lparr>descr := (descr S)(b \<mapsto>
         \<lparr>bl_name = take 15 name, bl_type = type, bl_size = size', bl_driver = ops, read_cnt = 0, write_cnt = 0\<rparr>),
       all_blocks := all_blocks S @ [b], bl_next_id := b + 1\<rparr>, b)
   }"

section \<open>Partitions\<close>

text \<open>The fields of a partition table entry that the scan uses.\<close>

record partition_table_entry =
  pe_type :: byte
  pe_offset :: "32 word"
  pe_size :: "32 word"

definition table_entry :: "byte list \<Rightarrow> nat \<Rightarrow> partition_table_entry" where
  "table_entry pt i = (let e = drop (446 + 16 * i) pt in
     \<lparr>pe_type = e ! 4, pe_offset = of_le32 (drop 8 e), pe_size = of_le32 (drop 12 e)\<rparr>)"

definition table_signature :: "byte list \<Rightarrow> 16 word" where
  "table_signature pt = of_le16 (drop 510 pt)"

fun dec :: "nat \<Rightarrow> string" where
  "dec n = (if n < 10 then [char_of (48 + n)] else dec (n div 10) @ [char_of (48 + n mod 10)])"

declare dec.simps [simp del]

definition partition_block_type :: "byte \<Rightarrow> block_type" where
  "partition_block_type part_type =
     (if part_type = 0x20 then BLOCK_KERNEL else if part_type = 0x21 then BLOCK_FILESYS
      else if part_type = 0x22 then BLOCK_SCRATCH else if part_type = 0x23 then BLOCK_SWAP else BLOCK_FOREIGN)"

definition found_partition ::
    "blocks \<Rightarrow> nat \<Rightarrow> byte \<Rightarrow> block_sector_t \<Rightarrow> block_sector_t \<Rightarrow> nat \<Rightarrow> blocks option" where
  "found_partition S b part_type start size' part_nr = do {
     bl \<leftarrow> descr S b;
     if start \<ge> block_size bl then Some S
     else if start + size' < start \<or> start + size' > block_size bl then Some S
     else do {
       let type = partition_block_type part_type;
       let (S, ok) = bl_malloc S;
       ASSERT ok;
       let name = take 15 (bl_name bl @ dec part_nr);
       (S, p) \<leftarrow> block_register S name type size' (Partition b start);
       Some S
     }
   }"

definition is_extended :: "byte \<Rightarrow> bool" where
  "is_extended t \<longleftrightarrow> t = 0x05 \<or> t = 0x0f \<or> t = 0x85 \<or> t = 0xc5"

text \<open>The loop over the entries of one table; \<open>rec\<close> is the recursive call for a nested table, with the sector, the
  primary extended sector and the partition counter.\<close>

fun parse_partitions ::
    "(blocks \<Rightarrow> block_sector_t \<Rightarrow> block_sector_t \<Rightarrow> nat \<Rightarrow> (blocks \<times> nat) option)
     \<Rightarrow> nat \<Rightarrow> block_sector_t \<Rightarrow> block_sector_t \<Rightarrow> partition_table_entry list \<Rightarrow> blocks \<Rightarrow> nat
     \<Rightarrow> (blocks \<times> nat) option" where
  "parse_partitions rec b sector prim [] S part_nr = Some (S, part_nr)"
| "parse_partitions rec b sector prim (e # es) S part_nr =
     (if pe_size e = 0 \<or> pe_type e = 0 then parse_partitions rec b sector prim es S part_nr
      else if is_extended (pe_type e) then do {
        (S, part_nr) \<leftarrow> (if sector = 0 then rec S (pe_offset e) (pe_offset e) part_nr
                        else rec S (pe_offset e + prim) prim part_nr);
        parse_partitions rec b sector prim es S part_nr
      }
      else do {
        let part_nr = part_nr + 1;
        S \<leftarrow> found_partition S b (pe_type e) (pe_offset e + sector) (pe_size e) part_nr;
        parse_partitions rec b sector prim es S part_nr
      })"

text \<open>\<^verbatim>\<open>read_partition_table\<close> recurses on the kernel stack; the first argument is the number of activations the
  stack has room for, and running out of it is \<open>None\<close>.\<close>

fun read_partition_table ::
    "nat \<Rightarrow> nat \<Rightarrow> blocks \<Rightarrow> block_sector_t \<Rightarrow> block_sector_t \<Rightarrow> nat \<Rightarrow> (blocks \<times> nat) option" where
  "read_partition_table 0 b S sector prim part_nr = None"
| "read_partition_table (Suc n) b S sector prim part_nr = do {
     bl \<leftarrow> descr S b;
     if sector \<ge> block_size bl then Some (S, part_nr)
     else do {
       let (S, ok) = bl_malloc S;
       ASSERT ok;
       (S, pt) \<leftarrow> block_read S b 0;
       if table_signature pt \<noteq> 0xaa55 then Some (S, part_nr)
       else parse_partitions (read_partition_table n b) b sector prim (map (table_entry pt) [0..<4]) S part_nr
     }
   }"

definition partition_scan :: "nat \<Rightarrow> blocks \<Rightarrow> nat \<Rightarrow> (blocks \<times> nat) option" where
  "partition_scan stack S b = read_partition_table stack b S 0 0 0"

definition type_names :: "(byte \<times> string) list" where
  "type_names = [
      (0x00, ''Empty''),
      (0x01, ''FAT12''),
      (0x02, ''XENIX root''),
      (0x03, ''XENIX usr''),
      (0x04, ''FAT16 <32M''),
      (0x05, ''Extended''),
      (0x06, ''FAT16''),
      (0x07, ''HPFS/NTFS''),
      (0x08, ''AIX''),
      (0x09, ''AIX bootable''),
      (0x0a, ''OS/2 Boot Manager''),
      (0x0b, ''W95 FAT32''),
      (0x0c, ''W95 FAT32 (LBA)''),
      (0x0e, ''W95 FAT16 (LBA)''),
      (0x0f, ''W95 Ext'' @ [CHR 0x27] @ ''d (LBA)''),
      (0x10, ''OPUS''),
      (0x11, ''Hidden FAT12''),
      (0x12, ''Compaq diagnostics''),
      (0x14, ''Hidden FAT16 <32M''),
      (0x16, ''Hidden FAT16''),
      (0x17, ''Hidden HPFS/NTFS''),
      (0x18, ''AST SmartSleep''),
      (0x1b, ''Hidden W95 FAT32''),
      (0x1c, ''Hidden W95 FAT32 (LBA)''),
      (0x1e, ''Hidden W95 FAT16 (LBA)''),
      (0x20, ''Pintos OS kernel''),
      (0x21, ''Pintos file system''),
      (0x22, ''Pintos scratch''),
      (0x23, ''Pintos swap''),
      (0x24, ''NEC DOS''),
      (0x39, ''Plan 9''),
      (0x3c, ''PartitionMagic recovery''),
      (0x40, ''Venix 80286''),
      (0x41, ''PPC PReP Boot''),
      (0x42, ''SFS''),
      (0x4d, ''QNX4.x''),
      (0x4e, ''QNX4.x 2nd part''),
      (0x4f, ''QNX4.x 3rd part''),
      (0x50, ''OnTrack DM''),
      (0x51, ''OnTrack DM6 Aux1''),
      (0x52, ''CP/M''),
      (0x53, ''OnTrack DM6 Aux3''),
      (0x54, ''OnTrackDM6''),
      (0x55, ''EZ-Drive''),
      (0x56, ''Golden Bow''),
      (0x5c, ''Priam Edisk''),
      (0x61, ''SpeedStor''),
      (0x63, ''GNU HURD or SysV''),
      (0x64, ''Novell Netware 286''),
      (0x65, ''Novell Netware 386''),
      (0x70, ''DiskSecure Multi-Boot''),
      (0x75, ''PC/IX''),
      (0x80, ''Old Minix''),
      (0x81, ''Minix / old Linux''),
      (0x82, ''Linux swap / Solaris''),
      (0x83, ''Linux''),
      (0x84, ''OS/2 hidden C: drive''),
      (0x85, ''Linux extended''),
      (0x86, ''NTFS volume set''),
      (0x87, ''NTFS volume set''),
      (0x88, ''Linux plaintext''),
      (0x8e, ''Linux LVM''),
      (0x93, ''Amoeba''),
      (0x94, ''Amoeba BBT''),
      (0x9f, ''BSD/OS''),
      (0xa0, ''IBM Thinkpad hibernation''),
      (0xa5, ''FreeBSD''),
      (0xa6, ''OpenBSD''),
      (0xa7, ''NeXTSTEP''),
      (0xa8, ''Darwin UFS''),
      (0xa9, ''NetBSD''),
      (0xab, ''Darwin boot''),
      (0xb7, ''BSDI fs''),
      (0xb8, ''BSDI swap''),
      (0xbb, ''Boot Wizard hidden''),
      (0xbe, ''Solaris boot''),
      (0xbf, ''Solaris''),
      (0xc1, ''DRDOS/sec (FAT-12)''),
      (0xc4, ''DRDOS/sec (FAT-16 < 32M)''),
      (0xc6, ''DRDOS/sec (FAT-16)''),
      (0xc7, ''Syrinx''),
      (0xda, ''Non-FS data''),
      (0xdb, ''CP/M / CTOS / ...''),
      (0xde, ''Dell Utility''),
      (0xdf, ''BootIt''),
      (0xe1, ''DOS access''),
      (0xe3, ''DOS R/O''),
      (0xe4, ''SpeedStor''),
      (0xeb, ''BeOS fs''),
      (0xee, ''EFI GPT''),
      (0xef, ''EFI (FAT-12/16/32)''),
      (0xf0, ''Linux/PA-RISC boot''),
      (0xf1, ''SpeedStor''),
      (0xf4, ''SpeedStor''),
      (0xf2, ''DOS secondary''),
      (0xfd, ''Linux raid autodetect''),
      (0xfe, ''LANstep''),
      (0xff, ''BBT'')]"

definition partition_type_name :: "byte \<Rightarrow> string" where
  "partition_type_name type = (case map_of type_names type of Some n \<Rightarrow> n | None \<Rightarrow> ''Unknown'')"

section \<open>Where a device's sectors are\<close>

text \<open>\<open>dev_at S b d off\<close>: sector \<open>s\<close> of device \<open>b\<close> is sector \<open>off + s\<close> of disk \<open>d\<close>, each partition on the way fits into
  the device below it, and none is foreign.\<close>

inductive dev_at :: "blocks \<Rightarrow> nat \<Rightarrow> nat \<Rightarrow> block_sector_t \<Rightarrow> bool" where
  disk: "descr S b = Some bl \<Longrightarrow> bl_driver bl = Ide \<Longrightarrow> bl_type bl \<noteq> BLOCK_FOREIGN \<Longrightarrow> dev_at S b b 0"
| part: "descr S b = Some bl \<Longrightarrow> bl_driver bl = Partition p start \<Longrightarrow> bl_type bl \<noteq> BLOCK_FOREIGN \<Longrightarrow>
    descr S p = Some pl \<Longrightarrow> unat start + unat (bl_size bl) \<le> unat (bl_size pl) \<Longrightarrow> dev_at S p d off \<Longrightarrow>
    dev_at S b d (off + start)"

definition dev_size :: "blocks \<Rightarrow> nat \<Rightarrow> block_sector_t" where
  "dev_size S b = bl_size (the (descr S b))"

text \<open>The state apart from the statistics counters and the contents of the disks.\<close>

definition shape :: "blocks \<Rightarrow> nat \<Rightarrow> (string \<times> block_type \<times> block_sector_t \<times> driver) option" where
  "shape S b = map_option (\<lambda>bl. (bl_name bl, bl_type bl, bl_size bl, bl_driver bl)) (descr S b)"

definition same_shape :: "blocks \<Rightarrow> blocks \<Rightarrow> bool" where
  "same_shape S S' \<longleftrightarrow> shape S' = shape S \<and> all_blocks S' = all_blocks S \<and> block_by_role S' = block_by_role S
     \<and> bl_next_id S' = bl_next_id S \<and> bl_mallocs S' = bl_mallocs S"

lemma same_shape_refl [simp]: "same_shape S S"
  by (simp add: same_shape_def)

lemma same_shape_trans: "same_shape S S' \<Longrightarrow> same_shape S' S'' \<Longrightarrow> same_shape S S''"
  by (simp add: same_shape_def)

lemma shape_descr: "shape S' = shape S \<Longrightarrow> descr S b = Some bl \<Longrightarrow>
    \<exists>bl'. descr S' b = Some bl' \<and> bl_name bl' = bl_name bl \<and> bl_type bl' = bl_type bl \<and> bl_size bl' = bl_size bl
      \<and> bl_driver bl' = bl_driver bl"
  by (drule fun_cong [of _ _ b]) (auto simp: shape_def map_option_case split: option.splits)

lemma dev_at_shape:
  assumes "dev_at S b d off" and "shape S' = shape S"
  shows "dev_at S' b d off"
  using assms
proof (induction rule: dev_at.induct)
  case (disk S b bl)
  then show ?case using shape_descr [of S' S b bl] dev_at.disk by fastforce
next
  case (part S b bl p start pl d off)
  then show ?case using shape_descr [of S' S b bl] shape_descr [of S' S p pl] dev_at.part by fastforce
qed

lemma dev_at_descr: "dev_at S b d off \<Longrightarrow> \<exists>bl. descr S b = Some bl \<and> bl_type bl \<noteq> BLOCK_FOREIGN"
  by (auto elim: dev_at.cases)

lemma dev_size_shape: "shape S' = shape S \<Longrightarrow> dev_at S b d off \<Longrightarrow> dev_size S' b = dev_size S b"
  using shape_descr [of S' S b] dev_at_descr [of S b d off] by (force simp: dev_size_def)

lemma dev_at_bound:
  "dev_at S b d off \<Longrightarrow> unat off + unat (dev_size S b) \<le> unat (dev_size S d)"
proof (induction rule: dev_at.induct)
  case (part S b bl p start pl d off)
  then have le: "unat off + unat start + unat (bl_size bl) \<le> unat (dev_size S d)"
    by (simp add: dev_size_def)
  then have "unat (off + start) = unat off + unat start"
    using unat_less_2p [of "dev_size S d"] by (simp add: unat_plus_if')
  then show ?case using le part by (simp add: dev_size_def)
qed (simp add: dev_size_def)

lemma dev_sector_unat:
  assumes "dev_at S b d off" and "s < dev_size S b"
  shows "unat (off + s) = unat off + unat s"
  by (rule unat_add_range(1) [OF dev_at_bound [OF assms(1)] assms(2)])

lemma shape_update:
  "descr S b = Some bl \<Longrightarrow> bl_name bl' = bl_name bl \<Longrightarrow> bl_type bl' = bl_type bl \<Longrightarrow> bl_size bl' = bl_size bl \<Longrightarrow>
    bl_driver bl' = bl_driver bl \<Longrightarrow> shape (S\<lparr>descr := (descr S)(b \<mapsto> bl')\<rparr>) = shape S"
  by (auto simp: shape_def fun_eq_iff)

lemma block_read_dev:
  "dev_at S b d off \<Longrightarrow> s < dev_size S b \<Longrightarrow>
     \<exists>S'. block_read S b s = Some (S', media S d (off + s)) \<and> same_shape S S' \<and> media S' = media S"
proof (induction arbitrary: s rule: dev_at.induct)
  case (disk S b bl)
  then show ?case
    by (subst block_read.simps) (simp add: dev_size_def check_sector_def same_shape_def shape_update)
next
  case (part S b bl p start pl d off)
  have s: "s < bl_size bl" using part by (simp add: dev_size_def)
  then have "start + s < dev_size S p"
    using unat_add_range(2) [OF part.hyps(5) s] part.hyps(4) by (simp add: dev_size_def)
  then obtain S' where S': "block_read S p (start + s) = Some (S', media S d (off + start + s))"
      "same_shape S S'" "media S' = media S"
    using part.IH by (auto simp: add.assoc)
  obtain bl' where bl': "descr S' b = Some bl'" "bl_name bl' = bl_name bl" "bl_type bl' = bl_type bl"
      "bl_size bl' = bl_size bl" "bl_driver bl' = bl_driver bl"
    using shape_descr [of S' S b bl] part.hyps(1) S'(2) by (auto simp: same_shape_def)
  have "shape (S'\<lparr>descr := (descr S')(b \<mapsto> bl\<lparr>read_cnt := read_cnt bl + 1\<rparr>)\<rparr>) = shape S"
    using shape_update [OF bl'(1), of "bl\<lparr>read_cnt := read_cnt bl + 1\<rparr>"] bl' S'(2) by (simp add: same_shape_def)
  then show ?case
    using part.hyps(1,2) s S' by (subst block_read.simps) (simp add: check_sector_def same_shape_def)
qed

lemma block_write_dev:
  "dev_at S b d off \<Longrightarrow> s < dev_size S b \<Longrightarrow>
     \<exists>S'. block_write S b s buf = Some S' \<and> same_shape S S'
       \<and> media S' = (media S)(d := (media S d)(off + s := buf))"
proof (induction arbitrary: s rule: dev_at.induct)
  case (disk S b bl)
  then show ?case
    by (subst block_write.simps) (simp add: dev_size_def check_sector_def same_shape_def, auto simp: shape_def fun_eq_iff)
next
  case (part S b bl p start pl d off)
  have s: "s < bl_size bl" using part by (simp add: dev_size_def)
  then have "start + s < dev_size S p"
    using unat_add_range(2) [OF part.hyps(5) s] part.hyps(4) by (simp add: dev_size_def)
  then obtain S' where S': "block_write S p (start + s) buf = Some S'" "same_shape S S'"
      "media S' = (media S)(d := (media S d)(off + start + s := buf))"
    using part.IH [of "start + s"] unfolding add.assoc by blast
  obtain bl' where bl': "descr S' b = Some bl'" "bl_name bl' = bl_name bl" "bl_type bl' = bl_type bl"
      "bl_size bl' = bl_size bl" "bl_driver bl' = bl_driver bl"
    using shape_descr [of S' S b bl] part.hyps(1) S'(2) by (auto simp: same_shape_def)
  have "shape (S'\<lparr>descr := (descr S')(b \<mapsto> bl\<lparr>write_cnt := write_cnt bl + 1\<rparr>)\<rparr>) = shape S"
    using shape_update [OF bl'(1), of "bl\<lparr>write_cnt := write_cnt bl + 1\<rparr>"] bl' S'(2) by (simp add: same_shape_def)
  then show ?case
    using part.hyps(1,2,3) s S' by (subst block_write.simps) (simp add: check_sector_def same_shape_def)
qed

section \<open>Devices as sector stores\<close>

definition dev_holds :: "nat \<Rightarrow> nat \<Rightarrow> block_sector_t \<Rightarrow> block_sector_t \<Rightarrow> blocks \<Rightarrow> (block_sector_t \<Rightarrow> byte list) \<Rightarrow> bool" where
  "dev_holds b d off n S c \<longleftrightarrow> dev_at S b d off \<and> dev_size S b = n \<and> (\<forall>s < n. c s = media S d (off + s))"

interpretation bd: sector_device "\<lambda>S s. block_read S b s" "\<lambda>S s buf. block_write S b s buf" n
    "dev_holds b d off n" for b d off n
proof
  fix S c s
  assume h: "dev_holds b d off n S c" and s: "s < n"
  then obtain S' where S': "block_read S b s = Some (S', media S d (off + s))" "same_shape S S'" "media S' = media S"
    using block_read_dev [of S b d off s] by (auto simp: dev_holds_def)
  moreover have "dev_holds b d off n S' c"
    using h S'(2,3) dev_at_shape [of S b d off S'] dev_size_shape [of S' S b d off]
    by (simp add: dev_holds_def same_shape_def)
  ultimately show "\<exists>S'. block_read S b s = Some (S', c s) \<and> dev_holds b d off n S' c"
    using h s by (simp add: dev_holds_def)
next
  fix S c s buf
  assume h: "dev_holds b d off n S c" and s: "s < n"
  then obtain S' where S': "block_write S b s buf = Some S'" "same_shape S S'"
      "media S' = (media S)(d := (media S d)(off + s := buf))"
    using block_write_dev [of S b d off s buf] by (auto simp: dev_holds_def)
  moreover have "dev_holds b d off n S' (c(s := buf))"
    using h S'(2,3) dev_at_shape [of S b d off S'] dev_size_shape [of S' S b d off]
    by (simp add: dev_holds_def same_shape_def)
  ultimately show "\<exists>S'. block_write S b s buf = Some S' \<and> dev_holds b d off n S' (c(s := buf))"
    by blast
qed

section \<open>Partition tables\<close>

lemma block_register_descr:
  assumes "block_register S name type size' ops = Some (S', p)"
  shows "p = bl_next_id S \<and> bl_next_id S' = Suc p \<and> media S' = media S \<and> all_blocks S' = all_blocks S @ [p]
    \<and> descr S' = (descr S)(p \<mapsto> \<lparr>bl_name = take 15 name, bl_type = type, bl_size = size', bl_driver = ops,
        read_cnt = 0, write_cnt = 0\<rparr>)"
  using assms by (auto simp: block_register_def bl_malloc_def Let_def split: list.splits if_splits)

text \<open>A descriptor in an unused slot changes no device.\<close>

lemma dev_at_fresh:
  assumes "dev_at S b d off" and "descr S p = None" and "descr S' = (descr S)(p \<mapsto> nb)"
  shows "dev_at S' b d off"
  using assms
proof (induction rule: dev_at.induct)
  case (disk S b bl)
  then have "descr S' b = Some bl" by auto
  then show ?case by (rule dev_at.disk) (use disk in simp_all)
next
  case (part S b bl q start pl d off)
  then have "descr S' b = Some bl" "descr S' q = Some pl" by auto
  then show ?case by (intro dev_at.part [of S' b bl q start pl d off]) (use part in simp_all)
qed

lemma found_partition_cases:
  assumes "descr S b = Some bl" and "found_partition S b part_type start size' nr = Some S'"
  shows "if start < bl_size bl \<and> unat start + unat size' \<le> unat (bl_size bl)
     then let p = bl_next_id S in bl_next_id S' = Suc p \<and> media S' = media S \<and> all_blocks S' = all_blocks S @ [p]
       \<and> descr S' = (descr S)(p \<mapsto> \<lparr>bl_name = take 15 (bl_name bl @ dec nr), bl_type = partition_block_type part_type,
           bl_size = size', bl_driver = Partition b start, read_cnt = 0, write_cnt = 0\<rparr>)
     else S' = S"
proof -
  have fits: "\<not> (start + size' < start \<or> start + size' > bl_size bl) \<longleftrightarrow> unat start + unat size' \<le> unat (bl_size bl)"
    using unat_less_2p [of start] unat_less_2p [of size'] unat_less_2p [of "bl_size bl"]
    by (auto simp: word_less_nat_alt unat_plus_if')
  show ?thesis
  proof (cases "start < bl_size bl \<and> unat start + unat size' \<le> unat (bl_size bl)")
    case True
    obtain S1 ok where S1: "bl_malloc S = (S1, ok)" by (cases "bl_malloc S")
    then have eq: "descr S1 = descr S" "media S1 = media S" "bl_next_id S1 = bl_next_id S" "all_blocks S1 = all_blocks S"
      by (auto simp: bl_malloc_def split: list.splits)
    obtain p where p: "block_register S1 (take 15 (bl_name bl @ dec nr)) (partition_block_type part_type) size' (Partition b start)
        = Some (S', p)"
      using assms True fits S1
      by (auto simp: found_partition_def block_size_def not_le Let_def split: if_splits elim!: bind_SomeE)
    show ?thesis using block_register_descr [OF p] True eq by (simp add: Let_def del: take_append)
  next
    case False
    then show ?thesis using assms fits
      by (auto simp: found_partition_def block_size_def not_le split: if_splits)
  qed
qed

subsection \<open>What a scan keeps\<close>

text \<open>Scanning device \<^verbatim>\<open>b\<close> keeps the device, its size and the contents of the disks, and the identifiers not yet given out
  stay unused.\<close>

definition scan_keeps :: "nat \<Rightarrow> nat \<Rightarrow> block_sector_t \<Rightarrow> blocks \<Rightarrow> blocks \<Rightarrow> bool" where
  "scan_keeps b d off S S' \<longleftrightarrow> dev_at S' b d off \<and> media S' = media S \<and> dev_size S' b = dev_size S b
     \<and> (\<forall>i \<ge> bl_next_id S'. descr S' i = None)"

lemma scan_keeps_trans: "scan_keeps b d off S S' \<Longrightarrow> scan_keeps b d off S' S'' \<Longrightarrow> scan_keeps b d off S S''"
  by (simp add: scan_keeps_def)

lemma scan_keeps_self: "scan_keeps b d off S S' \<Longrightarrow> scan_keeps b d off S' S'"
  by (simp add: scan_keeps_def)

lemma found_partition_keeps:
  assumes "scan_keeps b d off S S" and "found_partition S b part_type start size' nr = Some S'"
  shows "scan_keeps b d off S S'"
proof -
  have S: "dev_at S b d off" "\<forall>i \<ge> bl_next_id S. descr S i = None" using assms(1) by (auto simp: scan_keeps_def)
  obtain bl where bl: "descr S b = Some bl" using dev_at_descr [OF S(1)] by blast
  have ne: "b \<noteq> bl_next_id S" using bl S(2) by auto
  show ?thesis
  proof (cases "S' = S")
    case False
    then obtain nb where nb: "descr S' = (descr S)(bl_next_id S \<mapsto> nb)" "bl_next_id S' = Suc (bl_next_id S)" "media S' = media S"
      using found_partition_cases [OF bl assms(2)] by (auto simp: Let_def split: if_splits)
    then show ?thesis using dev_at_fresh [OF S(1) _ nb(1)] S(2) ne by (simp add: scan_keeps_def dev_size_def)
  qed (use assms(1) in simp)
qed

lemma parse_partitions_append:
  "parse_partitions rec b sector prim (xs @ ys) S nr =
     Option.bind (parse_partitions rec b sector prim xs S nr) (\<lambda>(S, nr). parse_partitions rec b sector prim ys S nr)"
  by (induction rec b sector prim xs S nr rule: parse_partitions.induct) (auto simp: Let_def split: bind_splits)

lemma parse_partitions_keeps:
  assumes "\<forall>S sector prim nr S' nr'. scan_keeps b d off S S \<longrightarrow> rec S sector prim nr = Some (S', nr') \<longrightarrow> scan_keeps b d off S S'"
    and "scan_keeps b d off S S" and "parse_partitions rec b sector prim es S nr = Some (S', nr')"
  shows "scan_keeps b d off S S'"
  using assms(2,3)
proof (induction es arbitrary: S nr)
  case (Cons e es)
  consider (skip) "pe_size e = 0 \<or> pe_type e = 0"
    | (ext) sec pr S1 nr1 where "rec S sec pr nr = Some (S1, nr1)" "parse_partitions rec b sector prim es S1 nr1 = Some (S', nr')"
    | (found) S1 where "found_partition S b (pe_type e) (pe_offset e + sector) (pe_size e) (nr + 1) = Some S1"
        "parse_partitions rec b sector prim es S1 (nr + 1) = Some (S', nr')"
    using Cons.prems(2) by (auto simp: Let_def split: if_splits elim!: bind_SomeE)
  then show ?case
  proof cases
    case skip
    then show ?thesis using Cons by simp
  next
    case ext
    then have "scan_keeps b d off S S1" using assms(1) Cons.prems(1) by blast
    then show ?thesis using Cons.IH [OF scan_keeps_self ext(2)] scan_keeps_trans by blast
  next
    case found
    then have "scan_keeps b d off S S1" using found_partition_keeps Cons.prems(1) by blast
    then show ?thesis using Cons.IH [OF scan_keeps_self found(2)] scan_keeps_trans by blast
  qed
qed simp

text \<open>Past the check of its arguments, one activation is the parse of the table in sector 0.\<close>

lemma read_partition_table_step:
  assumes "scan_keeps b d off S S" and "sector < dev_size S b"
  shows "\<exists>S2. scan_keeps b d off S S2 \<and> read_partition_table (Suc n) b S sector prim nr =
    (if \<not> snd (bl_malloc S) then None
     else if table_signature (media S d off) \<noteq> 0xaa55 then Some (S2, nr)
     else parse_partitions (read_partition_table n b) b sector prim (map (table_entry (media S d off)) [0..<4]) S2 nr)"
proof -
  have dev: "dev_at S b d off" using assms(1) by (simp add: scan_keeps_def)
  obtain bl where bl: "descr S b = Some bl" using dev_at_descr [OF dev] by blast
  obtain S1 ok where S1: "bl_malloc S = (S1, ok)" by (cases "bl_malloc S")
  then have eq: "descr S1 = descr S" "media S1 = media S" "bl_next_id S1 = bl_next_id S"
    by (auto simp: bl_malloc_def split: list.splits)
  then have dev1: "dev_at S1 b d off" "dev_size S1 b = dev_size S b"
    using dev_at_shape [OF dev, of S1] by (simp_all add: shape_def fun_eq_iff dev_size_def)
  have "0 < dev_size S1 b" using assms(2) dev1(2) by (auto simp: word_less_nat_alt)
  then obtain S2 where S2: "block_read S1 b 0 = Some (S2, media S d off)" "same_shape S1 S2" "media S2 = media S"
    using block_read_dev [OF dev1(1), of 0] eq(2) by auto
  have dev2: "dev_at S2 b d off" "dev_size S2 b = dev_size S b"
    using dev_at_shape [OF dev1(1), of S2] dev_size_shape [of S2 S1 b d off] dev1 S2(2) by (simp_all add: same_shape_def)
  have "descr S2 i = None" if "descr S1 i = None" for i
    using S2(2) that by (auto simp: same_shape_def shape_def fun_eq_iff dest: spec [of _ i])
  then have "scan_keeps b d off S S2"
    using dev2 S2 eq assms(1) by (simp add: scan_keeps_def same_shape_def)
  then show ?thesis
    using bl S1 S2(1) assms(2) by (intro exI [of _ S2]) (auto simp: block_size_def dev_size_def leD)
qed

lemma read_partition_table_keeps:
  "scan_keeps b d off S S \<Longrightarrow> read_partition_table n b S sector prim nr = Some (S', nr') \<Longrightarrow> scan_keeps b d off S S'"
proof (induction n arbitrary: S sector prim nr S' nr')
  case (Suc n)
  obtain bl where bl: "descr S b = Some bl" using Suc.prems(1) dev_at_descr [of S b d off] by (auto simp: scan_keeps_def)
  show ?case
  proof (cases "sector < dev_size S b")
    case True
    obtain S2 where S2: "scan_keeps b d off S S2" "read_partition_table (Suc n) b S sector prim nr =
        (if \<not> snd (bl_malloc S) then None
         else if table_signature (media S d off) \<noteq> 0xaa55 then Some (S2, nr)
         else parse_partitions (read_partition_table n b) b sector prim (map (table_entry (media S d off)) [0..<4]) S2 nr)"
      using read_partition_table_step [OF Suc.prems(1) True] by blast
    have rec: "\<forall>S sector prim nr S' nr'. scan_keeps b d off S S \<longrightarrow> read_partition_table n b S sector prim nr = Some (S', nr')
        \<longrightarrow> scan_keeps b d off S S'"
      using Suc.IH by blast
    consider "S' = S2" | "parse_partitions (read_partition_table n b) b sector prim (map (table_entry (media S d off)) [0..<4])
        S2 nr = Some (S', nr')"
      using Suc.prems(2) S2(2) by (auto split: if_splits simp del: read_partition_table.simps)
    then show ?thesis
      using S2(1) parse_partitions_keeps [OF rec scan_keeps_self [OF S2(1)]] scan_keeps_trans by cases blast+
  next
    case False
    then have "S' = S" using Suc.prems(2) bl by (auto simp: block_size_def dev_size_def not_less)
    then show ?thesis using Suc.prems(1) by simp
  qed
qed simp

text \<open>Whatever the entries before it do, a table with the extended entry \<^verbatim>\<open>e\<close> does not return when the call for \<^verbatim>\<open>e\<close> does
  not.\<close>

lemma extended_step:
  assumes inv: "scan_keeps b d off S S" and sig: "table_signature (media S d off) = 0xaa55"
    and i: "i < 4" and e: "table_entry (media S d off) i = e" "pe_size e \<noteq> 0" "is_extended (pe_type e)"
    and sector: "sector < dev_size S b"
    and nested: "\<And>S' nr. scan_keeps b d off S S' \<Longrightarrow>
      (if sector = 0 then read_partition_table n b S' (pe_offset e) (pe_offset e) nr
       else read_partition_table n b S' (pe_offset e + prim) prim nr) = None"
  shows "read_partition_table (Suc n) b S sector prim nr = None"
proof -
  let ?parse = "parse_partitions (read_partition_table n b) b sector prim" and ?E = "table_entry (media S d off)"
  have rec: "\<forall>S sector prim nr S' nr'. scan_keeps b d off S S \<longrightarrow> read_partition_table n b S sector prim nr = Some (S', nr')
      \<longrightarrow> scan_keeps b d off S S'"
    using read_partition_table_keeps by blast
  have ty: "pe_type e \<noteq> 0" using e(3) by (auto simp: is_extended_def)
  obtain S2 where S2: "scan_keeps b d off S S2" "read_partition_table (Suc n) b S sector prim nr =
      (if \<not> snd (bl_malloc S) then None else ?parse (map ?E [0..<4]) S2 nr)"
    using read_partition_table_step [OF inv sector, of n prim nr] sig by auto
  have "[0..<4] = [0..<i] @ i # [Suc i..<4]" using i upt_add_eq_append [of 0 i "4 - i"] upt_conv_Cons [of i 4] by simp
  then have split: "map ?E [0..<4] = map ?E [0..<i] @ e # map ?E [Suc i..<4]" using e(1) by simp
  have "?parse (e # es) S1 nr1 = None" if "scan_keeps b d off S S1" for es S1 nr1
    using nested [OF that, of nr1] e(2,3) ty by (auto split: if_splits)
  moreover have "scan_keeps b d off S S1" if "?parse (map ?E [0..<i]) S2 nr = Some (S1, nr1)" for S1 nr1
    using parse_partitions_keeps [OF rec scan_keeps_self [OF S2(1)] that] S2(1) scan_keeps_trans by blast
  ultimately have "?parse (map ?E [0..<4]) S2 nr = None"
    unfolding split parse_partitions_append by (auto simp del: parse_partitions.simps split: bind_splits)
  then show ?thesis using S2(2) by simp
qed

text \<open>A nested call reads sector 0 again, so it finds the same entry; from the third activation on it calls itself with the
  same arguments.\<close>

lemma extended_loops:
  assumes "scan_keeps b d off S S" and "table_signature (media S d off) = 0xaa55" and "i < 4"
    and "table_entry (media S d off) i = e" "pe_size e \<noteq> 0" "is_extended (pe_type e)"
    and "pe_offset e < dev_size S b" "pe_offset e + pe_offset e < dev_size S b"
    and "sector = 0 \<or> prim = pe_offset e \<and> (sector = pe_offset e \<or> sector = pe_offset e + pe_offset e)"
  shows "read_partition_table n b S sector prim nr = None"
  using assms
proof (induction n arbitrary: S sector prim nr)
  case (Suc n)
  have lt: "sector < dev_size S b"
    using Suc.prems(7-9) by (auto simp: word_less_nat_alt)
  show ?case
  proof (rule extended_step [OF Suc.prems(1-6) lt])
    fix S' nr
    assume S': "scan_keeps b d off S S'"
    have eq: "media S' = media S" "dev_size S' b = dev_size S b" using S' by (simp_all add: scan_keeps_def)
    have *: "read_partition_table n b S' sec (pe_offset e) nr = None"
      if "sec = pe_offset e \<or> sec = pe_offset e + pe_offset e" for sec
      using scan_keeps_self [OF S'] Suc.prems(2-8) that by (intro Suc.IH) (simp_all add: eq)
    show "(if sector = 0 then read_partition_table n b S' (pe_offset e) (pe_offset e) nr
        else read_partition_table n b S' (pe_offset e + prim) prim nr) = None"
      using * Suc.prems(9) by (auto simp del: mult_2 mult_2_right)
  qed
qed simp

section \<open>Properties\<close>

text \<open>C10. A sector written through a partition (or a disk) reads back as written; no sector of another device on the same
  disk whose range does not overlap changes, however deeply the partitions are nested.\<close>

theorem partitions_isolated:
  assumes "dev_at S b d off" and "s < dev_size S b"
    and "dev_at S b' d off'" and "t < dev_size S b'"
    and "unat off + unat (dev_size S b) \<le> unat off' \<or> unat off' + unat (dev_size S b') \<le> unat off"
  shows "\<exists>S1 S2 S3 S4 x. block_write S b s buf = Some S1 \<and> block_read S1 b s = Some (S2, buf)
      \<and> block_read S b' t = Some (S3, x) \<and> block_read S1 b' t = Some (S4, x)"
proof -
  obtain S1 where S1: "block_write S b s buf = Some S1" "same_shape S S1"
      "media S1 = (media S)(d := (media S d)(off + s := buf))"
    using block_write_dev [OF assms(1,2)] by blast
  have dev1: "dev_at S1 b d off" "dev_size S1 b = dev_size S b" "dev_at S1 b' d off'" "dev_size S1 b' = dev_size S b'"
    using S1(2) dev_at_shape [OF assms(1), of S1] dev_at_shape [OF assms(3), of S1]
      dev_size_shape [OF _ assms(1), of S1] dev_size_shape [OF _ assms(3), of S1]
    by (simp_all add: same_shape_def)
  have "off + s \<noteq> off' + t"
    using dev_sector_unat [OF assms(1,2)] dev_sector_unat [OF assms(3,4)] assms(2,4,5)
    by (auto simp: word_less_nat_alt dest: arg_cong [of _ _ unat])
  then show ?thesis
    using S1 block_read_dev [OF dev1(1), of s] block_read_dev [OF dev1(3), of t] block_read_dev [OF assms(3,4)] dev1 assms(2,4)
    by auto
qed

text \<open>C32. A table entry, of whatever type, becomes a device exactly when it lies inside the scanned device: a new descriptor
  for its sectors, with every sector it can be asked for inside the scanned device, beside the unchanged old ones. When the
  type is one of the kernel's own, the new device is that range of the disk, to read and to write (a foreign one is
  refused by \<^verbatim>\<open>block_write\<close>). An entry outside changes nothing.\<close>

theorem found_partition_in_range:
  assumes "dev_at S b d off" and "descr S (bl_next_id S) = None"
    and "found_partition S b part_type start size' nr = Some S'"
  shows "if start < dev_size S b \<and> unat start + unat size' \<le> unat (dev_size S b)
     then \<exists>p nb. descr S p = None \<and> descr S' = (descr S)(p \<mapsto> nb) \<and> all_blocks S' = all_blocks S @ [p] \<and> media S' = media S
       \<and> bl_driver nb = Partition b start \<and> bl_size nb = size' \<and> bl_type nb = partition_block_type part_type
       \<and> (\<forall>t. t < size' \<longrightarrow> start + t < dev_size S b \<and> unat (start + t) = unat start + unat t)
       \<and> (if bl_type nb = BLOCK_FOREIGN then \<forall>s buf. block_write S' p s buf = None else dev_at S' p d (off + start))
     else S' = S"
proof -
  obtain bl where bl: "descr S b = Some bl" using dev_at_descr [OF assms(1)] by blast
  let ?p = "bl_next_id S" and ?fits = "start < bl_size bl \<and> unat start + unat size' \<le> unat (bl_size bl)"
  note cases = found_partition_cases [OF bl assms(3)]
  show ?thesis
  proof (cases ?fits)
    case True
    then obtain nb where nb: "descr S' = (descr S)(?p \<mapsto> nb)" "all_blocks S' = all_blocks S @ [?p]" "media S' = media S"
        "bl_driver nb = Partition b start" "bl_size nb = size'" "bl_type nb = partition_block_type part_type"
      using cases by (simp add: Let_def)
    have bl': "descr S' b = Some bl" "descr S' ?p = Some nb" using bl nb(1) assms(2) by auto
    have range: "start + t < bl_size bl \<and> unat (start + t) = unat start + unat t" if "t < size'" for t
      using unat_add_range [of start size' "bl_size bl" t] True that by (simp add: word_less_nat_alt)
    have dev: "dev_at S' ?p d (off + start)" if "bl_type nb \<noteq> BLOCK_FOREIGN"
      using dev_at.part [OF bl'(2) nb(4) that bl'(1) _ dev_at_fresh [OF assms(1,2) nb(1)]] True nb(5) by simp
    have foreign: "block_write S' ?p s buf = None" if "bl_type nb = BLOCK_FOREIGN" for s buf
      using bl'(2) that by (subst block_write.simps) (simp add: check_sector_def)
    show ?thesis
      using True bl nb range dev foreign assms(2)
      by (simp add: dev_size_def) (intro exI [of _ ?p] exI [of _ nb] conjI; simp)
  next
    case False
    then show ?thesis using cases bl by (auto simp: dev_size_def)
  qed
qed

text \<open>C33. Scanning a disk with an extended partition in the first half of it, in any of the four table entries and whatever
  the others hold, never returns, whatever the depth of the kernel stack: \<^verbatim>\<open>read_partition_table\<close> reads sector 0 instead of
  \<^verbatim>\<open>sector\<close> and finds the same entry again.\<close>

theorem extended_partition_scan_diverges:
  assumes "dev_at S b d off" and "\<forall>id \<ge> bl_next_id S. descr S id = None" and "table_signature (media S d off) = 0xaa55"
    and "i < 4" and "table_entry (media S d off) i = e" and "pe_size e \<noteq> 0" and "is_extended (pe_type e)"
    and "2 * unat (pe_offset e) < unat (dev_size S b)"
  shows "partition_scan stack S b = None"
proof -
  have "unat (pe_offset e + pe_offset e) = 2 * unat (pe_offset e)"
    using assms(8) unat_less_2p [of "dev_size S b"] unat_plus_if' [of "pe_offset e" "pe_offset e"] by simp
  then have "pe_offset e + pe_offset e < dev_size S b" "pe_offset e < dev_size S b"
    using assms(8) by (auto simp: word_less_nat_alt)
  then have "read_partition_table stack b S 0 0 0 = None"
    using assms(1-7) by (intro extended_loops [of b d off S i e]) (simp_all add: scan_keeps_def)
  then show ?thesis by (simp add: partition_scan_def)
qed

text \<open>C39. \<^verbatim>\<open>block_print_stats\<close> reads past the end of the array of roles on every call.\<close>

theorem block_print_stats_out_of_bounds:
  assumes "length (block_by_role S) = BLOCK_ROLE_CNT"
  shows "block_print_stats S = None"
proof -
  have "print_stats_loop S (is @ [4, 5]) = None" for "is"
    using assms by (induction "is") (auto simp: BLOCK_ROLE_CNT_def split: option.splits)
  moreover have "[0..<BLOCK_CNT] = [0, 1, 2, 3] @ [4, 5]"
    by (simp add: BLOCK_CNT_def upt_rec)
  ultimately show ?thesis unfolding block_print_stats_def by metis
qed

section \<open>Concrete instances\<close>

text \<open>A disk of 1000 sectors (device 0) with the partitions 10--109 (device 1) and 110--159 (device 2); its first
  sector is a partition table whose first entry is a swap partition and whose second is an extended partition at sector 100.\<close>

definition ex_table :: "byte list" where
  "ex_table = replicate 446 0 @ [0, 0, 0, 0, 0x23, 0, 0, 0] @ le32 200 @ le32 300
     @ [0, 0, 0, 0, 5, 0, 0, 0] @ le32 100 @ le32 50 @ replicate 32 0 @ [0x55, 0xaa]"

definition ex_blocks :: blocks where
  "ex_blocks = \<lparr>descr = (\<lambda>_. None)
      (0 := Some \<lparr>bl_name = ''hda'', bl_type = BLOCK_RAW, bl_size = 1000, bl_driver = Ide, read_cnt = 0, write_cnt = 0\<rparr>,
       1 := Some \<lparr>bl_name = ''hda1'', bl_type = BLOCK_FILESYS, bl_size = 100, bl_driver = Partition 0 10, read_cnt = 0, write_cnt = 0\<rparr>,
       2 := Some \<lparr>bl_name = ''hda2'', bl_type = BLOCK_SWAP, bl_size = 50, bl_driver = Partition 0 110, read_cnt = 0, write_cnt = 0\<rparr>),
     all_blocks = [0, 1, 2], block_by_role = [None, Some 1, None, Some 2],
     media = (\<lambda>d s. if s = 0 then ex_table else replicate 512 0), bl_next_id = 3, bl_mallocs = []\<rparr>"

lemma ex_unused: "\<forall>id \<ge> bl_next_id ex_blocks. descr ex_blocks id = None"
  by (simp add: ex_blocks_def)

lemma ex_dev_0: "dev_at ex_blocks 0 0 0"
  by (rule dev_at.disk, simp add: ex_blocks_def, simp_all)

lemma ex_dev_1: "dev_at ex_blocks 1 0 10"
  using dev_at.part [of ex_blocks 1 "the (descr ex_blocks 1)" 0 10 "the (descr ex_blocks 0)" 0 0] ex_dev_0
  by (simp add: ex_blocks_def)

lemma ex_dev_2: "dev_at ex_blocks 2 0 110"
  using dev_at.part [of ex_blocks 2 "the (descr ex_blocks 2)" 0 110 "the (descr ex_blocks 0)" 0 0] ex_dev_0
  by (simp add: ex_blocks_def)

lemma ex_dev_sizes [simp]: "dev_size ex_blocks 0 = 1000" "dev_size ex_blocks (Suc 0) = 100" "dev_size ex_blocks 2 = 50"
  by (simp_all add: dev_size_def ex_blocks_def)

lemma ex_media [simp]: "media ex_blocks 0 0 = ex_table"
  by (simp add: ex_blocks_def)

theorem partitions_isolated_witness:
  "\<exists>S1 S2 S3 S4 x. block_write ex_blocks 1 99 (replicate 512 7) = Some S1 \<and> block_read S1 1 99 = Some (S2, replicate 512 7)
      \<and> block_read ex_blocks 2 0 = Some (S3, x) \<and> block_read S1 2 0 = Some (S4, x)"
  by (rule partitions_isolated [OF ex_dev_1 _ ex_dev_2]) simp_all

theorem found_partition_in_range_witness:
  "\<exists>S'. found_partition ex_blocks 0 0x23 200 300 3 = Some S'
    \<and> (if (200 :: block_sector_t) < dev_size ex_blocks 0 \<and> unat (200 :: block_sector_t) + unat (300 :: block_sector_t) \<le> unat (dev_size ex_blocks 0)
       then \<exists>p nb. descr ex_blocks p = None \<and> descr S' = (descr ex_blocks)(p \<mapsto> nb) \<and> all_blocks S' = all_blocks ex_blocks @ [p]
         \<and> media S' = media ex_blocks
         \<and> bl_driver nb = Partition 0 200 \<and> bl_size nb = 300 \<and> bl_type nb = partition_block_type 0x23
         \<and> (\<forall>t. t < 300 \<longrightarrow> 200 + t < dev_size ex_blocks 0 \<and> unat (200 + t) = unat (200 :: block_sector_t) + unat t)
         \<and> (if bl_type nb = BLOCK_FOREIGN then \<forall>s buf. block_write S' p s buf = None else dev_at S' p 0 (0 + 200))
       else S' = ex_blocks)"
proof -
  obtain S' where S': "found_partition ex_blocks 0 0x23 200 300 3 = Some S'"
    by (simp add: found_partition_def block_register_def bl_malloc_def block_size_def Let_def ex_blocks_def)
  show ?thesis
    by (intro exI [of _ S'] conjI S' found_partition_in_range [OF ex_dev_0 _ S'])
      (simp add: ex_blocks_def)
qed

theorem extended_partition_scan_diverges_witness: "partition_scan 100 ex_blocks 0 = None"
  by (rule extended_partition_scan_diverges [OF ex_dev_0 ex_unused, of 1 "\<lparr>pe_type = 5, pe_offset = 100, pe_size = 50\<rparr>"])
    (simp_all add: ex_table_def table_signature_def table_entry_def of_le16_def is_extended_def)

theorem block_print_stats_out_of_bounds_witness: "block_print_stats ex_blocks = None"
  by (rule block_print_stats_out_of_bounds) (simp add: ex_blocks_def BLOCK_ROLE_CNT_def)

end
