(* ===== verification/Bitmap.thy ===== *)
theory Bitmap
  imports Interfaces
begin

text \<open>
  The bitmaps of \<^verbatim>\<open>src/src/lib/kernel/bitmap.c\<close>, over 32-bit elements and 32-bit \<^verbatim>\<open>size_t\<close> indices,
  refined to lists of booleans.  A bitmap is passed by value, so the assertions \<^verbatim>\<open>b != NULL\<close> hold by
  construction; an access outside the element array is \<open>None\<close>.
\<close>

unbundle bit_operations_syntax

section \<open>Representation\<close>

type_synonym size_t = "32 word"
type_synonym elem_type = "32 word"

record bitmap =
  bit_cnt :: size_t
  bits :: "elem_type list"

definition ELEM_BITS :: size_t where
  "ELEM_BITS = 4 * 8"

definition BITMAP_ERROR :: size_t where
  "BITMAP_ERROR = - 1"

definition elem_idx :: "size_t \<Rightarrow> size_t" where
  "elem_idx bit_idx = bit_idx div ELEM_BITS"

definition bit_mask :: "size_t \<Rightarrow> elem_type" where
  "bit_mask bit_idx = push_bit (unat (bit_idx mod ELEM_BITS)) 1"

definition elem_cnt :: "size_t \<Rightarrow> size_t" where
  "elem_cnt cnt = (cnt + ELEM_BITS - 1) div ELEM_BITS"

definition byte_cnt :: "size_t \<Rightarrow> size_t" where
  "byte_cnt cnt = 4 * elem_cnt cnt"

definition last_mask :: "bitmap \<Rightarrow> elem_type" where
  "last_mask b = (let last_bits = bit_cnt b mod ELEM_BITS in
     if last_bits \<noteq> 0 then push_bit (unat last_bits) 1 - 1 else - 1)"

definition bitmap_size :: "bitmap \<Rightarrow> size_t" where
  "bitmap_size b = bit_cnt b"

definition bitmap_buf_size :: "size_t \<Rightarrow> size_t" where
  "bitmap_buf_size cnt = 8 + byte_cnt cnt"

section \<open>Single bits\<close>

text \<open>The read-modify-write instructions: \<^verbatim>\<open>b->bits[idx] = f (b->bits[idx])\<close>.\<close>

definition upd_elem :: "bitmap \<Rightarrow> size_t \<Rightarrow> (elem_type \<Rightarrow> elem_type) \<Rightarrow> bitmap option" where
  "upd_elem b idx f = (if unat idx < length (bits b)
     then Some (b\<lparr>bits := (bits b)[unat idx := f (bits b ! unat idx)]\<rparr>) else None)"

definition bitmap_mark :: "bitmap \<Rightarrow> size_t \<Rightarrow> bitmap option" where
  "bitmap_mark b bit_idx = (let idx = elem_idx bit_idx; mask = bit_mask bit_idx in
     upd_elem b idx (\<lambda>e. e OR mask))"

definition bitmap_reset :: "bitmap \<Rightarrow> size_t \<Rightarrow> bitmap option" where
  "bitmap_reset b bit_idx = (let idx = elem_idx bit_idx; mask = bit_mask bit_idx in
     upd_elem b idx (\<lambda>e. e AND NOT mask))"

definition bitmap_flip :: "bitmap \<Rightarrow> size_t \<Rightarrow> bitmap option" where
  "bitmap_flip b bit_idx = (let idx = elem_idx bit_idx; mask = bit_mask bit_idx in
     upd_elem b idx (\<lambda>e. e XOR mask))"

definition bitmap_set :: "bitmap \<Rightarrow> size_t \<Rightarrow> bool \<Rightarrow> bitmap option" where
  "bitmap_set b idx value = do {
     ASSERT (idx < bit_cnt b);
     if value then bitmap_mark b idx else bitmap_reset b idx
   }"

definition bitmap_test :: "bitmap \<Rightarrow> size_t \<Rightarrow> bool option" where
  "bitmap_test b idx = do {
     ASSERT (idx < bit_cnt b);
     if unat (elem_idx idx) < length (bits b)
     then Some (bits b ! unat (elem_idx idx) AND bit_mask idx \<noteq> 0) else None
   }"

section \<open>Multiple bits\<close>

definition bitmap_set_multiple :: "bitmap \<Rightarrow> size_t \<Rightarrow> size_t \<Rightarrow> bool \<Rightarrow> bitmap option" where
  "bitmap_set_multiple b start cnt value = do {
     ASSERT (start \<le> bit_cnt b);
     ASSERT (start + cnt \<le> bit_cnt b);
     for_loop 0 cnt (\<lambda>i b. bitmap_set b (start + i) value) b
   }"

definition bitmap_set_all :: "bitmap \<Rightarrow> bool \<Rightarrow> bitmap option" where
  "bitmap_set_all b value = bitmap_set_multiple b 0 (bitmap_size b) value"

definition bitmap_count :: "bitmap \<Rightarrow> size_t \<Rightarrow> size_t \<Rightarrow> bool \<Rightarrow> size_t option" where
  "bitmap_count b start cnt value = do {
     ASSERT (start \<le> bit_cnt b);
     ASSERT (start + cnt \<le> bit_cnt b);
     for_loop 0 cnt (\<lambda>i value_cnt. do {
       t \<leftarrow> bitmap_test b (start + i);
       Some (if t = value then value_cnt + 1 else value_cnt)
     }) 0
   }"

definition bitmap_contains :: "bitmap \<Rightarrow> size_t \<Rightarrow> size_t \<Rightarrow> bool \<Rightarrow> bool option" where
  "bitmap_contains b start cnt value = do {
     ASSERT (start \<le> bit_cnt b);
     ASSERT (start + cnt \<le> bit_cnt b);
     r \<leftarrow> for_ret 0 cnt (\<lambda>i. do {
       t \<leftarrow> bitmap_test b (start + i);
       Some (if t = value then Some True else None)
     });
     Some (case r of Some v \<Rightarrow> v | None \<Rightarrow> False)
   }"

definition bitmap_any :: "bitmap \<Rightarrow> size_t \<Rightarrow> size_t \<Rightarrow> bool option" where
  "bitmap_any b start cnt = bitmap_contains b start cnt True"

definition bitmap_none :: "bitmap \<Rightarrow> size_t \<Rightarrow> size_t \<Rightarrow> bool option" where
  "bitmap_none b start cnt = map_option Not (bitmap_contains b start cnt True)"

definition bitmap_all :: "bitmap \<Rightarrow> size_t \<Rightarrow> size_t \<Rightarrow> bool option" where
  "bitmap_all b start cnt = map_option Not (bitmap_contains b start cnt False)"

text \<open>The scan loop \<^verbatim>\<open>for (i = start; i <= last; i++)\<close>; \<^verbatim>\<open>i++\<close> may wrap around when \<open>last\<close> is
  \<^verbatim>\<open>SIZE_MAX\<close>, so its termination is a theorem below, not part of the definition.\<close>

partial_function (option) scan_loop :: "bitmap \<Rightarrow> size_t \<Rightarrow> size_t \<Rightarrow> size_t \<Rightarrow> bool \<Rightarrow> size_t option" where
  "scan_loop b i last' cnt value =
     (if i \<le> last' then do {
        c \<leftarrow> bitmap_contains b i cnt (\<not> value);
        if \<not> c then Some i else scan_loop b (i + 1) last' cnt value
      }
      else Some BITMAP_ERROR)"

definition bitmap_scan :: "bitmap \<Rightarrow> size_t \<Rightarrow> size_t \<Rightarrow> bool \<Rightarrow> size_t option" where
  "bitmap_scan b start cnt value = do {
     ASSERT (start \<le> bit_cnt b);
     if cnt \<le> bit_cnt b then scan_loop b start (bit_cnt b - cnt) cnt value
     else Some BITMAP_ERROR
   }"

definition bitmap_scan_and_flip :: "bitmap \<Rightarrow> size_t \<Rightarrow> size_t \<Rightarrow> bool \<Rightarrow> (bitmap \<times> size_t) option" where
  "bitmap_scan_and_flip b start cnt value = do {
     idx \<leftarrow> bitmap_scan b start cnt value;
     b \<leftarrow> (if idx \<noteq> BITMAP_ERROR then bitmap_set_multiple b idx cnt (\<not> value) else Some b);
     Some (b, idx)
   }"

section \<open>Creation\<close>

text \<open>\<^verbatim>\<open>bitmap_create\<close> allocates the header and the elements; \<open>hdr\<close> says whether the first \<^verbatim>\<open>malloc\<close>
  succeeded and \<open>mem\<close> is the block, with whatever it contains, that the second one returned.\<close>

definition bitmap_create :: "bool \<Rightarrow> elem_type list option \<Rightarrow> size_t \<Rightarrow> bitmap option option" where
  "bitmap_create hdr mem cnt =
     (if hdr then
        if mem \<noteq> None \<or> cnt = 0 then do {
          b \<leftarrow> bitmap_set_all \<lparr>bit_cnt = cnt, bits = (case mem of Some m \<Rightarrow> m | None \<Rightarrow> [])\<rparr> False;
          Some (Some b)
        }
        else Some None
      else Some None)"

definition bitmap_create_in_buf :: "size_t \<Rightarrow> elem_type list \<Rightarrow> size_t \<Rightarrow> bitmap option" where
  "bitmap_create_in_buf cnt block block_size = do {
     ASSERT (block_size \<ge> bitmap_buf_size cnt);
     bitmap_set_all \<lparr>bit_cnt = cnt, bits = block\<rparr> False
   }"

section \<open>Abstraction to a list of booleans\<close>

definition bits_of :: "bitmap \<Rightarrow> bool list" where
  "bits_of b = map (\<lambda>i. bit (bits b ! (i div 32)) (i mod 32)) [0..<unat (bit_cnt b)]"

text \<open>The element array has just enough elements, and rounding the number of bits up to whole elements does not
  overflow.\<close>

definition bitmap_wf :: "bitmap \<Rightarrow> bool" where
  "bitmap_wf b \<longleftrightarrow> unat (bit_cnt b) + 31 < 2 ^ 32 \<and> length (bits b) = unat (elem_cnt (bit_cnt b))"

text \<open>The bits from \<open>i\<close> on are \<open>n\<close> copies of \<open>v\<close>; and a list with that range set.\<close>

definition run_at :: "bool list \<Rightarrow> bool \<Rightarrow> nat \<Rightarrow> nat \<Rightarrow> bool" where
  "run_at xs v i n \<longleftrightarrow> i + n \<le> length xs \<and> (\<forall>k<n. xs ! (i + k) = v)"

definition set_range :: "bool list \<Rightarrow> nat \<Rightarrow> nat \<Rightarrow> bool \<Rightarrow> bool list" where
  "set_range xs i n v = take i xs @ replicate n v @ drop (i + n) xs"

lemma length_bits_of [simp]: "length (bits_of b) = unat (bit_cnt b)"
  by (simp add: bits_of_def)

lemma nth_bits_of: "i < unat (bit_cnt b) \<Longrightarrow> bits_of b ! i = bit (bits b ! (i div 32)) (i mod 32)"
  by (simp add: bits_of_def)

lemma length_set_range [simp]: "i + n \<le> length xs \<Longrightarrow> length (set_range xs i n v) = length xs"
  by (simp add: set_range_def)

lemma set_range_0 [simp]: "set_range xs i 0 v = xs"
  by (simp add: set_range_def)

lemma set_range_Suc: "i + n < length xs \<Longrightarrow> (set_range xs i n v)[i + n := v] = set_range xs i (Suc n) v"
  by (simp add: set_range_def list_update_append replicate_append_same [symmetric] Cons_nth_drop_Suc [symmetric])

lemma nth_set_range:
  "i + n \<le> length xs \<Longrightarrow> k < length xs \<Longrightarrow> set_range xs i n v ! k = (if i \<le> k \<and> k < i + n then v else xs ! k)"
  by (auto simp: set_range_def nth_append)

section \<open>Single bits\<close>

lemma unat_elem_idx [simp]: "unat (elem_idx i) = unat i div 32"
  by (simp add: elem_idx_def ELEM_BITS_def unat_div)

lemma bit_mask_eq: "bit_mask i = 2 ^ (unat i mod 32)"
  by (simp add: bit_mask_def ELEM_BITS_def unat_mod push_bit_eq_mult)

lemma bit_bit_mask: "j < 32 \<Longrightarrow> bit (bit_mask i) j \<longleftrightarrow> j = unat i mod 32"
  by (auto simp: bit_mask_eq bit_exp_iff possible_bit_word)

lemma unat_elem_cnt: "unat cnt + 31 < 2 ^ 32 \<Longrightarrow> unat (elem_cnt cnt) = DIV_ROUND_UP (unat cnt) 32"
  by (simp add: elem_cnt_def ELEM_BITS_def DIV_ROUND_UP_def unat_div unat_plus_if')

lemma bitmap_wf_idx: "bitmap_wf b \<Longrightarrow> i < unat (bit_cnt b) \<Longrightarrow> i div 32 < length (bits b)"
  unfolding bitmap_wf_def using less_DIV_ROUND_UP_iff [of 32 "i div 32" "unat (bit_cnt b)"]
  by (auto simp: unat_elem_cnt)

lemma bitmap_test_bits: "bitmap_wf b \<Longrightarrow> i < bit_cnt b \<Longrightarrow> bitmap_test b i = Some (bits_of b ! unat i)"
  using bitmap_wf_idx [of b "unat i"]
  by (simp add: bitmap_test_def bit_mask_eq and_exp_eq_0_iff_not_bit nth_bits_of word_less_nat_alt)

lemma upd_elem_bits:
  assumes wf: "bitmap_wf b" and i: "i < bit_cnt b"
    and f: "\<And>e j. j < 32 \<Longrightarrow> bit (f e) j \<longleftrightarrow> (if j = unat i mod 32 then v (bit e j) else bit e j)"
  shows "\<exists>b'. upd_elem b (elem_idx i) f = Some b' \<and> bitmap_wf b' \<and> bit_cnt b' = bit_cnt b
      \<and> bits_of b' = (bits_of b)[unat i := v (bits_of b ! unat i)]"
proof -
  let ?b = "b\<lparr>bits := (bits b)[unat i div 32 := f (bits b ! (unat i div 32))]\<rparr>"
  have i': "unat i < unat (bit_cnt b)" using i by (simp add: word_less_nat_alt)
  have idx: "unat i div 32 < length (bits b)" by (rule bitmap_wf_idx [OF wf i'])
  have "bits_of ?b ! k = (bits_of b)[unat i := v (bits_of b ! unat i)] ! k" if k: "k < unat (bit_cnt b)" for k
  proof -
    have "k = unat i \<longleftrightarrow> k div 32 = unat i div 32 \<and> k mod 32 = unat i mod 32"
      by (metis div_mult_mod_eq)
    then show ?thesis
      using k idx i' by (auto simp: nth_bits_of f nth_list_update)
  qed
  then have "bits_of ?b = (bits_of b)[unat i := v (bits_of b ! unat i)]"
    by (intro nth_equalityI) simp_all
  then show ?thesis
    using wf idx by (simp add: upd_elem_def bitmap_wf_def)
qed

lemma bitmap_set_bits:
  assumes "bitmap_wf b" and "i < bit_cnt b"
  shows "\<exists>b'. bitmap_set b i v = Some b' \<and> bitmap_wf b' \<and> bit_cnt b' = bit_cnt b
      \<and> bits_of b' = (bits_of b)[unat i := v]"
proof (cases v)
  case True
  then show ?thesis
    using upd_elem_bits [OF assms, of "\<lambda>e. e OR bit_mask i" "\<lambda>_. True"] assms(2)
    by (auto simp: bitmap_set_def bitmap_mark_def bit_or_iff bit_bit_mask)
next
  case False
  then show ?thesis
    using upd_elem_bits [OF assms, of "\<lambda>e. e AND NOT (bit_mask i)" "\<lambda>_. False"] assms(2)
    by (auto simp: bitmap_set_def bitmap_reset_def bit_and_iff bit_not_iff bit_bit_mask)
qed

lemma bitmap_flip_bits:
  assumes "bitmap_wf b" and "i < bit_cnt b"
  shows "\<exists>b'. bitmap_flip b i = Some b' \<and> bitmap_wf b' \<and> bit_cnt b' = bit_cnt b
      \<and> bits_of b' = (bits_of b)[unat i := \<not> bits_of b ! unat i]"
  using upd_elem_bits [OF assms, of "\<lambda>e. e XOR bit_mask i" Not]
  by (auto simp: bitmap_flip_def bit_xor_iff bit_bit_mask)

section \<open>Multiple bits\<close>

lemma bitmap_set_multiple_bits:
  assumes "bitmap_wf b" and "unat start + unat cnt \<le> unat (bit_cnt b)"
  shows "\<exists>b'. bitmap_set_multiple b start cnt v = Some b' \<and> bitmap_wf b' \<and> bit_cnt b' = bit_cnt b
      \<and> bits_of b' = set_range (bits_of b) (unat start) (unat cnt) v"
proof -
  let ?I = "\<lambda>k b'. bitmap_wf b' \<and> bit_cnt b' = bit_cnt b \<and> bits_of b' = set_range (bits_of b) (unat start) k v"
  have "\<exists>b'. for_loop 0 cnt (\<lambda>i b. bitmap_set b (start + i) v) b = Some b' \<and> ?I (unat cnt) b'"
  proof (rule for_loop_inv [where I = ?I])
    fix k b1
    assume k: "k < cnt" and I: "?I (unat k) b1"
    note idx = unat_add_range [OF assms(2) k]
    have "unat start + unat k < unat (bit_cnt b)" using idx by (simp add: word_less_nat_alt)
    then show "\<exists>b'. bitmap_set b1 (start + k) v = Some b' \<and> ?I (Suc (unat k)) b'"
      using bitmap_set_bits [of b1 "start + k" v] I idx by (auto simp: set_range_Suc)
  qed (use assms(1) in simp_all)
  then show ?thesis
    using range_asserts [OF assms(2)] by (simp add: bitmap_set_multiple_def)
qed

lemma bitmap_contains_bits:
  assumes "bitmap_wf b" and "unat start + unat cnt \<le> unat (bit_cnt b)"
  shows "bitmap_contains b start cnt v = Some (\<not> run_at (bits_of b) (\<not> v) (unat start) (unat cnt))"
proof -
  let ?f = "\<lambda>i. if bits_of b ! (unat start + unat i) = v then Some True else None"
  let ?body = "\<lambda>i. do { t \<leftarrow> bitmap_test b (start + i); Some (if t = v then Some True else None) }"
  have body: "?body k = Some (?f k)" if "k < cnt" for k
    using unat_add_range [OF assms(2) that] by (simp add: bitmap_test_bits assms(1))
  have run: "\<not> run_at (bits_of b) (\<not> v) (unat start) (unat cnt) \<longleftrightarrow> (\<exists>k < cnt. bits_of b ! (unat start + unat k) = v)"
  proof
    assume "\<not> run_at (bits_of b) (\<not> v) (unat start) (unat cnt)"
    then obtain k where "k < unat cnt" "bits_of b ! (unat start + k) = v"
      using assms(2) by (auto simp: run_at_def)
    then show "\<exists>k < cnt. bits_of b ! (unat start + unat k) = v"
      by (intro exI [of _ "word_of_nat k"])
        (simp add: word_less_nat_alt unat_of_nat_less)
  qed (auto simp: run_at_def word_less_nat_alt)
  have "\<exists>r. for_ret 0 cnt ?body = Some r \<and> (case r of Some u \<Rightarrow> u | None \<Rightarrow> False) = (\<exists>k < cnt. bits_of b ! (unat start + unat k) = v)"
    using for_ret_cases [of 0 cnt ?body ?f, OF body] by (auto split: if_splits)
  then show ?thesis
    using range_asserts [OF assms(2)] by (auto simp: bitmap_contains_def run)
qed

lemma bitmap_count_bits:
  assumes "bitmap_wf b" and "unat start + unat cnt \<le> unat (bit_cnt b)"
  shows "\<exists>n. bitmap_count b start cnt v = Some n
      \<and> unat n = card {i. unat start \<le> i \<and> i < unat start + unat cnt \<and> bits_of b ! i = v}"
proof -
  define S where "S k = {i. unat start \<le> i \<and> i < unat start + k \<and> bits_of b ! i = v}" for k
  let ?I = "\<lambda>k n :: 32 word. unat n = card (S k)"
  have Suc: "S (Suc k) = (if bits_of b ! (unat start + k) = v then insert (unat start + k) (S k) else S k)" for k
    by (auto simp: S_def less_Suc_eq)
  have fin: "finite (S k)" "unat start + k \<notin> S k" for k
    by (auto simp: S_def)
  have card: "card (S k) \<le> k" for k
    using card_mono [of "{unat start..<unat start + k}" "S k"] by (simp add: subset_iff S_def)
  have "\<exists>n. for_loop 0 cnt (\<lambda>i c. do { t \<leftarrow> bitmap_test b (start + i); Some (if t = v then c + 1 else c) }) 0
      = Some n \<and> ?I (unat cnt) n"
  proof (rule for_loop_inv [where I = ?I])
    fix k and n :: "32 word"
    assume k: "k < cnt" and I: "?I (unat k) n"
    note idx = unat_add_range [OF assms(2) k]
    have "n < cnt" using I card [of "unat k"] k by (simp add: word_less_nat_alt)
    then have "unat (n + 1) = Suc (unat n)" by (rule unat_Suc_less)
    then show "\<exists>n'. do { t \<leftarrow> bitmap_test b (start + k); Some (if t = v then n + 1 else n) } = Some n'
        \<and> ?I (Suc (unat k)) n'"
      using I idx assms(1) by (auto simp: bitmap_test_bits Suc card_insert_if fin)
  qed (simp_all add: S_def)
  then show ?thesis
    using range_asserts [OF assms(2)] by (simp add: bitmap_count_def S_def)
qed

section \<open>Scanning\<close>

text \<open>What \<^verbatim>\<open>bitmap_scan\<close> promises of its result \<open>r\<close>: the first position from \<open>s\<close> on with a run of \<open>n\<close>
  bits equal to \<open>v\<close>, or \<^verbatim>\<open>BITMAP_ERROR\<close> when there is none.\<close>

definition first_run :: "bool list \<Rightarrow> bool \<Rightarrow> nat \<Rightarrow> nat \<Rightarrow> size_t \<Rightarrow> bool" where
  "first_run xs v s n r \<longleftrightarrow>
     (if r = BITMAP_ERROR then \<forall>j\<ge>s. \<not> run_at xs v j n
      else s \<le> unat r \<and> run_at xs v (unat r) n \<and> (\<forall>j. s \<le> j \<longrightarrow> j < unat r \<longrightarrow> \<not> run_at xs v j n))"

lemma unat_BITMAP_ERROR: "unat BITMAP_ERROR = 2 ^ 32 - 1"
  by (simp add: BITMAP_ERROR_def unsigned_minus_1_eq_mask mask_eq_exp_minus_1)

lemma scan_loop_bits:
  assumes wf: "bitmap_wf b" and cnt: "cnt \<le> bit_cnt b"
  shows "\<exists>r. scan_loop b i (bit_cnt b - cnt) cnt v = Some r \<and> first_run (bits_of b) v (unat i) (unat cnt) r"
proof (induction "unat (bit_cnt b) - unat i" arbitrary: i rule: less_induct)
  case less
  let ?last = "bit_cnt b - cnt"
  have last': "unat ?last = unat (bit_cnt b) - unat cnt" using cnt by (simp add: unat_sub)
  show ?case
  proof (cases "i \<le> ?last")
    case True
    then have le: "unat i + unat cnt \<le> unat (bit_cnt b)"
      using cnt last' by (simp add: word_le_nat_alt)
    have "unat i < unat BITMAP_ERROR"
      using le wf by (simp add: bitmap_wf_def unat_BITMAP_ERROR)
    then have i1: "unat (i + 1) = Suc (unat i)" and err: "i \<noteq> BITMAP_ERROR"
      using unat_Suc_less [of i BITMAP_ERROR] by (auto simp: word_less_nat_alt)
    note c = bitmap_contains_bits [OF wf le, of "\<not> v"]
    show ?thesis
    proof (cases "run_at (bits_of b) v (unat i) (unat cnt)")
      case run: True
      then have "first_run (bits_of b) v (unat i) (unat cnt) i" by (simp add: first_run_def err)
      then show ?thesis using True c run by (subst scan_loop.simps) simp
    next
      case no: False
      show ?thesis
      proof (cases "unat i < unat (bit_cnt b)")
        case lt: True
        obtain r where r: "scan_loop b (i + 1) ?last cnt v = Some r"
            "first_run (bits_of b) v (Suc (unat i)) (unat cnt) r"
          using less.hyps [of "i + 1"] i1 lt by (auto simp: diff_less_mono2)
        have "first_run (bits_of b) v (unat i) (unat cnt) r"
          using r(2) no unfolding first_run_def by (auto simp: Suc_le_eq nat_less_le split: if_splits)
        then show ?thesis using True c no r(1) by (subst scan_loop.simps) simp
      next
        case False
        then show ?thesis using no le by (simp add: run_at_def)
      qed
    qed
  next
    case False
    then have "unat (bit_cnt b) < unat i + unat cnt"
      using cnt last' by (simp add: word_le_nat_alt)
    then have "first_run (bits_of b) v (unat i) (unat cnt) BITMAP_ERROR"
      by (auto simp: first_run_def run_at_def)
    then show ?thesis using False by (subst scan_loop.simps) simp
  qed
qed

lemma bitmap_scan_bits:
  assumes "bitmap_wf b" and "start \<le> bit_cnt b"
  shows "\<exists>r. bitmap_scan b start cnt v = Some r \<and> first_run (bits_of b) v (unat start) (unat cnt) r"
proof (cases "cnt \<le> bit_cnt b")
  case True
  then show ?thesis using scan_loop_bits [OF assms(1) True] assms(2) by (simp add: bitmap_scan_def)
next
  case False
  then have "first_run (bits_of b) v (unat start) (unat cnt) BITMAP_ERROR"
    by (auto simp: first_run_def run_at_def word_le_nat_alt)
  then show ?thesis using False assms(2) by (simp add: bitmap_scan_def)
qed

lemma bitmap_scan_and_flip_bits:
  assumes "bitmap_wf b" and "start \<le> bit_cnt b"
  shows "\<exists>b' r. bitmap_scan_and_flip b start cnt v = Some (b', r)
      \<and> first_run (bits_of b) v (unat start) (unat cnt) r
      \<and> bitmap_wf b' \<and> bit_cnt b' = bit_cnt b
      \<and> bits_of b' = (if r = BITMAP_ERROR then bits_of b else set_range (bits_of b) (unat r) (unat cnt) (\<not> v))"
proof -
  obtain r where r: "bitmap_scan b start cnt v = Some r" "first_run (bits_of b) v (unat start) (unat cnt) r"
    using bitmap_scan_bits [OF assms] by blast
  show ?thesis
  proof (cases "r = BITMAP_ERROR")
    case True
    then show ?thesis using r assms(1) by (simp add: bitmap_scan_and_flip_def)
  next
    case False
    then have "unat r + unat cnt \<le> unat (bit_cnt b)"
      using r(2) by (simp add: first_run_def run_at_def)
    then obtain b' where "bitmap_set_multiple b r cnt (\<not> v) = Some b'" "bitmap_wf b'" "bit_cnt b' = bit_cnt b"
        "bits_of b' = set_range (bits_of b) (unat r) (unat cnt) (\<not> v)"
      using bitmap_set_multiple_bits [OF assms(1), of r cnt "\<not> v"] by blast
    then show ?thesis
      using r False by (intro exI [of _ b'] exI [of _ r]) (simp add: bitmap_scan_and_flip_def)
  qed
qed

text \<open>The free map, the swap table and the page pools use a bitmap as an allocator: a run of false bits is
  found and set, and is reset when it is given back.\<close>

definition bit_used :: "bitmap \<Rightarrow> nat set" where
  "bit_used b = {i. i < unat (bit_cnt b) \<and> bits_of b ! i}"

definition scan_alloc :: "bitmap \<Rightarrow> size_t \<Rightarrow> (bitmap \<times> size_t option) option" where
  "scan_alloc b cnt = do {
     (b, idx) \<leftarrow> bitmap_scan_and_flip b 0 cnt False;
     Some (b, if idx = BITMAP_ERROR then None else Some idx)
   }"

lemma bit_used_set_range:
  assumes "unat i + unat n \<le> unat (bit_cnt b)" and "bit_cnt b' = bit_cnt b"
    and "bits_of b' = set_range (bits_of b) (unat i) (unat n) v"
  shows "bit_used b' = (if v then bit_used b \<union> slots i n else bit_used b - slots i n)"
  using assms by (auto simp: bit_used_def slots_def nth_set_range split: if_splits)

lemma run_at_free: "run_at (bits_of b) False (unat i) (unat n) \<Longrightarrow> slots i n \<inter> bit_used b = {}"
  by (auto simp: run_at_def slots_def bit_used_def dest!: le_Suc_ex)

lemma slots_used_run:
  assumes "slots i n \<noteq> {}" and "slots i n \<subseteq> bit_used b"
  shows "run_at (bits_of b) True (unat i) (unat n)"
proof -
  have "unat i + unat n - 1 \<in> slots i n" using assms(1) by (auto simp: slots_def)
  then show ?thesis using assms(2) by (auto simp: bit_used_def run_at_def slots_def subset_iff)
qed

interpretation ba: slot_allocator scan_alloc "\<lambda>b i n. bitmap_set_multiple b i n False" bitmap_wf bit_used
proof
  fix b n
  assume "bitmap_wf b"
  then obtain b' r where 1: "bitmap_scan_and_flip b 0 n False = Some (b', r)"
      "first_run (bits_of b) False 0 (unat n) r" "bitmap_wf b'" "bit_cnt b' = bit_cnt b"
      "bits_of b' = (if r = BITMAP_ERROR then bits_of b else set_range (bits_of b) (unat r) (unat n) True)"
    using bitmap_scan_and_flip_bits [of b 0 n False] by auto
  show "\<exists>b' r. scan_alloc b n = Some (b', r) \<and> bitmap_wf b' \<and>
      (case r of None \<Rightarrow> bit_used b' = bit_used b
       | Some i \<Rightarrow> slots i n \<inter> bit_used b = {} \<and> bit_used b' = bit_used b \<union> slots i n)"
  proof (cases "r = BITMAP_ERROR")
    case True
    then show ?thesis using 1 by (simp add: scan_alloc_def bit_used_def)
  next
    case False
    then have run: "run_at (bits_of b) False (unat r) (unat n)" using 1(2) by (simp add: first_run_def)
    then have "slots r n \<inter> bit_used b = {}" by (rule run_at_free)
    moreover have "bit_used b' = bit_used b \<union> slots r n"
      using bit_used_set_range [of r n b b' True] run 1 False by (simp add: run_at_def)
    ultimately show ?thesis using 1 False by (simp add: scan_alloc_def)
  qed
next
  fix b i n
  assume b: "bitmap_wf b" and ne: "slots i n \<noteq> {}" and sub: "slots i n \<subseteq> bit_used b"
  have "unat i + unat n \<le> unat (bit_cnt b)" using slots_used_run [OF ne sub] by (simp add: run_at_def)
  from bitmap_set_multiple_bits [OF b this, of False] bit_used_set_range [OF this, of _ False]
  show "\<exists>b'. bitmap_set_multiple b i n False = Some b' \<and> bitmap_wf b' \<and> bit_used b' = bit_used b - slots i n"
    by auto
qed

section \<open>Properties\<close>

text \<open>C24. Setting, flipping and testing one bit of a bitmap packed into 32-bit elements behaves like updating
  and reading one entry of a list of booleans; no other bit changes, and an index past the end stops the
  kernel.\<close>

theorem bitmap_single_bit_correct:
  assumes "bitmap_wf b"
  shows "(if i < bit_cnt b then
        (\<exists>b'. bitmap_set b i v = Some b' \<and> bitmap_wf b' \<and> bits_of b' = (bits_of b)[unat i := v])
        \<and> (\<exists>b'. bitmap_flip b i = Some b' \<and> bitmap_wf b' \<and> bits_of b' = (bits_of b)[unat i := \<not> bits_of b ! unat i])
        \<and> bitmap_test b i = Some (bits_of b ! unat i)
      else bitmap_set b i v = None \<and> bitmap_test b i = None)"
  using bitmap_set_bits [OF assms, of i v] bitmap_flip_bits [OF assms, of i] bitmap_test_bits [OF assms, of i]
  by (auto simp: bitmap_test_def bitmap_set_def)

text \<open>C8. \<^verbatim>\<open>bitmap_scan_and_flip\<close> returns, without panicking or looping, the first position at or after
  \<open>start\<close> where \<open>cnt\<close> bits equal \<open>value\<close>, flips exactly those bits, and returns \<^verbatim>\<open>BITMAP_ERROR\<close> with the bitmap
  unchanged exactly when there is no such group.  When \<open>cnt\<close> is zero the result is \<open>start\<close>; the comment of the
  function (\<^verbatim>\<open>bitmap.c:317\<close>) says that it is 0, which is what the code does only for \<open>start = 0\<close>.\<close>

theorem bitmap_scan_and_flip_correct:
  assumes "bitmap_wf b" and "start \<le> bit_cnt b"
  shows "\<exists>b' r. bitmap_scan_and_flip b start cnt value = Some (b', r) \<and> bitmap_wf b'
      \<and> (if r = BITMAP_ERROR
         then bits_of b' = bits_of b \<and> (\<forall>j\<ge>unat start. \<not> run_at (bits_of b) value j (unat cnt))
         else unat start \<le> unat r \<and> run_at (bits_of b) value (unat r) (unat cnt)
            \<and> (\<forall>j. unat start \<le> j \<longrightarrow> j < unat r \<longrightarrow> \<not> run_at (bits_of b) value j (unat cnt))
            \<and> bits_of b' = set_range (bits_of b) (unat r) (unat cnt) (\<not> value))
      \<and> (cnt = 0 \<longrightarrow> r = start)"
proof -
  obtain b' r where r: "bitmap_scan_and_flip b start cnt value = Some (b', r)" "bitmap_wf b'"
      "first_run (bits_of b) value (unat start) (unat cnt) r"
      "bits_of b' = (if r = BITMAP_ERROR then bits_of b else set_range (bits_of b) (unat r) (unat cnt) (\<not> value))"
    using bitmap_scan_and_flip_bits [OF assms, of cnt "value"] by blast
  have "run_at (bits_of b) value (unat start) 0" using assms(2) by (simp add: run_at_def word_le_nat_alt)
  then have "r = start" if "cnt = 0"
    using r(3) that by (auto simp: first_run_def word_unat_eq_iff not_less dest!: spec [of _ "unat start"] split: if_splits)
  with r show ?thesis unfolding first_run_def by (auto split: if_splits)
qed

text \<open>C25. A sequence of allocation requests served by scanning and flipping a bitmap hands out pairwise
  disjoint runs of bits, none of which was in use before, and marks exactly those as used.\<close>

theorem bitmap_allocations_disjoint:
  assumes "bitmap_wf b"
  shows "\<exists>b' rs. alloc_many scan_alloc b ns = Some (b', rs) \<and> bitmap_wf b' \<and> length rs = length ns
      \<and> disjoint_regions (regions ns rs) \<and> \<Union> (set (regions ns rs)) \<inter> bit_used b = {}
      \<and> bit_used b' = bit_used b \<union> \<Union> (set (regions ns rs))"
  using ba.alloc_many_regions [OF assms] .

text \<open>C31. The range operations agree with the list of booleans: \<^verbatim>\<open>bitmap_set_multiple\<close> sets exactly the range,
  \<^verbatim>\<open>bitmap_contains\<close> and \<^verbatim>\<open>bitmap_all\<close> decide whether some or every bit of it has a value, and
  \<^verbatim>\<open>bitmap_count\<close> counts them.\<close>

theorem bitmap_range_correct:
  assumes "bitmap_wf b" and "unat start + unat cnt \<le> unat (bit_cnt b)"
  shows "(\<exists>b'. bitmap_set_multiple b start cnt v = Some b' \<and> bitmap_wf b'
        \<and> bits_of b' = set_range (bits_of b) (unat start) (unat cnt) v)
      \<and> bitmap_contains b start cnt v = Some (\<exists>k < unat cnt. bits_of b ! (unat start + k) = v)
      \<and> bitmap_all b start cnt = Some (\<forall>k < unat cnt. bits_of b ! (unat start + k))
      \<and> (\<exists>n. bitmap_count b start cnt v = Some n
        \<and> unat n = card {i. unat start \<le> i \<and> i < unat start + unat cnt \<and> bits_of b ! i = v})"
proof (intro conjI)
  show "bitmap_contains b start cnt v = Some (\<exists>k < unat cnt. bits_of b ! (unat start + k) = v)"
    using assms(2) by (auto simp: bitmap_contains_bits [OF assms] run_at_def)
  show "bitmap_all b start cnt = Some (\<forall>k < unat cnt. bits_of b ! (unat start + k))"
    using assms(2) by (auto simp: bitmap_all_def bitmap_contains_bits [OF assms] run_at_def)
qed (use bitmap_set_multiple_bits [OF assms, of v] bitmap_count_bits [OF assms, of v] in blast)+

section \<open>Concrete instances\<close>

text \<open>A bitmap of 40 bits in two elements, with bits 0, 1, 3 and 33 set.\<close>

definition ex_bitmap :: bitmap where
  "ex_bitmap = \<lparr>bit_cnt = 40, bits = [11, 2]\<rparr>"

lemma ex_bitmap_wf: "bitmap_wf ex_bitmap"
  by (simp add: bitmap_wf_def ex_bitmap_def unat_elem_cnt DIV_ROUND_UP_def)

theorem bitmap_single_bit_correct_witness:
  "(if (33 :: size_t) < bit_cnt ex_bitmap then
        (\<exists>b'. bitmap_set ex_bitmap 33 False = Some b' \<and> bitmap_wf b' \<and> bits_of b' = (bits_of ex_bitmap)[unat (33 :: size_t) := False])
        \<and> (\<exists>b'. bitmap_flip ex_bitmap 33 = Some b' \<and> bitmap_wf b'
            \<and> bits_of b' = (bits_of ex_bitmap)[unat (33 :: size_t) := \<not> bits_of ex_bitmap ! unat (33 :: size_t)])
        \<and> bitmap_test ex_bitmap 33 = Some (bits_of ex_bitmap ! unat (33 :: size_t))
      else bitmap_set ex_bitmap 33 False = None \<and> bitmap_test ex_bitmap 33 = None)"
  by (rule bitmap_single_bit_correct [OF ex_bitmap_wf])

theorem bitmap_scan_and_flip_correct_witness:
  "\<exists>b' r. bitmap_scan_and_flip ex_bitmap 1 4 False = Some (b', r) \<and> bitmap_wf b'
      \<and> (if r = BITMAP_ERROR
         then bits_of b' = bits_of ex_bitmap \<and> (\<forall>j\<ge>unat (1 :: size_t). \<not> run_at (bits_of ex_bitmap) False j (unat (4 :: size_t)))
         else unat (1 :: size_t) \<le> unat r \<and> run_at (bits_of ex_bitmap) False (unat r) (unat (4 :: size_t))
            \<and> (\<forall>j. unat (1 :: size_t) \<le> j \<longrightarrow> j < unat r \<longrightarrow> \<not> run_at (bits_of ex_bitmap) False j (unat (4 :: size_t)))
            \<and> bits_of b' = set_range (bits_of ex_bitmap) (unat r) (unat (4 :: size_t)) (\<not> False))
      \<and> ((4 :: size_t) = 0 \<longrightarrow> r = 1)"
  by (rule bitmap_scan_and_flip_correct [OF ex_bitmap_wf]) (simp add: ex_bitmap_def)

theorem bitmap_allocations_disjoint_witness:
  "\<exists>b' rs. alloc_many scan_alloc ex_bitmap [4, 1, 90] = Some (b', rs) \<and> bitmap_wf b' \<and> length rs = length [4, 1, 90 :: size_t]
      \<and> disjoint_regions (regions [4, 1, 90] rs) \<and> \<Union> (set (regions [4, 1, 90] rs)) \<inter> bit_used ex_bitmap = {}
      \<and> bit_used b' = bit_used ex_bitmap \<union> \<Union> (set (regions [4, 1, 90] rs))"
  by (rule bitmap_allocations_disjoint [OF ex_bitmap_wf])

theorem bitmap_range_correct_witness:
  "(\<exists>b'. bitmap_set_multiple ex_bitmap 30 5 True = Some b' \<and> bitmap_wf b'
        \<and> bits_of b' = set_range (bits_of ex_bitmap) (unat (30 :: size_t)) (unat (5 :: size_t)) True)
      \<and> bitmap_contains ex_bitmap 30 5 True = Some (\<exists>k < unat (5 :: size_t). bits_of ex_bitmap ! (unat (30 :: size_t) + k) = True)
      \<and> bitmap_all ex_bitmap 30 5 = Some (\<forall>k < unat (5 :: size_t). bits_of ex_bitmap ! (unat (30 :: size_t) + k))
      \<and> (\<exists>n. bitmap_count ex_bitmap 30 5 True = Some n
        \<and> unat n = card {i. unat (30 :: size_t) \<le> i \<and> i < unat (30 :: size_t) + unat (5 :: size_t) \<and> bits_of ex_bitmap ! i = True})"
  by (rule bitmap_range_correct [OF ex_bitmap_wf]) (simp add: ex_bitmap_def)

end
