(* ===== verification/Inode.thy ===== *)
theory Inode
  imports Block Bitmap "HOL-Library.Signed_Division"
begin

text \<open>
  Inodes, \<^verbatim>\<open>src/src/filesys/inode.c\<close>: the file system state, reading and writing the data of an inode sector by sector
  through a bounce buffer, and the refinement of both to operations on a list of bytes.

  The state \<open>fs\<close> collects the static variables of \<^verbatim>\<open>src/src/filesys\<close> and the structures they point to.  In-memory
  inodes and open files are named by indices that are never reused, so that access through a stale pointer is
  \<open>None\<close>.  \<open>fs_mallocs\<close> are the outcomes of the coming memory allocations (\<open>[]\<close>: all succeed).  \<^verbatim>\<open>off_t\<close> is an \<open>int\<close>;
  \<open>s32\<close> is the value of a 32-bit signed expression.
\<close>

section \<open>State\<close>

definition INODE_MAGIC :: "32 word" where
  "INODE_MAGIC = 0x494e4f44"

record inode_disk =
  id_start :: block_sector_t
  id_length :: int
  id_magic :: "32 word"

record inode =
  i_sector :: block_sector_t
  open_cnt :: int
  removed :: bool
  deny_write_cnt :: int
  i_data :: inode_disk

record open_file =
  f_inode :: nat
  f_pos :: int
  f_deny_write :: bool

record fs =
  fs_blocks :: blocks
  fs_device :: nat
  free_map :: bitmap
  free_map_file :: "nat option"
  open_inodes :: "nat list"
  inodes :: "nat \<rightharpoonup> inode"
  files :: "nat \<rightharpoonup> open_file"
  fs_next :: nat
  fs_mallocs :: "bool list"

definition fs_malloc :: "fs \<Rightarrow> fs \<times> bool" where
  "fs_malloc s = (case fs_mallocs s of [] \<Rightarrow> (s, True) | r # rs \<Rightarrow> (s\<lparr>fs_mallocs := rs\<rparr>, r))"

definition fs_read :: "fs \<Rightarrow> block_sector_t \<Rightarrow> (fs \<times> byte list) option" where
  "fs_read s sector = do {
     (B, buffer) \<leftarrow> block_read (fs_blocks s) (fs_device s) sector;
     Some (s\<lparr>fs_blocks := B\<rparr>, buffer)
   }"

definition fs_write :: "fs \<Rightarrow> block_sector_t \<Rightarrow> byte list \<Rightarrow> fs option" where
  "fs_write s sector buffer = do {
     B \<leftarrow> block_write (fs_blocks s) (fs_device s) sector buffer;
     Some (s\<lparr>fs_blocks := B\<rparr>)
   }"

text \<open>The on-disk layout of \<^verbatim>\<open>struct inode_disk\<close>: three 32-bit fields and 125 unused ones.\<close>

definition enc_inode :: "inode_disk \<Rightarrow> byte list" where
  "enc_inode d = le32 (id_start d) @ le32 (word_of_int (id_length d)) @ le32 (id_magic d) @ replicate 500 0"

definition dec_inode :: "byte list \<Rightarrow> inode_disk" where
  "dec_inode bs = \<lparr>id_start = of_le32 bs, id_length = sint (of_le32 (drop 4 bs)), id_magic = of_le32 (drop 8 bs)\<rparr>"

section \<open>Reading and writing data\<close>

definition bytes_to_sectors :: "int \<Rightarrow> 32 word" where
  "bytes_to_sectors size' = word_of_int (s32 (size' + int BLOCK_SECTOR_SIZE - 1) sdiv int BLOCK_SECTOR_SIZE)"

definition byte_to_sector :: "inode \<Rightarrow> int \<Rightarrow> block_sector_t" where
  "byte_to_sector inode pos =
     (if pos < id_length (i_data inode)
      then id_start (i_data inode) + word_of_int (pos sdiv int BLOCK_SECTOR_SIZE) else - 1)"

definition inode_length :: "inode \<Rightarrow> int" where
  "inode_length inode = id_length (i_data inode)"

definition inode_get_inumber :: "inode \<Rightarrow> block_sector_t" where
  "inode_get_inumber inode = i_sector inode"

text \<open>The number of bytes both loops move in one iteration, from the bytes left in the inode and in the sector.\<close>

definition chunk :: "inode \<Rightarrow> int \<Rightarrow> int \<Rightarrow> int" where
  "chunk inode size' offset = (
     let sector_ofs = offset smod int BLOCK_SECTOR_SIZE;
         inode_left = inode_length inode - offset;
         sector_left = int BLOCK_SECTOR_SIZE - sector_ofs;
         min_left = (if inode_left < sector_left then inode_left else sector_left)
     in if size' < min_left then size' else min_left)"

text \<open>The loop of \<^verbatim>\<open>inode_read_at\<close>; \<open>buf\<close> is the part of the caller's buffer filled so far, so that \<^verbatim>\<open>bytes_read\<close> is its
  length, and \<open>bounce\<close> says whether the bounce buffer has been allocated.\<close>

partial_function (option) read_loop ::
    "fs \<Rightarrow> inode \<Rightarrow> int \<Rightarrow> int \<Rightarrow> byte list \<Rightarrow> bool \<Rightarrow> (fs \<times> byte list) option" where
  "read_loop s inode size' offset buf bounce =
     (if size' > 0 then do {
        let sector_idx = byte_to_sector inode offset;
        let sector_ofs = offset smod int BLOCK_SECTOR_SIZE;
        let chunk_size = chunk inode size' offset;
        if chunk_size \<le> 0 then Some (s, buf)
        else if sector_ofs = 0 \<and> chunk_size = int BLOCK_SECTOR_SIZE then do {
          (s, b) \<leftarrow> fs_read s sector_idx;
          read_loop s inode (size' - chunk_size) (offset + chunk_size) (buf @ b) bounce
        }
        else do {
          let (s, ok) = (if bounce then (s, True) else fs_malloc s);
          if \<not> ok then Some (s, buf)
          else do {
            (s, b) \<leftarrow> fs_read s sector_idx;
            read_loop s inode (size' - chunk_size) (offset + chunk_size)
              (buf @ bytes_at (nat sector_ofs) (nat chunk_size) b) True
          }
        }
      }
      else Some (s, buf))"

definition inode_read_at :: "fs \<Rightarrow> nat \<Rightarrow> int \<Rightarrow> int \<Rightarrow> (fs \<times> byte list) option" where
  "inode_read_at s i size' offset = do {
     inode \<leftarrow> inodes s i;
     read_loop s inode size' offset [] False
   }"

partial_function (option) write_loop ::
    "fs \<Rightarrow> inode \<Rightarrow> byte list \<Rightarrow> int \<Rightarrow> int \<Rightarrow> int \<Rightarrow> bool \<Rightarrow> (fs \<times> int) option" where
  "write_loop s inode buffer size' offset bytes_written bounce =
     (if size' > 0 then do {
        let sector_idx = byte_to_sector inode offset;
        let sector_ofs = offset smod int BLOCK_SECTOR_SIZE;
        let sector_left = int BLOCK_SECTOR_SIZE - sector_ofs;
        let chunk_size = chunk inode size' offset;
        let data = bytes_at (nat bytes_written) (nat chunk_size) buffer;
        if chunk_size \<le> 0 then Some (s, bytes_written)
        else if sector_ofs = 0 \<and> chunk_size = int BLOCK_SECTOR_SIZE then do {
          s \<leftarrow> fs_write s sector_idx data;
          write_loop s inode buffer (size' - chunk_size) (offset + chunk_size) (bytes_written + chunk_size) bounce
        }
        else do {
          let (s, ok) = (if bounce then (s, True) else fs_malloc s);
          if \<not> ok then Some (s, bytes_written)
          else do {
            (s, b) \<leftarrow> (if sector_ofs > 0 \<or> chunk_size < sector_left then fs_read s sector_idx
                      else Some (s, replicate BLOCK_SECTOR_SIZE 0));
            s \<leftarrow> fs_write s sector_idx (splice_at (nat sector_ofs) data b);
            write_loop s inode buffer (size' - chunk_size) (offset + chunk_size) (bytes_written + chunk_size) True
          }
        }
      }
      else Some (s, bytes_written))"

definition inode_write_at :: "fs \<Rightarrow> nat \<Rightarrow> byte list \<Rightarrow> int \<Rightarrow> int \<Rightarrow> (fs \<times> int) option" where
  "inode_write_at s i buffer size' offset = do {
     inode \<leftarrow> inodes s i;
     if deny_write_cnt inode \<noteq> 0 then Some (s, 0)
     else write_loop s inode buffer size' offset 0 False
   }"

section \<open>The device behind the file system\<close>

definition fs_size :: "fs \<Rightarrow> block_sector_t" where
  "fs_size s = dev_size (fs_blocks s) (fs_device s)"

text \<open>\<open>fs_holds s c\<close>: the file system device works, and its sector \<open>t\<close> contains the 512 bytes \<open>c t\<close>.\<close>

definition fs_holds :: "fs \<Rightarrow> (block_sector_t \<Rightarrow> byte list) \<Rightarrow> bool" where
  "fs_holds s c \<longleftrightarrow> (\<exists>d off. dev_holds (fs_device s) d off (fs_size s) (fs_blocks s) c)
     \<and> (\<forall>t < fs_size s. length (c t) = BLOCK_SECTOR_SIZE)"

text \<open>\<open>fs_frame s s'\<close>: nothing changed but disk contents, statistics and the allocations made.\<close>

definition fs_frame :: "fs \<Rightarrow> fs \<Rightarrow> bool" where
  "fs_frame s s' \<longleftrightarrow> same_shape (fs_blocks s) (fs_blocks s') \<and> fs_device s' = fs_device s
     \<and> free_map s' = free_map s \<and> free_map_file s' = free_map_file s \<and> open_inodes s' = open_inodes s
     \<and> inodes s' = inodes s \<and> files s' = files s \<and> fs_next s' = fs_next s
     \<and> (\<exists>k. fs_mallocs s' = drop k (fs_mallocs s))"

lemma fs_frame_refl [simp]: "fs_frame s s"
  unfolding fs_frame_def by (simp add: exI [of _ 0])

lemma fs_frame_trans [trans]: "fs_frame s s' \<Longrightarrow> fs_frame s' s'' \<Longrightarrow> fs_frame s s''"
  unfolding fs_frame_def by (auto intro: same_shape_trans)

lemma fs_frame_simps:
  assumes "fs_frame s s'"
  shows "fs_device s' = fs_device s" "free_map s' = free_map s" "free_map_file s' = free_map_file s"
    "open_inodes s' = open_inodes s" "inodes s' = inodes s" "files s' = files s" "fs_next s' = fs_next s"
    "fs_mallocs s = [] \<Longrightarrow> fs_mallocs s' = []"
  using assms by (auto simp: fs_frame_def)

lemma fs_holds_dev: "fs_holds s c \<Longrightarrow> \<exists>d off. dev_at (fs_blocks s) (fs_device s) d off"
  by (auto simp: fs_holds_def dev_holds_def)

lemma fs_frame_size: "fs_frame s s' \<Longrightarrow> fs_holds s c \<Longrightarrow> fs_size s' = fs_size s"
  using dev_size_shape fs_holds_dev [of s c] by (fastforce simp: fs_frame_def fs_size_def same_shape_def)

lemma fs_read_holds:
  assumes "fs_holds s c" and "t < fs_size s"
  shows "\<exists>s'. fs_read s t = Some (s', c t) \<and> fs_holds s' c \<and> fs_frame s s' \<and> fs_mallocs s' = fs_mallocs s"
proof -
  obtain d off where h: "dev_holds (fs_device s) d off (fs_size s) (fs_blocks s) c"
    using assms(1) by (auto simp: fs_holds_def)
  then obtain B where B: "block_read (fs_blocks s) (fs_device s) t = Some (B, c t)" "same_shape (fs_blocks s) B"
      "media B = media (fs_blocks s)"
    using block_read_dev [of "fs_blocks s" "fs_device s" d off t] assms(2)
    by (auto simp: dev_holds_def fs_size_def)
  let ?s = "s\<lparr>fs_blocks := B\<rparr>"
  have frame: "fs_frame s ?s"
    unfolding fs_frame_def by (simp add: B(2) exI [of _ 0])
  have size: "fs_size ?s = fs_size s" by (rule fs_frame_size [OF frame assms(1)])
  have "dev_holds (fs_device s) d off (fs_size s) B c"
    using h B(2,3) dev_at_shape [of "fs_blocks s" "fs_device s" d off B] size
    by (auto simp: dev_holds_def same_shape_def fs_size_def)
  then have "fs_holds ?s c" using assms(1) size by (auto simp: fs_holds_def)
  then show ?thesis using B(1) frame by (simp add: fs_read_def)
qed

lemma fs_write_holds:
  assumes "fs_holds s c" and "t < fs_size s" and "length buf = BLOCK_SECTOR_SIZE"
  shows "\<exists>s'. fs_write s t buf = Some s' \<and> fs_holds s' (c(t := buf)) \<and> fs_frame s s' \<and> fs_mallocs s' = fs_mallocs s"
proof -
  obtain d off where h: "dev_holds (fs_device s) d off (fs_size s) (fs_blocks s) c"
    using assms(1) by (auto simp: fs_holds_def)
  then obtain B where B: "block_write (fs_blocks s) (fs_device s) t buf = Some B" "same_shape (fs_blocks s) B"
      "media B = (media (fs_blocks s))(d := (media (fs_blocks s) d)(off + t := buf))"
    using block_write_dev [of "fs_blocks s" "fs_device s" d off t] assms(2)
    by (auto simp: dev_holds_def fs_size_def)
  let ?s = "s\<lparr>fs_blocks := B\<rparr>"
  have frame: "fs_frame s ?s"
    unfolding fs_frame_def by (simp add: B(2) exI [of _ 0])
  have size: "fs_size ?s = fs_size s" by (rule fs_frame_size [OF frame assms(1)])
  have "dev_holds (fs_device s) d off (fs_size s) B (c(t := buf))"
    using h B(2,3) dev_at_shape [of "fs_blocks s" "fs_device s" d off B] size
    by (auto simp: dev_holds_def same_shape_def fs_size_def)
  then have "fs_holds ?s (c(t := buf))" using assms(1,3) size by (auto simp: fs_holds_def)
  then show ?thesis using B(1) frame by (simp add: fs_write_def)
qed

lemma fs_malloc_frame: "fs_malloc s = (s', ok) \<Longrightarrow> fs_frame s s' \<and> (fs_mallocs s = [] \<longrightarrow> ok) \<and> fs_blocks s' = fs_blocks s"
  unfolding fs_frame_def
  by (cases "fs_mallocs s") (auto simp: fs_malloc_def intro: exI [of _ 0] exI [of _ "Suc 0"])

lemma fs_holds_blocks: "fs_holds s c \<Longrightarrow> fs_blocks s' = fs_blocks s \<Longrightarrow> fs_device s' = fs_device s \<Longrightarrow> fs_holds s' c"
  by (simp add: fs_holds_def fs_size_def)

section \<open>The bytes of a file\<close>

definition fdata :: "(block_sector_t \<Rightarrow> byte list) \<Rightarrow> inode_disk \<Rightarrow> nat \<Rightarrow> byte" where
  "fdata c d k = c (id_start d + word_of_nat (k div 512)) ! (k mod 512)"

definition file_bytes :: "(block_sector_t \<Rightarrow> byte list) \<Rightarrow> inode_disk \<Rightarrow> byte list" where
  "file_bytes c d = map (fdata c d) [0..<nat (id_length d)]"

text \<open>A length that rounds up to sectors without overflow, and data sectors inside the device.\<close>

definition inode_ok :: "fs \<Rightarrow> inode_disk \<Rightarrow> bool" where
  "inode_ok s d \<longleftrightarrow> 0 \<le> id_length d \<and> id_length d + 511 < 2 ^ 31
     \<and> unat (id_start d) + DIV_ROUND_UP (nat (id_length d)) 512 \<le> unat (fs_size s)"

lemma length_file_bytes [simp]: "length (file_bytes c d) = nat (id_length d)"
  by (simp add: file_bytes_def)

lemma smod_512: "0 \<le> k \<Longrightarrow> k smod 512 = k mod (512 :: int)"
  by (cases "k = 0") (simp_all add: signed_modulo_int_def sgn_if)

lemma sdiv_512: "0 \<le> k \<Longrightarrow> k sdiv 512 = k div (512 :: int)"
  by (cases "k = 0") (simp_all add: signed_divide_int_def sgn_if)

lemma chunk_le_0: "0 \<le> offset \<Longrightarrow> 0 < size' \<Longrightarrow> chunk inode size' offset \<le> 0 \<longleftrightarrow> id_length (i_data inode) \<le> offset"
  by (auto simp: chunk_def Let_def inode_length_def BLOCK_SECTOR_SIZE_def smod_512)

lemma chunk_bounds:
  assumes "0 \<le> offset" and "0 < size'" and "offset < id_length (i_data inode)"
  obtains n where "chunk inode size' offset = int n" "0 < n" "int n \<le> size'" "nat offset + n \<le> nat (id_length (i_data inode))"
    "nat offset mod 512 + n \<le> 512"
proof
  let ?n = "nat (chunk inode size' offset)"
  have c: "0 < chunk inode size' offset" using chunk_le_0 [OF assms(1,2), of inode] assms(3) by simp
  then show "chunk inode size' offset = int ?n" "0 < ?n" by simp_all
  have le: "chunk inode size' offset \<le> size'" "chunk inode size' offset \<le> id_length (i_data inode) - offset"
      "chunk inode size' offset \<le> 512 - offset mod 512"
    using assms by (auto simp: chunk_def Let_def inode_length_def BLOCK_SECTOR_SIZE_def smod_512)
  then show "int ?n \<le> size'" "nat offset + ?n \<le> nat (id_length (i_data inode))" using c assms by linarith+
  have "nat offset mod 512 = nat (offset mod 512)" using assms(1) by (simp add: nat_mod_distrib)
  then show "nat offset mod 512 + ?n \<le> 512" using le(3) c by simp
qed

lemma sector_in_range:
  assumes "inode_ok s d" and "k < nat (id_length d)"
  shows "id_start d + word_of_nat (k div 512) < fs_size s"
    and "unat (id_start d + word_of_nat (k div 512)) = unat (id_start d) + k div 512"
proof -
  have "k div 512 * 512 < nat (id_length d)" using assms(2) div_times_less_eq_dividend [of k 512] by linarith
  then have lt: "k div 512 < DIV_ROUND_UP (nat (id_length d)) 512" by (simp add: less_DIV_ROUND_UP_iff)
  then have le: "unat (id_start d) + k div 512 < unat (fs_size s)" using assms(1) by (simp add: inode_ok_def)
  then have w: "unat (word_of_nat (k div 512) :: 32 word) = k div 512"
    by (intro unat_of_nat_less [of _ "fs_size s"]) simp
  then show "unat (id_start d + word_of_nat (k div 512)) = unat (id_start d) + k div 512"
    using le unat_less_2p [of "fs_size s"] by (simp add: unat_plus_if')
  then show "id_start d + word_of_nat (k div 512) < fs_size s" using le by (simp add: word_less_nat_alt)
qed

lemma byte_to_sector_nat:
  assumes "0 \<le> offset" and "offset < id_length (i_data inode)"
  shows "byte_to_sector inode offset = id_start (i_data inode) + word_of_nat (nat offset div 512)"
proof -
  obtain n where n: "offset = int n" using assms(1) zero_le_imp_eq_int by blast
  have "int n div 512 = int (n div 512)" by (simp add: zdiv_int)
  then show ?thesis using assms n by (simp add: byte_to_sector_def BLOCK_SECTOR_SIZE_def sdiv_512)
qed

lemma chunk_bytes:
  assumes "o' mod 512 + n \<le> 512" and "o' + n \<le> nat (id_length d)"
    and "length (c (id_start d + word_of_nat (o' div 512))) = 512"
  shows "bytes_at (o' mod 512) n (c (id_start d + word_of_nat (o' div 512))) = bytes_at o' n (file_bytes c d)"
proof (rule nth_equalityI)
  fix k
  assume "k < length (bytes_at (o' mod 512) n (c (id_start d + word_of_nat (o' div 512))))"
  then have k: "k < n" by simp
  then have "(o' + k) div 512 = o' div 512" "(o' + k) mod 512 = o' mod 512 + k"
    using assms(1) div_mod_within [of o' 512 k] by simp_all
  then show "bytes_at (o' mod 512) n (c (id_start d + word_of_nat (o' div 512))) ! k = bytes_at o' n (file_bytes c d) ! k"
    using k assms by (simp add: nth_bytes_at file_bytes_def fdata_def)
qed (use assms in simp)

section \<open>The read loop\<close>

text \<open>Allocating the bounce buffer, unless there is one already.\<close>

lemma bounce_alloc:
  assumes "fs_holds s c"
  obtains s0 ok where "(if bounce then (s, True) else fs_malloc s) = (s0, ok)" "fs_frame s s0"
    "fs_mallocs s = [] \<longrightarrow> ok" "fs_holds s0 c"
proof -
  obtain s0 ok where s0: "(if bounce then (s, True) else fs_malloc s) = (s0, ok)"
    by (cases "if bounce then (s, True) else fs_malloc s")
  moreover have "fs_frame s s0" "fs_mallocs s = [] \<longrightarrow> ok" "fs_holds s0 c"
    using s0 fs_malloc_frame [of s s0 ok] fs_frame_simps(1) [of s s0] fs_holds_blocks [OF assms, of s0] assms
    by (auto split: if_splits)
  ultimately show thesis by (rule that)
qed

text \<open>The sector an iteration works on.\<close>

lemma loop_sector:
  assumes "fs_holds s c" and "inode_ok s (i_data inode)" and "0 \<le> offset" and "offset < id_length (i_data inode)"
  defines "t \<equiv> id_start (i_data inode) + word_of_nat (nat offset div 512)"
  shows "byte_to_sector inode offset = t" and "t < fs_size s" and "length (c t) = 512"
    and "offset smod 512 = int (nat offset mod 512)"
proof -
  show "byte_to_sector inode offset = t" unfolding t_def by (rule byte_to_sector_nat [OF assms(3,4)])
  show lt: "t < fs_size s" unfolding t_def by (rule sector_in_range(1) [OF assms(2)]) (use assms(3,4) in simp)
  show "length (c t) = 512" using assms(1) lt by (simp add: fs_holds_def BLOCK_SECTOR_SIZE_def)
  show "offset smod 512 = int (nat offset mod 512)" using assms(3) by (simp add: smod_512 zmod_int)
qed

lemma read_step:
  assumes h: "fs_holds s c" and ok: "inode_ok s (i_data inode)" and o0: "0 \<le> offset"
    and lt: "0 < size'" "offset < id_length (i_data inode)" and n: "chunk inode size' offset = int n" "0 < n"
      "nat offset + n \<le> nat (id_length (i_data inode))" "nat offset mod 512 + n \<le> 512"
  shows "(\<exists>s1 bounce'. fs_holds s1 c \<and> fs_frame s s1 \<and> read_loop s inode size' offset buf bounce
        = read_loop s1 inode (size' - int n) (offset + int n)
            (buf @ bytes_at (nat offset) n (file_bytes c (i_data inode))) bounce')
    \<or> (\<exists>s1. fs_mallocs s \<noteq> [] \<and> fs_holds s1 c \<and> fs_frame s s1
        \<and> read_loop s inode size' offset buf bounce = Some (s1, buf))"
proof -
  let ?t = "id_start (i_data inode) + word_of_nat (nat offset div 512)"
  note t = loop_sector [OF h ok o0 lt(2)]
  have piece: "bytes_at (nat offset mod 512) n (c ?t) = bytes_at (nat offset) n (file_bytes c (i_data inode))"
    by (rule chunk_bytes [where c = c, OF n(4,3) t(3)])
  show ?thesis
  proof (cases "offset smod 512 = 0 \<and> n = 512")
    case full: True
    then have "bytes_at (nat offset) n (file_bytes c (i_data inode)) = c ?t" using piece t(3,4) by simp
    moreover obtain s1 where "fs_read s ?t = Some (s1, c ?t)" "fs_holds s1 c" "fs_frame s s1"
      using fs_read_holds [OF h t(2)] by blast
    ultimately have "fs_holds s1 c \<and> fs_frame s s1 \<and> read_loop s inode size' offset buf bounce
        = read_loop s1 inode (size' - int n) (offset + int n)
            (buf @ bytes_at (nat offset) n (file_bytes c (i_data inode))) bounce"
      using lt full n t(1) by (subst read_loop.simps) (simp add: Let_def BLOCK_SECTOR_SIZE_def)
    then show ?thesis by blast
  next
    case part: False
    obtain s0 ok' where s0: "(if bounce then (s, True) else fs_malloc s) = (s0, ok')" "fs_frame s s0"
        "fs_mallocs s = [] \<longrightarrow> ok'" "fs_holds s0 c"
      using bounce_alloc [OF h] .
    have "?t < fs_size s0" using t(2) fs_frame_size [OF s0(2) h] by simp
    then obtain s1 where s1: "fs_read s0 ?t = Some (s1, c ?t)" "fs_holds s1 c" "fs_frame s0 s1"
      using fs_read_holds [OF s0(4)] by blast
    have "read_loop s inode size' offset buf bounce = (if ok' then read_loop s1 inode (size' - int n) (offset + int n)
        (buf @ bytes_at (nat offset) n (file_bytes c (i_data inode))) True else Some (s0, buf))"
      using lt part n t s0(1) s1(1) piece by (subst read_loop.simps) (auto simp: Let_def BLOCK_SECTOR_SIZE_def)
    then show ?thesis using s0 s1 fs_frame_trans [OF s0(2) s1(3)] by (cases ok') auto
  qed
qed

lemma read_loop_holds:
  "fs_holds s c \<Longrightarrow> inode_ok s (i_data inode) \<Longrightarrow> 0 \<le> offset \<Longrightarrow>
   \<exists>s' n. read_loop s inode size' offset buf bounce
       = Some (s', buf @ take n (bytes_at (nat offset) (nat size') (file_bytes c (i_data inode))))
     \<and> fs_holds s' c \<and> fs_frame s s' \<and> (fs_mallocs s = [] \<longrightarrow> n = nat size')"
proof (induction "nat size'" arbitrary: s size' offset buf bounce rule: less_induct)
  case less
  let ?F = "file_bytes c (i_data inode)"
  show ?case
  proof (cases "0 < size' \<and> offset < id_length (i_data inode)")
    case False
    then have "read_loop s inode size' offset buf bounce = Some (s, buf)"
      using chunk_le_0 [OF less.prems(3), of size' inode] by (subst read_loop.simps) (auto simp: Let_def)
    moreover have "bytes_at (nat offset) (nat size') ?F = []"
      using False less.prems(3) by (cases "0 < size'") (simp_all add: bytes_at_beyond)
    ultimately show ?thesis using less.prems(1) by auto
  next
    case True
    then obtain n where n: "chunk inode size' offset = int n" "0 < n" "int n \<le> size'"
        "nat offset + n \<le> nat (id_length (i_data inode))" "nat offset mod 512 + n \<le> 512"
      using chunk_bounds [OF less.prems(3)] by blast
    have split: "bytes_at (nat offset) (nat size') ?F
        = bytes_at (nat offset) n ?F @ bytes_at (nat (offset + int n)) (nat (size' - int n)) ?F"
      using bytes_at_split [of n "nat size'" "nat offset" ?F] n(3) less.prems(3) by (simp add: nat_add_distrib nat_diff_distrib)
    consider (go) s1 bounce' where "fs_holds s1 c" "fs_frame s s1" "read_loop s inode size' offset buf bounce
          = read_loop s1 inode (size' - int n) (offset + int n) (buf @ bytes_at (nat offset) n ?F) bounce'"
      | (stop) s1 where "fs_mallocs s \<noteq> []" "fs_holds s1 c" "fs_frame s s1"
          "read_loop s inode size' offset buf bounce = Some (s1, buf)"
      using read_step [OF less.prems(1-3) conjunct1 [OF True] conjunct2 [OF True] n(1,2,4,5)] by blast
    then show ?thesis
    proof cases
      case go
      have "inode_ok s1 (i_data inode)" using less.prems(2) fs_frame_size [OF go(2) less.prems(1)] by (simp add: inode_ok_def)
      then obtain s' m where "read_loop s inode size' offset buf bounce
          = Some (s', (buf @ bytes_at (nat offset) n ?F) @ take m (bytes_at (nat (offset + int n)) (nat (size' - int n)) ?F))"
          "fs_holds s' c" "fs_frame s1 s'" "fs_mallocs s1 = [] \<longrightarrow> m = nat (size' - int n)"
        unfolding go(3)
        using less.hyps [of "size' - int n" s1 "offset + int n" "buf @ bytes_at (nat offset) n ?F" bounce'] go(1) n(2,3) less.prems(3)
        by auto
      then show ?thesis
        using fs_frame_trans [OF go(2)] fs_frame_simps(8) [OF go(2)] n(3,4)
        by (intro exI [of _ s'] exI [of _ "n + m"]) (auto simp: split nat_diff_distrib)
    next
      case stop
      then show ?thesis by (intro exI [of _ s1] exI [of _ 0]) simp
    qed
  qed
qed

section \<open>The write loop\<close>

definition data_sectors :: "inode_disk \<Rightarrow> block_sector_t set" where
  "data_sectors d = {t. id_start d \<le> t \<and> unat t < unat (id_start d) + DIV_ROUND_UP (nat (id_length d)) 512}"

lemma data_sector: "inode_ok s d \<Longrightarrow> k < nat (id_length d) \<Longrightarrow> id_start d + word_of_nat (k div 512) \<in> data_sectors d"
  using sector_in_range(2) [of s d k] less_DIV_ROUND_UP_iff [of 512 "k div 512" "nat (id_length d)"]
    div_times_less_eq_dividend [of k 512]
  by (simp add: data_sectors_def word_le_nat_alt)

lemma file_bytes_cong: "(\<And>t. t \<in> data_sectors d \<Longrightarrow> c' t = c t) \<Longrightarrow> inode_ok s d \<Longrightarrow> file_bytes c' d = file_bytes c d"
  using data_sector [of s d] by (simp add: file_bytes_def fdata_def)

lemma file_bytes_update:
  assumes ok: "inode_ok s d" and "o' mod 512 + length data \<le> 512" and "o' + length data \<le> nat (id_length d)"
    and "0 < length data" and t: "t = id_start d + word_of_nat (o' div 512)" and len: "length (c t) = 512"
  shows "file_bytes (c(t := splice_at (o' mod 512) data (c t))) d = splice_at o' data (file_bytes c d)"
proof (rule nth_equalityI)
  fix k
  assume "k < length (file_bytes (c(t := splice_at (o' mod 512) data (c t))) d)"
  then have k: "k < nat (id_length d)" by simp
  have o': "o' < nat (id_length d)" using assms(3,4) by linarith
  have same: "id_start d + word_of_nat (k div 512) = t \<longleftrightarrow> k div 512 = o' div 512"
    using sector_in_range(2) [OF ok k] sector_in_range(2) [OF ok o'] t by (metis add_left_cancel)
  have rng: "o' \<le> k \<and> k < o' + length data \<longleftrightarrow>
      k div 512 = o' div 512 \<and> o' mod 512 \<le> k mod 512 \<and> k mod 512 < o' mod 512 + length data"
  proof
    assume r: "o' \<le> k \<and> k < o' + length data"
    then have "o' mod 512 + (k - o') < 512" using assms(2) by linarith
    from div_mod_within [OF this] r show "k div 512 = o' div 512 \<and> o' mod 512 \<le> k mod 512
        \<and> k mod 512 < o' mod 512 + length data" by auto
  next
    assume r: "k div 512 = o' div 512 \<and> o' mod 512 \<le> k mod 512 \<and> k mod 512 < o' mod 512 + length data"
    then show "o' \<le> k \<and> k < o' + length data"
      using div_mult_mod_eq [of k 512] div_mult_mod_eq [of o' 512] by linarith
  qed
  have diff: "k mod 512 - o' mod 512 = k - o'" if "k div 512 = o' div 512"
    using that div_mult_mod_eq [of k 512] div_mult_mod_eq [of o' 512] by linarith
  show "file_bytes (c(t := splice_at (o' mod 512) data (c t))) d ! k = splice_at o' data (file_bytes c d) ! k"
    using k assms same rng diff
    by (auto simp: file_bytes_def fdata_def nth_splice_at)
qed (use assms(3) in simp)

lemma write_step:
  assumes h: "fs_holds s c" and ok: "inode_ok s (i_data inode)" and o0: "0 \<le> offset"
    and lt: "0 < size'" "offset < id_length (i_data inode)" and n: "chunk inode size' offset = int n" "0 < n"
      "nat offset + n \<le> nat (id_length (i_data inode))" "nat offset mod 512 + n \<le> 512"
    and w: "0 \<le> w" "nat w + n \<le> length buffer"
  defines "t \<equiv> id_start (i_data inode) + word_of_nat (nat offset div 512)"
  shows "(\<exists>s1 bounce'. fs_holds s1 (c(t := splice_at (nat offset mod 512) (bytes_at (nat w) n buffer) (c t))) \<and> fs_frame s s1
      \<and> write_loop s inode buffer size' offset w bounce
        = write_loop s1 inode buffer (size' - int n) (offset + int n) (w + int n) bounce')
    \<or> (\<exists>s1. fs_mallocs s \<noteq> [] \<and> fs_holds s1 c \<and> fs_frame s s1
        \<and> write_loop s inode buffer size' offset w bounce = Some (s1, w))"
proof -
  let ?data = "bytes_at (nat w) n buffer"
  let ?b = "splice_at (nat offset mod 512) ?data (c t)"
  note t = loop_sector [OF h ok o0 lt(2), folded t_def]
  have data: "length ?data = n" using w by simp
  have b: "length ?b = BLOCK_SECTOR_SIZE" using t(3) n(4) data by (simp add: BLOCK_SECTOR_SIZE_def)
  show ?thesis
  proof (cases "offset smod 512 = 0 \<and> n = 512")
    case full: True
    then have "?b = ?data" using t(3,4) data by (simp add: splice_at_def)
    moreover obtain s1 where s1: "fs_write s t ?b = Some s1" "fs_holds s1 (c(t := ?b))" "fs_frame s s1"
      using fs_write_holds [OF h t(2) b] by blast
    ultimately have "fs_holds s1 (c(t := ?b)) \<and> fs_frame s s1 \<and> write_loop s inode buffer size' offset w bounce
        = write_loop s1 inode buffer (size' - int n) (offset + int n) (w + int n) bounce"
      using lt full n t(1) by (subst write_loop.simps) (simp add: Let_def BLOCK_SECTOR_SIZE_def)
    then show ?thesis by blast
  next
    case part: False
    obtain s0 ok' where s0: "(if bounce then (s, True) else fs_malloc s) = (s0, ok')" "fs_frame s s0"
        "fs_mallocs s = [] \<longrightarrow> ok'" "fs_holds s0 c"
      using bounce_alloc [OF h] .
    have "t < fs_size s0" using t(2) fs_frame_size [OF s0(2) h] by simp
    then obtain s1 where s1: "fs_read s0 t = Some (s1, c t)" "fs_holds s1 c" "fs_frame s0 s1"
      using fs_read_holds [OF s0(4)] by blast
    have "t < fs_size s1" using \<open>t < fs_size s0\<close> fs_frame_size [OF s1(3) s0(4)] by simp
    then obtain s2 where s2: "fs_write s1 t ?b = Some s2" "fs_holds s2 (c(t := ?b))" "fs_frame s1 s2"
      using fs_write_holds [OF s1(2) _ b] by blast
    have rd: "offset smod 512 > 0 \<or> int n < 512 - offset smod 512" using part n(4) t(4) by auto
    have "write_loop s inode buffer size' offset w bounce = (if ok' then write_loop s2 inode buffer (size' - int n)
        (offset + int n) (w + int n) True else Some (s0, w))"
      using lt part n t s0(1) s1(1) s2(1) rd by (subst write_loop.simps) (auto simp: Let_def BLOCK_SECTOR_SIZE_def)
    then show ?thesis
      using s0 s2 fs_frame_trans [OF s0(2) fs_frame_trans [OF s1(3) s2(3)]] by (cases ok') auto
  qed
qed

lemma write_loop_holds:
  "fs_holds s c \<Longrightarrow> inode_ok s (i_data inode) \<Longrightarrow> 0 \<le> offset \<Longrightarrow> 0 \<le> w \<Longrightarrow> nat w + nat size' \<le> length buffer \<Longrightarrow>
   \<exists>s' c' n. write_loop s inode buffer size' offset w bounce = Some (s', w + int n)
     \<and> fs_holds s' c' \<and> fs_frame s s' \<and> n \<le> min (nat size') (nat (id_length (i_data inode)) - nat offset)
     \<and> file_bytes c' (i_data inode) = splice_at (nat offset) (bytes_at (nat w) n buffer) (file_bytes c (i_data inode))
     \<and> (\<forall>t. t \<notin> data_sectors (i_data inode) \<longrightarrow> c' t = c t)
     \<and> (fs_mallocs s = [] \<longrightarrow> n = min (nat size') (nat (id_length (i_data inode)) - nat offset))"
proof (induction "nat size'" arbitrary: s c size' offset w bounce rule: less_induct)
  case less
  let ?d = "i_data inode"
  show ?case
  proof (cases "0 < size' \<and> offset < id_length ?d")
    case False
    then have "write_loop s inode buffer size' offset w bounce = Some (s, w)"
      using chunk_le_0 [OF less.prems(3), of size' inode] by (subst write_loop.simps) (auto simp: Let_def)
    moreover have "min (nat size') (nat (id_length ?d) - nat offset) = 0"
      using False less.prems(3) by (cases "0 < size'") simp_all
    ultimately show ?thesis using less.prems(1) by (intro exI [of _ s] exI [of _ c] exI [of _ 0]) simp
  next
    case True
    then obtain n where n: "chunk inode size' offset = int n" "0 < n" "int n \<le> size'"
        "nat offset + n \<le> nat (id_length ?d)" "nat offset mod 512 + n \<le> 512"
      using chunk_bounds [OF less.prems(3)] by blast
    let ?t = "id_start ?d + word_of_nat (nat offset div 512)"
    let ?c = "c(?t := splice_at (nat offset mod 512) (bytes_at (nat w) n buffer) (c ?t))"
    have wn: "nat w + n \<le> length buffer" using less.prems(5) n(3) by linarith
    consider (go) s1 bounce' where "fs_holds s1 ?c" "fs_frame s s1" "write_loop s inode buffer size' offset w bounce
          = write_loop s1 inode buffer (size' - int n) (offset + int n) (w + int n) bounce'"
      | (stop) s1 where "fs_mallocs s \<noteq> []" "fs_holds s1 c" "fs_frame s s1"
          "write_loop s inode buffer size' offset w bounce = Some (s1, w)"
      using write_step [OF less.prems(1-3) conjunct1 [OF True] conjunct2 [OF True] n(1,2,4,5) less.prems(4) wn] by blast
    then show ?thesis
    proof cases
      case go
      have ok1: "inode_ok s1 ?d" using less.prems(2) fs_frame_size [OF go(2) less.prems(1)] by (simp add: inode_ok_def)
      have upd: "file_bytes ?c ?d = splice_at (nat offset) (bytes_at (nat w) n buffer) (file_bytes c ?d)"
        using loop_sector(3) [OF less.prems(1-3) conjunct2 [OF True]] n wn
        by (intro file_bytes_update [OF less.prems(2)]) simp_all
      have nats: "nat (offset + int n) = nat offset + n" "nat (w + int n) = nat w + n" "nat (size' - int n) = nat size' - n"
        using less.prems(3,4) by (simp_all add: nat_add_distrib nat_diff_distrib)
      have len: "nat (w + int n) + nat (size' - int n) \<le> length buffer"
        unfolding nats using less.prems(5) n(3) by linarith
      obtain s' c' m where ih: "write_loop s inode buffer size' offset w bounce = Some (s', w + int n + int m)"
          "fs_holds s' c'" "fs_frame s1 s'" "m \<le> min (nat (size' - int n)) (nat (id_length ?d) - nat (offset + int n))"
          "file_bytes c' ?d = splice_at (nat (offset + int n)) (bytes_at (nat (w + int n)) m buffer) (file_bytes ?c ?d)"
          "\<forall>t. t \<notin> data_sectors ?d \<longrightarrow> c' t = ?c t"
          "fs_mallocs s1 = [] \<longrightarrow> m = min (nat (size' - int n)) (nat (id_length ?d) - nat (offset + int n))"
        unfolding go(3)
        using less.hyps [of "size' - int n" s1 ?c "offset + int n" "w + int n" bounce'] go(1) ok1 n(2,3) less.prems(3,4) len
        by auto
      let ?max = "min (nat size') (nat (id_length ?d) - nat offset)"
      have nle: "n \<le> nat size'" "n \<le> nat (id_length ?d) - nat offset" using n(3,4) by linarith+
      have max': "min (nat (size' - int n)) (nat (id_length ?d) - nat (offset + int n)) = ?max - n"
        unfolding nats min_def using nle by (simp, linarith)
      have nm: "n + m \<le> ?max" "fs_mallocs s = [] \<longrightarrow> n + m = ?max"
      proof -
        have "n \<le> ?max" using nle by simp
        then show "n + m \<le> ?max" using ih(4) unfolding max' by linarith
        show "fs_mallocs s = [] \<longrightarrow> n + m = ?max"
          using ih(7) fs_frame_simps(8) [OF go(2)] \<open>n \<le> ?max\<close> unfolding max' by auto
      qed
      have "file_bytes c' ?d = splice_at (nat offset) (bytes_at (nat w) (n + m) buffer) (file_bytes c ?d)"
        unfolding ih(5) upd nats using nm(1) n(4) less.prems(5) by (intro splice_bytes_at) (simp_all, linarith)
      moreover have "?t \<in> data_sectors ?d" by (rule data_sector [OF less.prems(2)]) (use True less.prems(3) in simp)
      then have "\<forall>t. t \<notin> data_sectors ?d \<longrightarrow> c' t = c t" using ih(6) by auto
      ultimately show ?thesis
        using ih(1,2) fs_frame_trans [OF go(2) ih(3)] nm
        by (intro exI [of _ s'] exI [of _ c'] exI [of _ "n + m"]) simp
    next
      case stop
      then show ?thesis by (intro exI [of _ s1] exI [of _ c] exI [of _ 0]) simp
    qed
  qed
qed

section \<open>Reading and writing a file\<close>

lemma inode_read_at_holds:
  assumes "fs_holds s c" and "inodes s i = Some inode" and "inode_ok s (i_data inode)" and "0 \<le> offset"
  shows "\<exists>s' n. inode_read_at s i size' offset
       = Some (s', take n (bytes_at (nat offset) (nat size') (file_bytes c (i_data inode))))
     \<and> fs_holds s' c \<and> fs_frame s s' \<and> (fs_mallocs s = [] \<longrightarrow> n = nat size')"
  using read_loop_holds [OF assms(1,3,4), of size' "[]" False] assms(2) by (simp add: inode_read_at_def)

lemma inode_write_at_holds:
  assumes "fs_holds s c" and "inodes s i = Some inode" and "inode_ok s (i_data inode)" and "0 \<le> offset"
    and "nat size' \<le> length buffer" and "deny_write_cnt inode = 0"
  shows "\<exists>s' c' n. inode_write_at s i buffer size' offset = Some (s', int n) \<and> fs_holds s' c' \<and> fs_frame s s'
     \<and> n \<le> min (nat size') (nat (id_length (i_data inode)) - nat offset)
     \<and> file_bytes c' (i_data inode) = splice_at (nat offset) (take n buffer) (file_bytes c (i_data inode))
     \<and> (\<forall>t. t \<notin> data_sectors (i_data inode) \<longrightarrow> c' t = c t)
     \<and> (fs_mallocs s = [] \<longrightarrow> n = min (nat size') (nat (id_length (i_data inode)) - nat offset))"
  using write_loop_holds [OF assms(1,3,4), of 0 size' buffer False] assms(2,5,6)
  by (simp add: inode_write_at_def bytes_at_def)

lemma inode_write_at_denied:
  "inodes s i = Some inode \<Longrightarrow> deny_write_cnt inode \<noteq> 0 \<Longrightarrow> inode_write_at s i buffer size' offset = Some (s, 0)"
  by (simp add: inode_write_at_def)

lemma inode_ok_frame: "inode_ok s d \<Longrightarrow> fs_frame s s' \<Longrightarrow> fs_holds s c \<Longrightarrow> inode_ok s' d"
  using fs_frame_size [of s s' c] by (simp add: inode_ok_def)

lemma bytes_to_sectors_nat:
  assumes "0 \<le> size'" and "size' + 511 < 2 ^ 31"
  shows "unat (bytes_to_sectors size') = DIV_ROUND_UP (nat size') 512"
proof -
  obtain n where n: "size' = int n" using assms(1) zero_le_imp_eq_int by blast
  have "s32 (int n + 512 - 1) = int n + 511"
    using assms n by (simp add: s32_id)
  moreover have "(int n + 511) sdiv 512 = int ((n + 511) div 512)"
    by (simp add: sdiv_512 zdiv_int)
  ultimately have "bytes_to_sectors size' = word_of_nat ((n + 511) div 512)"
    by (simp add: bytes_to_sectors_def BLOCK_SECTOR_SIZE_def n)
  moreover have "(n + 511) div 512 < 2 ^ 32" using assms(2) n by simp
  ultimately show ?thesis by (simp add: DIV_ROUND_UP_def n unat_of_nat)
qed

section \<open>Properties\<close>

text \<open>C13. \<^verbatim>\<open>inode_read_at\<close> returns the bytes of the file from the offset on, at most the requested number and up to the end
  of the file, across sector boundaries; when the bounce buffer cannot be allocated it returns a prefix of them.  It
  changes nothing but statistics.\<close>

theorem inode_read_at_correct:
  assumes "fs_holds s c" and "inodes s i = Some inode" and "inode_ok s (i_data inode)" and "0 \<le> offset"
  shows "\<exists>s' n. inode_read_at s i size' offset
        = Some (s', take n (take (nat size') (drop (nat offset) (file_bytes c (i_data inode)))))
      \<and> fs_holds s' c \<and> fs_frame s s' \<and> (fs_mallocs s = [] \<longrightarrow> n = nat size')"
  using inode_read_at_holds [OF assms, of size'] by (simp add: bytes_at_def)

text \<open>C4. \<^verbatim>\<open>inode_write_at\<close> replaces the bytes of the file from the offset on by the leading bytes of the buffer, as many as
  requested and fit before the end of the file (the file never grows), and returns their number; bytes of the file outside
  that range and all sectors outside the file's data keep their contents.  When the bounce buffer cannot be allocated,
  fewer bytes are written and counted.\<close>

theorem inode_write_at_correct:
  assumes "fs_holds s c" and "inodes s i = Some inode" and "inode_ok s (i_data inode)" and "0 \<le> offset"
    and "nat size' \<le> length buffer" and "deny_write_cnt inode = 0"
  shows "\<exists>s' c' n. inode_write_at s i buffer size' offset = Some (s', int n) \<and> fs_holds s' c' \<and> fs_frame s s'
     \<and> n \<le> min (nat size') (nat (id_length (i_data inode)) - nat offset)
     \<and> (fs_mallocs s = [] \<longrightarrow> n = min (nat size') (nat (id_length (i_data inode)) - nat offset))
     \<and> file_bytes c' (i_data inode) = splice_at (nat offset) (take n buffer) (file_bytes c (i_data inode))
     \<and> (\<forall>t. t \<notin> data_sectors (i_data inode) \<longrightarrow> c' t = c t)"
  using inode_write_at_holds [OF assms] by blast

text \<open>C6. What is written to a file inside its bounds reads back unchanged, whatever the alignment to sectors.\<close>

theorem inode_write_read_round_trip:
  assumes "fs_holds s c" and "inodes s i = Some inode" and "inode_ok s (i_data inode)" and "0 \<le> offset"
    and "offset + int (length buffer) \<le> id_length (i_data inode)" and "deny_write_cnt inode = 0" and "fs_mallocs s = []"
  shows "\<exists>s1 s2. inode_write_at s i buffer (int (length buffer)) offset = Some (s1, int (length buffer))
      \<and> inode_read_at s1 i (int (length buffer)) offset = Some (s2, buffer)"
proof -
  have fits: "nat offset + length buffer \<le> nat (id_length (i_data inode))" using assms(4,5) by linarith
  obtain s1 c1 n where w: "inode_write_at s i buffer (int (length buffer)) offset = Some (s1, int n)" "fs_holds s1 c1"
      "fs_frame s s1" "n = length buffer"
      "file_bytes c1 (i_data inode) = splice_at (nat offset) (take n buffer) (file_bytes c (i_data inode))"
    using inode_write_at_holds [OF assms(1-4), of "int (length buffer)" buffer] assms(6,7) fits by auto
  have "inodes s1 i = Some inode" "fs_mallocs s1 = []" using fs_frame_simps [OF w(3)] assms(2,7) by simp_all
  moreover have "inode_ok s1 (i_data inode)" by (rule inode_ok_frame [OF assms(3) w(3) assms(1)])
  ultimately obtain s2 where "inode_read_at s1 i (int (length buffer)) offset
      = Some (s2, bytes_at (nat offset) (length buffer) (file_bytes c1 (i_data inode)))"
    using inode_read_at_holds [OF w(2), of i inode offset "int (length buffer)"] assms(4) by auto
  then show ?thesis
    using w bytes_at_splice [of "nat offset" buffer "file_bytes c (i_data inode)"] fits by simp
qed

section \<open>Concrete instances\<close>

text \<open>A file system on device 1 of the example disk: the free map inode in sector 0 with its data in sector 2, and a file of
  1000 bytes in sectors 10 and 11.\<close>

definition ex_fs :: fs where
  "ex_fs = \<lparr>fs_blocks = ex_blocks, fs_device = 1,
     free_map = \<lparr>bit_cnt = 100, bits = [0xC0F, 0, 0, 0]\<rparr>, free_map_file = Some 0, open_inodes = [1, 0],
     inodes = (\<lambda>_. None)
       (0 := Some \<lparr>i_sector = 0, open_cnt = 1, removed = False, deny_write_cnt = 0,
          i_data = \<lparr>id_start = 2, id_length = 16, id_magic = INODE_MAGIC\<rparr>\<rparr>,
        1 := Some \<lparr>i_sector = 3, open_cnt = 1, removed = False, deny_write_cnt = 0,
          i_data = \<lparr>id_start = 10, id_length = 1000, id_magic = INODE_MAGIC\<rparr>\<rparr>),
     files = (\<lambda>_. None)(0 := Some \<lparr>f_inode = 0, f_pos = 0, f_deny_write = False\<rparr>),
     fs_next = 2, fs_mallocs = []\<rparr>"

abbreviation ex_ino :: inode where
  "ex_ino \<equiv> \<lparr>i_sector = 3, open_cnt = 1, removed = False, deny_write_cnt = 0,
     i_data = \<lparr>id_start = 10, id_length = 1000, id_magic = INODE_MAGIC\<rparr>\<rparr>"

lemma ex_fs_size [simp]: "fs_size ex_fs = 100"
  by (simp add: fs_size_def ex_fs_def)

lemma ex_fs_fields [simp]: "inodes ex_fs 1 = Some ex_ino" "inodes ex_fs (Suc 0) = Some ex_ino" "fs_mallocs ex_fs = []"
  by (simp_all add: ex_fs_def)

lemma ex_fs_holds: "fs_holds ex_fs (\<lambda>_. replicate 512 0)"
proof -
  have "10 + t \<noteq> 0" if "t < (100 :: block_sector_t)" for t
  proof -
    have "unat (10 + t) = 10 + unat t" using that by (simp add: unat_plus_if' word_less_nat_alt)
    then show ?thesis by (auto dest: arg_cong [of _ _ unat])
  qed
  then have "media ex_blocks 0 (10 + t) = replicate 512 0" if "t < 100" for t
    using that by (simp add: ex_blocks_def)
  then have "dev_holds 1 0 10 100 ex_blocks (\<lambda>_. replicate 512 0)"
    using ex_dev_1 by (simp add: dev_holds_def)
  then have "dev_holds (fs_device ex_fs) 0 10 (fs_size ex_fs) (fs_blocks ex_fs) (\<lambda>_. replicate 512 0)"
    by (simp add: ex_fs_def fs_size_def)
  then show ?thesis unfolding fs_holds_def BLOCK_SECTOR_SIZE_def by (metis length_replicate)
qed

lemma ex_ino_ok: "inode_ok ex_fs (i_data ex_ino)"
  by (simp add: inode_ok_def DIV_ROUND_UP_def)

theorem inode_read_at_correct_witness:
  "\<exists>s' n. inode_read_at ex_fs 1 600 100
        = Some (s', take n (take (nat 600) (drop (nat 100) (file_bytes (\<lambda>_. replicate 512 0) (i_data ex_ino)))))
      \<and> fs_holds s' (\<lambda>_. replicate 512 0) \<and> fs_frame ex_fs s' \<and> (fs_mallocs ex_fs = [] \<longrightarrow> n = nat 600)"
  by (rule inode_read_at_correct [OF ex_fs_holds ex_fs_fields(1) ex_ino_ok]) simp

theorem inode_write_at_correct_witness:
  "\<exists>s' c' n. inode_write_at ex_fs 1 (replicate 600 7) 600 500 = Some (s', int n) \<and> fs_holds s' c' \<and> fs_frame ex_fs s'
     \<and> n \<le> min (nat 600) (nat (id_length (i_data ex_ino)) - nat 500)
     \<and> (fs_mallocs ex_fs = [] \<longrightarrow> n = min (nat 600) (nat (id_length (i_data ex_ino)) - nat 500))
     \<and> file_bytes c' (i_data ex_ino) = splice_at (nat 500) (take n (replicate 600 7)) (file_bytes (\<lambda>_. replicate 512 0) (i_data ex_ino))
     \<and> (\<forall>t. t \<notin> data_sectors (i_data ex_ino) \<longrightarrow> c' t = replicate 512 0)"
  by (rule inode_write_at_correct [OF ex_fs_holds ex_fs_fields(1) ex_ino_ok]) simp_all

theorem inode_write_read_round_trip_witness:
  "\<exists>s1 s2. inode_write_at ex_fs 1 (replicate 600 7) (int (length (replicate 600 (7 :: byte)))) 300
        = Some (s1, int (length (replicate 600 (7 :: byte))))
      \<and> inode_read_at s1 1 (int (length (replicate 600 (7 :: byte)))) 300 = Some (s2, replicate 600 7)"
  by (rule inode_write_read_round_trip [OF ex_fs_holds ex_fs_fields(1) ex_ino_ok]) simp_all

end
