(* ===== verification/FreeMap.thy ===== *)
theory FreeMap
  imports Inode
begin

text \<open>
  The free map, \<^verbatim>\<open>src/src/filesys/free-map.c\<close>, with the file input and output of bitmaps from
  \<^verbatim>\<open>src/src/lib/kernel/bitmap.c\<close>: sector allocation, its persistence in the free map file, and the allocator contract.
\<close>

section \<open>Positioned file access and bitmaps in files\<close>

definition file_read_at :: "fs \<Rightarrow> nat \<Rightarrow> int \<Rightarrow> int \<Rightarrow> (fs \<times> byte list) option" where
  "file_read_at s f size' file_ofs = do {
     fl \<leftarrow> files s f;
     inode_read_at s (f_inode fl) size' file_ofs
   }"

definition file_write_at :: "fs \<Rightarrow> nat \<Rightarrow> byte list \<Rightarrow> int \<Rightarrow> int \<Rightarrow> (fs \<times> int) option" where
  "file_write_at s f buffer size' file_ofs = do {
     fl \<leftarrow> files s f;
     inode_write_at s (f_inode fl) buffer size' file_ofs
   }"

definition bitmap_file_size :: "bitmap \<Rightarrow> 32 word" where
  "bitmap_file_size b = byte_cnt (bit_cnt b)"

text \<open>\<^verbatim>\<open>bitmap_read\<close> overwrites the elements with what it reads, complete or not, and clears the unused bits of the last
  one.\<close>

definition bitmap_read :: "fs \<Rightarrow> bitmap \<Rightarrow> nat \<Rightarrow> (fs \<times> bitmap \<times> bool) option" where
  "bitmap_read s b f =
     (if bit_cnt b > 0 then do {
        let size' = sint (byte_cnt (bit_cnt b));
        (s, data) \<leftarrow> file_read_at s f size' 0;
        let success = (int (length data) = size');
        let b = b\<lparr>bits := bytes_to_words (splice_at 0 data (words_to_bytes (bits b)))\<rparr>;
        b \<leftarrow> upd_elem b (elem_cnt (bit_cnt b) - 1) (\<lambda>e. e AND last_mask b);
        Some (s, b, success)
      }
      else Some (s, b, True))"

definition bitmap_write :: "fs \<Rightarrow> bitmap \<Rightarrow> nat \<Rightarrow> (fs \<times> bool) option" where
  "bitmap_write s b f = do {
     let size' = sint (byte_cnt (bit_cnt b));
     (s, n) \<leftarrow> file_write_at s f (words_to_bytes (bits b)) size' 0;
     Some (s, n = size')
   }"

section \<open>The free map\<close>

definition FREE_MAP_SECTOR :: block_sector_t where
  "FREE_MAP_SECTOR = 0"

definition ROOT_DIR_SECTOR :: block_sector_t where
  "ROOT_DIR_SECTOR = 1"

text \<open>\<open>mem\<close> is the storage \<^verbatim>\<open>bitmap_create\<close> obtains for the elements, if any.\<close>

definition free_map_init :: "fs \<Rightarrow> elem_type list option \<Rightarrow> fs option" where
  "free_map_init s mem = do {
     bl \<leftarrow> descr (fs_blocks s) (fs_device s);
     let (s, hdr) = fs_malloc s;
     r \<leftarrow> bitmap_create hdr mem (block_size bl);
     b \<leftarrow> r;
     b \<leftarrow> bitmap_mark b FREE_MAP_SECTOR;
     b \<leftarrow> bitmap_mark b ROOT_DIR_SECTOR;
     Some (s\<lparr>free_map := b\<rparr>)
   }"

definition free_map_allocate :: "fs \<Rightarrow> 32 word \<Rightarrow> (fs \<times> block_sector_t option) option" where
  "free_map_allocate s cnt = do {
     (fm, sector) \<leftarrow> bitmap_scan_and_flip (free_map s) 0 cnt False;
     let s = s\<lparr>free_map := fm\<rparr>;
     (s, ok) \<leftarrow> (case free_map_file s of
         Some f \<Rightarrow> (if sector \<noteq> BITMAP_ERROR then bitmap_write s fm f else Some (s, True))
       | None \<Rightarrow> Some (s, True));
     if \<not> ok then do {
       fm \<leftarrow> bitmap_set_multiple (free_map s) sector cnt False;
       Some (s\<lparr>free_map := fm\<rparr>, None)
     }
     else Some (s, if sector \<noteq> BITMAP_ERROR then Some sector else None)
   }"

definition free_map_release :: "fs \<Rightarrow> block_sector_t \<Rightarrow> 32 word \<Rightarrow> fs option" where
  "free_map_release s sector cnt = do {
     a \<leftarrow> bitmap_all (free_map s) sector cnt;
     ASSERT a;
     fm \<leftarrow> bitmap_set_multiple (free_map s) sector cnt False;
     let s = s\<lparr>free_map := fm\<rparr>;
     f \<leftarrow> free_map_file s;
     (s, ok) \<leftarrow> bitmap_write s fm f;
     Some s
   }"

section \<open>Writing the free map\<close>

text \<open>The free map file is open, writable, and has room for the map; its data is described by \<open>d\<close>.\<close>

definition fm_ok :: "fs \<Rightarrow> inode_disk \<Rightarrow> bool" where
  "fm_ok s d \<longleftrightarrow> bitmap_wf (free_map s) \<and> (\<exists>f fl ino. free_map_file s = Some f \<and> files s f = Some fl
     \<and> inodes s (f_inode fl) = Some ino \<and> i_data ino = d \<and> deny_write_cnt ino = 0 \<and> inode_ok s d
     \<and> 4 * length (bits (free_map s)) \<le> nat (id_length d))"

text \<open>What the free map file says: the elements stored in its first bytes.\<close>

definition stored_map :: "(block_sector_t \<Rightarrow> byte list) \<Rightarrow> inode_disk \<Rightarrow> nat \<Rightarrow> elem_type list" where
  "stored_map c d n = bytes_to_words (take (4 * n) (file_bytes c d))"

lemma sint_byte_cnt:
  assumes "unat cnt + 31 < 2 ^ 32"
  shows "sint (byte_cnt cnt) = int (4 * unat (elem_cnt cnt))"
proof -
  have "DIV_ROUND_UP (unat cnt) 32 \<le> 2 ^ 27"
    using assms by (simp add: DIV_ROUND_UP_le_iff)
  then have e: "unat (elem_cnt cnt) \<le> 2 ^ 27" using assms by (simp add: unat_elem_cnt)
  then have u: "unat (byte_cnt cnt) = 4 * unat (elem_cnt cnt)"
    by (simp add: byte_cnt_def unat_mult_lem [THEN iffD1])
  then show ?thesis using e sint_eq_unat [of "byte_cnt cnt"] by simp
qed

lemma bitmap_write_holds:
  assumes h: "fs_holds s c" and wf: "bitmap_wf b" and fl: "files s f = Some fl" "inodes s (f_inode fl) = Some ino"
    and d: "i_data ino = d" "deny_write_cnt ino = 0" "inode_ok s d" "4 * length (bits b) \<le> nat (id_length d)"
  shows "\<exists>s' c' ok. bitmap_write s b f = Some (s', ok) \<and> fs_holds s' c' \<and> fs_frame s s'
    \<and> (ok \<longrightarrow> stored_map c' d (length (bits b)) = bits b)
    \<and> (\<forall>t. t \<notin> data_sectors d \<longrightarrow> c' t = c t) \<and> (fs_mallocs s = [] \<longrightarrow> ok)"
proof -
  define n0 where "n0 = 4 * length (bits b)"
  have size: "sint (byte_cnt (bit_cnt b)) = int n0" using wf sint_byte_cnt by (simp add: bitmap_wf_def n0_def)
  obtain s' c' n where w: "inode_write_at s (f_inode fl) (words_to_bytes (bits b)) (int n0) 0 = Some (s', int n)"
      "fs_holds s' c'" "fs_frame s s'"
      "file_bytes c' d = splice_at 0 (take n (words_to_bytes (bits b))) (file_bytes c d)"
      "\<forall>t. t \<notin> data_sectors d \<longrightarrow> c' t = c t" "fs_mallocs s = [] \<longrightarrow> n = min n0 (nat (id_length d))"
    using inode_write_at_holds [OF h fl(2), of 0 "int n0" "words_to_bytes (bits b)"] d by (auto simp: n0_def [symmetric])
  have "stored_map c' d (length (bits b)) = bits b" if "n = n0"
    using that w(4) by (simp add: stored_map_def splice_at_def n0_def)
  then have "n = n0 \<longrightarrow> stored_map c' d (length (bits b)) = bits b" "fs_mallocs s = [] \<longrightarrow> n = n0"
    using w(6) d(4) by (simp_all add: n0_def)
  then show ?thesis
    using w fl by (intro exI [of _ s'] exI [of _ c'] exI [of _ "n = n0"]) (auto simp: bitmap_write_def file_write_at_def size)
qed

lemma set_range_undo: "run_at xs v i n \<Longrightarrow> set_range (set_range xs i n (\<not> v)) i n v = xs"
  by (rule nth_equalityI) (auto simp: run_at_def nth_set_range dest: le_Suc_ex)

section \<open>Allocation and release\<close>

lemma fs_holds_free_map [simp]: "fs_holds (s\<lparr>free_map := m\<rparr>) c \<longleftrightarrow> fs_holds s c"
  by (simp add: fs_holds_def fs_size_def)

lemma inode_ok_free_map [simp]: "inode_ok (s\<lparr>free_map := m\<rparr>) d \<longleftrightarrow> inode_ok s d"
  by (simp add: inode_ok_def fs_size_def)

text \<open>Storing a new map that has as many elements as the current one keeps \<open>fm_ok\<close>.\<close>

lemma fm_ok_replace:
  assumes "fm_ok s d" and "bitmap_wf m" and "bit_cnt m = bit_cnt (free_map s)"
  shows "fm_ok (s\<lparr>free_map := m\<rparr>) d" and "length (bits m) = length (bits (free_map s))"
  using assms by (auto simp: fm_ok_def bitmap_wf_def)

lemma fm_ok_frame:
  assumes "fm_ok s d" and "fs_frame s s'" and "fs_holds s c"
  shows "fm_ok s' d"
  using assms(1) inode_ok_frame [OF _ assms(2,3)] fs_frame_simps [OF assms(2)] by (auto simp: fm_ok_def)

lemma free_map_write:
  assumes "fs_holds s c" and "fm_ok s d" and "bitmap_wf m" and "bit_cnt m = bit_cnt (free_map s)"
    and "free_map_file s = Some f"
  shows "\<exists>s' c' ok. bitmap_write (s\<lparr>free_map := m\<rparr>) m f = Some (s', ok) \<and> fs_holds s' c'
    \<and> fs_frame (s\<lparr>free_map := m\<rparr>) s' \<and> fm_ok s' d
    \<and> (ok \<longrightarrow> stored_map c' d (length (bits m)) = bits m)
    \<and> (\<forall>t. t \<notin> data_sectors d \<longrightarrow> c' t = c t) \<and> (fs_mallocs s = [] \<longrightarrow> ok)"
proof -
  let ?s = "s\<lparr>free_map := m\<rparr>"
  have ok: "fm_ok ?s d" and h: "fs_holds ?s c" using fm_ok_replace(1) [OF assms(2-4)] assms(1) by simp_all
  obtain fl ino where fl: "files ?s f = Some fl" "inodes ?s (f_inode fl) = Some ino" "i_data ino = d"
      "deny_write_cnt ino = 0" "inode_ok ?s d" "4 * length (bits m) \<le> nat (id_length d)"
    using ok assms(5) by (auto simp: fm_ok_def)
  obtain s' c' w where w: "bitmap_write ?s m f = Some (s', w)" "fs_holds s' c'" "fs_frame ?s s'"
      "w \<longrightarrow> stored_map c' d (length (bits m)) = bits m" "\<forall>t. t \<notin> data_sectors d \<longrightarrow> c' t = c t" "fs_mallocs ?s = [] \<longrightarrow> w"
    using bitmap_write_holds [OF h assms(3) fl] by blast
  then show ?thesis
    using fm_ok_frame [OF ok w(3) h] by (intro exI [of _ s'] exI [of _ c'] exI [of _ w]) simp
qed

lemma free_map_allocate_holds:
  assumes h: "fs_holds s c" and ok: "fm_ok s d"
  shows "\<exists>s' c' r. free_map_allocate s cnt = Some (s', r) \<and> fs_holds s' c' \<and> fm_ok s' d
    \<and> fs_frame (s\<lparr>free_map := free_map s'\<rparr>) s' \<and> bit_cnt (free_map s') = bit_cnt (free_map s)
    \<and> (\<forall>t. t \<notin> data_sectors d \<longrightarrow> c' t = c t)
    \<and> (case r of
         None \<Rightarrow> bits_of (free_map s') = bits_of (free_map s)
           \<and> (fs_mallocs s = [] \<longrightarrow> (\<forall>j. \<not> run_at (bits_of (free_map s)) False j (unat cnt)))
       | Some i \<Rightarrow> run_at (bits_of (free_map s)) False (unat i) (unat cnt)
           \<and> (\<forall>j < unat i. \<not> run_at (bits_of (free_map s)) False j (unat cnt))
           \<and> bits_of (free_map s') = set_range (bits_of (free_map s)) (unat i) (unat cnt) True
           \<and> stored_map c' d (length (bits (free_map s'))) = bits (free_map s'))"
proof -
  have wf: "bitmap_wf (free_map s)" using ok by (simp add: fm_ok_def)
  obtain f where f: "free_map_file s = Some f" using ok by (auto simp: fm_ok_def)
  obtain m i where m: "bitmap_scan_and_flip (free_map s) 0 cnt False = Some (m, i)"
      "first_run (bits_of (free_map s)) False 0 (unat cnt) i" "bitmap_wf m" "bit_cnt m = bit_cnt (free_map s)"
      "bits_of m = (if i = BITMAP_ERROR then bits_of (free_map s)
        else set_range (bits_of (free_map s)) (unat i) (unat cnt) True)"
    using bitmap_scan_and_flip_bits [OF wf, of 0 cnt False] by auto
  show ?thesis
  proof (cases "i = BITMAP_ERROR")
    case True
    then have "free_map_allocate s cnt = Some (s\<lparr>free_map := m\<rparr>, None)"
      using m(1) f by (simp add: free_map_allocate_def)
    then show ?thesis
      using True m h fm_ok_replace(1) [OF ok m(3,4)]
      by (intro exI [of _ "s\<lparr>free_map := m\<rparr>"] exI [of _ c] exI [of _ None]) (simp add: first_run_def)
  next
    case False
    then have run: "run_at (bits_of (free_map s)) False (unat i) (unat cnt)"
      "\<forall>j < unat i. \<not> run_at (bits_of (free_map s)) False j (unat cnt)"
      using m(2) by (simp_all add: first_run_def)
    obtain s1 c1 w where w: "bitmap_write (s\<lparr>free_map := m\<rparr>) m f = Some (s1, w)" "fs_holds s1 c1"
        "fs_frame (s\<lparr>free_map := m\<rparr>) s1" "fm_ok s1 d" "w \<longrightarrow> stored_map c1 d (length (bits m)) = bits m"
        "\<forall>t. t \<notin> data_sectors d \<longrightarrow> c1 t = c t" "fs_mallocs s = [] \<longrightarrow> w"
      using free_map_write [OF h ok m(3,4) f] by blast
    have fm1: "free_map s1 = m" using fs_frame_simps(2) [OF w(3)] by simp
    show ?thesis
    proof (cases w)
      case True
      then have "free_map_allocate s cnt = Some (s1, Some i)"
        using m(1) f w(1) False by (simp add: free_map_allocate_def)
      then show ?thesis
        using w True m False fm1 run by (intro exI [of _ s1] exI [of _ c1] exI [of _ "Some i"]) simp
    next
      case fail: False
      have "unat i + unat cnt \<le> unat (bit_cnt m)" using run(1) m(4) by (simp add: run_at_def)
      then obtain m2 where m2: "bitmap_set_multiple m i cnt False = Some m2" "bitmap_wf m2" "bit_cnt m2 = bit_cnt m"
          "bits_of m2 = set_range (bits_of m) (unat i) (unat cnt) False"
        using bitmap_set_multiple_bits [OF m(3), of i cnt False] by blast
      then have bits: "bits_of m2 = bits_of (free_map s)"
        using m(5) False set_range_undo [OF run(1)] by simp
      let ?s = "s1\<lparr>free_map := m2\<rparr>"
      have "free_map_allocate s cnt = Some (?s, None)"
        using m(1) f w(1) False fail m2(1) fm1 by (simp add: free_map_allocate_def)
      moreover have "fm_ok ?s d" using fm_ok_replace(1) [OF w(4) m2(2)] m2(3) fm1 by simp
      moreover have "fs_frame (s\<lparr>free_map := m2\<rparr>) ?s" using w(3) by (auto simp: fs_frame_def)
      ultimately show ?thesis
        using w(2,6,7) fail bits m2(3) m(4) by (intro exI [of _ ?s] exI [of _ c1] exI [of _ None]) simp
    qed
  qed
qed

lemma free_map_release_holds:
  assumes h: "fs_holds s c" and ok: "fm_ok s d" and all: "run_at (bits_of (free_map s)) True (unat i) (unat cnt)"
  shows "\<exists>s' c'. free_map_release s i cnt = Some s' \<and> fs_holds s' c' \<and> fm_ok s' d
    \<and> fs_frame (s\<lparr>free_map := free_map s'\<rparr>) s' \<and> bit_cnt (free_map s') = bit_cnt (free_map s)
    \<and> (\<forall>t. t \<notin> data_sectors d \<longrightarrow> c' t = c t)
    \<and> bits_of (free_map s') = set_range (bits_of (free_map s)) (unat i) (unat cnt) False
    \<and> (fs_mallocs s = [] \<longrightarrow> stored_map c' d (length (bits (free_map s'))) = bits (free_map s'))"
proof -
  have wf: "bitmap_wf (free_map s)" using ok by (simp add: fm_ok_def)
  obtain f where f: "free_map_file s = Some f" using ok by (auto simp: fm_ok_def)
  have le: "unat i + unat cnt \<le> unat (bit_cnt (free_map s))" using all by (simp add: run_at_def)
  obtain m where m: "bitmap_set_multiple (free_map s) i cnt False = Some m" "bitmap_wf m"
      "bit_cnt m = bit_cnt (free_map s)" "bits_of m = set_range (bits_of (free_map s)) (unat i) (unat cnt) False"
    using bitmap_set_multiple_bits [OF wf le, of False] by blast
  obtain s1 c1 w where w: "bitmap_write (s\<lparr>free_map := m\<rparr>) m f = Some (s1, w)" "fs_holds s1 c1"
      "fs_frame (s\<lparr>free_map := m\<rparr>) s1" "fm_ok s1 d" "w \<longrightarrow> stored_map c1 d (length (bits m)) = bits m"
      "\<forall>t. t \<notin> data_sectors d \<longrightarrow> c1 t = c t" "fs_mallocs s = [] \<longrightarrow> w"
    using free_map_write [OF h ok m(2,3) f] by blast
  have "free_map s1 = m" using fs_frame_simps(2) [OF w(3)] by simp
  moreover have "free_map_release s i cnt = Some s1"
    using m(1) w(1) f all bitmap_contains_bits [OF wf le, of False] by (simp add: free_map_release_def bitmap_all_def)
  ultimately show ?thesis using w m by auto
qed

section \<open>Reading the free map back\<close>

lemma bit_last_mask:
  assumes "unat (bit_cnt b) + 31 < 2 ^ 32" and "k < unat (bit_cnt b)" and "k div 32 = unat (elem_cnt (bit_cnt b)) - 1"
  shows "bit (last_mask b) (k mod 32)"
proof (cases "unat (bit_cnt b) mod 32 = 0")
  case True
  then have "bit_cnt b mod ELEM_BITS = 0" by (simp add: ELEM_BITS_def unat_eq_0 [symmetric] unat_mod)
  then show ?thesis by (simp add: last_mask_def)
next
  case False
  let ?n = "unat (bit_cnt b)"
  have e: "unat (elem_cnt (bit_cnt b)) = ?n div 32 + 1"
  proof -
    have "(?n + 31) div 32 = (?n div 32 * 32 + (?n mod 32 + 31)) div 32" by (simp add: add.assoc [symmetric])
    also have "\<dots> = ?n div 32 + (?n mod 32 + 31) div 32" by (subst div_mult_self3) simp_all
    also have "(?n mod 32 + 31) div 32 = 1"
    proof -
      have "?n mod 32 < 32" by simp
      then show ?thesis using False by linarith
    qed
    finally show ?thesis using assms(1) by (simp add: unat_elem_cnt DIV_ROUND_UP_def)
  qed
  then have "k div 32 = ?n div 32" using assms(3) by simp
  then have lt: "k mod 32 < ?n mod 32"
    using assms(2) div_mult_mod_eq [of k 32] div_mult_mod_eq [of ?n 32] by linarith
  have "last_mask b = mask (?n mod 32)"
    using False by (simp add: last_mask_def Let_def ELEM_BITS_def unat_eq_0 [symmetric] unat_mod mask_eq_exp_minus_1 push_bit_eq_mult)
  then show ?thesis using lt by (simp add: bit_mask_iff possible_bit_word less_trans [OF lt])
qed

lemma bitmap_read_holds:
  assumes h: "fs_holds s c" and wf: "bitmap_wf b" "0 < bit_cnt b" and fl: "files s f = Some fl" "inodes s (f_inode fl) = Some ino"
    and d: "i_data ino = d" "inode_ok s d" "4 * length (bits b) \<le> nat (id_length d)" and mem: "fs_mallocs s = []"
  shows "\<exists>s' b'. bitmap_read s b f = Some (s', b', True) \<and> fs_holds s' c \<and> fs_frame s s' \<and> bitmap_wf b'
    \<and> bit_cnt b' = bit_cnt b \<and> bits_of b' = bits_of \<lparr>bit_cnt = bit_cnt b, bits = stored_map c d (length (bits b))\<rparr>"
proof -
  define n where "n = 4 * length (bits b)"
  have size: "sint (byte_cnt (bit_cnt b)) = int n" using wf sint_byte_cnt by (simp add: bitmap_wf_def n_def)
  obtain s' where r: "inode_read_at s (f_inode fl) (int n) 0 = Some (s', take n (file_bytes c d))"
      "fs_holds s' c" "fs_frame s s'"
    using inode_read_at_holds [OF h fl(2), of 0 "int n"] d mem by (auto simp: bytes_at_def)
  let ?w = "stored_map c d (length (bits b))"
  let ?b = "b\<lparr>bits := ?w\<rparr>"
  have len: "length ?w = length (bits b)" using d(3) by (simp add: stored_map_def length_bytes_to_words)
  have w: "bytes_to_words (splice_at 0 (take n (file_bytes c d)) (words_to_bytes (bits b))) = ?w"
    using d(3) by (simp add: stored_map_def splice_at_def n_def)
  have idx: "unat (elem_cnt (bit_cnt b) - 1) = unat (elem_cnt (bit_cnt b)) - 1" "unat (elem_cnt (bit_cnt b) - 1) < length ?w"
  proof -
    have "0 < unat (elem_cnt (bit_cnt b))"
      using wf by (simp add: bitmap_wf_def unat_elem_cnt less_DIV_ROUND_UP_iff word_less_nat_alt)
    then show "unat (elem_cnt (bit_cnt b) - 1) = unat (elem_cnt (bit_cnt b)) - 1" by (simp add: unat_minus_one word_neq_0_conv word_less_nat_alt)
    then show "unat (elem_cnt (bit_cnt b) - 1) < length ?w"
      using len wf \<open>0 < unat (elem_cnt (bit_cnt b))\<close> by (simp add: bitmap_wf_def)
  qed
  define b' where "b' = ?b\<lparr>bits := ?w[unat (elem_cnt (bit_cnt b)) - 1 := ?w ! (unat (elem_cnt (bit_cnt b)) - 1) AND last_mask b]\<rparr>"
  have "upd_elem ?b (elem_cnt (bit_cnt b) - 1) (\<lambda>e. e AND last_mask ?b) = Some b'"
    using idx by (simp add: upd_elem_def b'_def last_mask_def)
  then have "bitmap_read s b f = Some (s', b', True)"
    using wf(2) r(1) fl d(3) [folded n_def] by (simp add: bitmap_read_def file_read_at_def size w Let_def)
  moreover have "bits_of b' ! k = bits_of ?b ! k" if "k < unat (bit_cnt b)" for k
    using that bit_last_mask [of b k] wf idx
    by (cases "k div 32 = unat (elem_cnt (bit_cnt b)) - 1") (auto simp: nth_bits_of b'_def bitmap_wf_def bit_and_iff)
  then have "bits_of b' = bits_of ?b" by (intro nth_equalityI) (simp_all add: b'_def)
  moreover have "bits_of ?b = bits_of \<lparr>bit_cnt = bit_cnt b, bits = ?w\<rparr>" by (simp add: bits_of_def)
  moreover have "bitmap_wf b'" using wf len by (simp add: bitmap_wf_def b'_def)
  ultimately show ?thesis using r by (simp add: b'_def)
qed

section \<open>The allocator contract\<close>

definition fm_inv :: "fs \<Rightarrow> bool" where
  "fm_inv s \<longleftrightarrow> (\<exists>c d. fs_holds s c \<and> fm_ok s d)"

interpretation fma: slot_allocator free_map_allocate free_map_release fm_inv "\<lambda>s. bit_used (free_map s)"
proof
  fix s n
  assume "fm_inv s"
  then obtain c d where cd: "fs_holds s c" "fm_ok s d" by (auto simp: fm_inv_def)
  obtain s' c' r where a: "free_map_allocate s n = Some (s', r)" "fs_holds s' c'" "fm_ok s' d"
      "bit_cnt (free_map s') = bit_cnt (free_map s)"
      "case r of None \<Rightarrow> bits_of (free_map s') = bits_of (free_map s)
         \<and> (fs_mallocs s = [] \<longrightarrow> (\<forall>j. \<not> run_at (bits_of (free_map s)) False j (unat n)))
       | Some i \<Rightarrow> run_at (bits_of (free_map s)) False (unat i) (unat n)
         \<and> (\<forall>j < unat i. \<not> run_at (bits_of (free_map s)) False j (unat n))
         \<and> bits_of (free_map s') = set_range (bits_of (free_map s)) (unat i) (unat n) True
         \<and> stored_map c' d (length (bits (free_map s'))) = bits (free_map s')"
    using free_map_allocate_holds [OF cd, of n] by blast
  have "case r of None \<Rightarrow> bit_used (free_map s') = bit_used (free_map s)
       | Some i \<Rightarrow> slots i n \<inter> bit_used (free_map s) = {} \<and> bit_used (free_map s') = bit_used (free_map s) \<union> slots i n"
  proof (cases r)
    case None
    then show ?thesis using a(4,5) by (simp add: bit_used_def)
  next
    case (Some i)
    then have run: "run_at (bits_of (free_map s)) False (unat i) (unat n)" using a(5) by simp
    then have "slots i n \<inter> bit_used (free_map s) = {}" by (rule run_at_free)
    then show ?thesis
      using bit_used_set_range [of i n "free_map s" "free_map s'" True] run a(4,5) Some by (simp add: run_at_def)
  qed
  then show "\<exists>s' r. free_map_allocate s n = Some (s', r) \<and> fm_inv s' \<and>
      (case r of None \<Rightarrow> bit_used (free_map s') = bit_used (free_map s)
       | Some i \<Rightarrow> slots i n \<inter> bit_used (free_map s) = {} \<and> bit_used (free_map s') = bit_used (free_map s) \<union> slots i n)"
    using a(1-3) by (auto simp: fm_inv_def)
next
  fix s i n
  assume "fm_inv s" and ne: "slots i n \<noteq> {}" and sub: "slots i n \<subseteq> bit_used (free_map s)"
  then obtain c d where cd: "fs_holds s c" "fm_ok s d" by (auto simp: fm_inv_def)
  have run: "run_at (bits_of (free_map s)) True (unat i) (unat n)" by (rule slots_used_run [OF ne sub])
  obtain s' c' where "free_map_release s i n = Some s'" "fs_holds s' c'" "fm_ok s' d"
      "bit_cnt (free_map s') = bit_cnt (free_map s)"
      "bits_of (free_map s') = set_range (bits_of (free_map s)) (unat i) (unat n) False"
    using free_map_release_holds [OF cd run] by blast
  then show "\<exists>s'. free_map_release s i n = Some s' \<and> fm_inv s' \<and> bit_used (free_map s') = bit_used (free_map s) - slots i n"
    using bit_used_set_range [of i n "free_map s" "free_map s'" False] run by (auto simp: fm_inv_def run_at_def)
qed

section \<open>Properties\<close>

text \<open>C15. \<^verbatim>\<open>free_map_allocate\<close> takes the first run of sectors that are free and marks exactly those, and the free map file
  then reads back as the new map, into any bitmap of that size, whatever it held before; when it reports failure the map is unchanged, and with memory available that happens only when no
  run of that length is free.\<close>

theorem free_map_allocate_persistent:
  assumes "fs_holds s c" and "fm_ok s d" and "free_map_file s = Some f" and "0 < bit_cnt (free_map s)"
    and "fs_mallocs s = []"
  shows "\<exists>s' r. free_map_allocate s cnt = Some (s', r)
    \<and> (case r of
         None \<Rightarrow> bits_of (free_map s') = bits_of (free_map s) \<and> (\<forall>j. \<not> run_at (bits_of (free_map s)) False j (unat cnt))
       | Some i \<Rightarrow> run_at (bits_of (free_map s)) False (unat i) (unat cnt)
           \<and> (\<forall>j < unat i. \<not> run_at (bits_of (free_map s)) False j (unat cnt))
           \<and> bits_of (free_map s') = set_range (bits_of (free_map s)) (unat i) (unat cnt) True
           \<and> (\<forall>b0. bitmap_wf b0 \<and> bit_cnt b0 = bit_cnt (free_map s) \<longrightarrow>
                (\<exists>s'' b. bitmap_read s' b0 f = Some (s'', b, True) \<and> bits_of b = bits_of (free_map s'))))"
proof -
  obtain s' c' r where a: "free_map_allocate s cnt = Some (s', r)" "fs_holds s' c'" "fm_ok s' d"
      "fs_frame (s\<lparr>free_map := free_map s'\<rparr>) s'" "bit_cnt (free_map s') = bit_cnt (free_map s)"
      "case r of None \<Rightarrow> bits_of (free_map s') = bits_of (free_map s)
         \<and> (fs_mallocs s = [] \<longrightarrow> (\<forall>j. \<not> run_at (bits_of (free_map s)) False j (unat cnt)))
       | Some i \<Rightarrow> run_at (bits_of (free_map s)) False (unat i) (unat cnt)
         \<and> (\<forall>j < unat i. \<not> run_at (bits_of (free_map s)) False j (unat cnt))
         \<and> bits_of (free_map s') = set_range (bits_of (free_map s)) (unat i) (unat cnt) True
         \<and> stored_map c' d (length (bits (free_map s'))) = bits (free_map s')"
    using free_map_allocate_holds [OF assms(1,2), of cnt] by blast
  obtain fl ino where fl: "files s' f = Some fl" "inodes s' (f_inode fl) = Some ino" "i_data ino = d" "inode_ok s' d"
      "4 * length (bits (free_map s')) \<le> nat (id_length d)" "bitmap_wf (free_map s')"
    using a(3) fs_frame_simps(3) [OF a(4)] assms(3) by (auto simp: fm_ok_def)
  have "fs_mallocs s' = []" using fs_frame_simps(8) [OF a(4)] assms(5) by simp
  then have "\<exists>s'' b. bitmap_read s' b0 f = Some (s'', b, True) \<and> bits_of b = bits_of (free_map s')"
    if st: "stored_map c' d (length (bits (free_map s'))) = bits (free_map s')"
      and b0: "bitmap_wf b0" "bit_cnt b0 = bit_cnt (free_map s)" for b0
  proof -
    have len: "length (bits b0) = length (bits (free_map s'))"
      using b0 a(5) fl(6) by (simp add: bitmap_wf_def)
    have "4 * length (bits b0) \<le> nat (id_length d)" using fl(5) len by simp
    from bitmap_read_holds [OF a(2) b0(1) _ fl(1-4) this] \<open>fs_mallocs s' = []\<close> assms(4) b0(2)
    obtain s'' b where "bitmap_read s' b0 f = Some (s'', b, True)"
        "bits_of b = bits_of \<lparr>bit_cnt = bit_cnt b0, bits = stored_map c' d (length (bits b0))\<rparr>"
      by auto
    then show ?thesis using st len b0(2) a(5) by (auto simp: bits_of_def)
  qed
  then show ?thesis using a(1,6) assms(5) by (intro exI [of _ s'] exI [of _ r]) (auto split: option.splits)
qed

text \<open>C23. Any sequence of sector allocations hands out pairwise disjoint runs of sectors that were free, whatever memory
  allocations fail in between.\<close>

theorem sector_allocations_disjoint:
  assumes "fm_inv s"
  shows "\<exists>s' rs. alloc_many free_map_allocate s ns = Some (s', rs) \<and> fm_inv s' \<and> length rs = length ns
      \<and> disjoint_regions (regions ns rs) \<and> \<Union> (set (regions ns rs)) \<inter> bit_used (free_map s) = {}
      \<and> bit_used (free_map s') = bit_used (free_map s) \<union> \<Union> (set (regions ns rs))"
  using fma.alloc_many_regions [OF assms] .

section \<open>Concrete instances\<close>

abbreviation ex_fm_data :: inode_disk where
  "ex_fm_data \<equiv> \<lparr>id_start = 2, id_length = 16, id_magic = INODE_MAGIC\<rparr>"

lemma ex_fm_ok: "fm_ok ex_fs ex_fm_data"
proof -
  have "bitmap_wf (free_map ex_fs)" by (simp add: bitmap_wf_def ex_fs_def unat_elem_cnt DIV_ROUND_UP_def)
  moreover have "inode_ok ex_fs ex_fm_data" by (simp add: inode_ok_def DIV_ROUND_UP_def)
  ultimately show ?thesis by (simp add: fm_ok_def, simp add: ex_fs_def)
qed

theorem free_map_allocate_persistent_witness:
  "\<exists>s' r. free_map_allocate ex_fs 4 = Some (s', r)
    \<and> (case r of
         None \<Rightarrow> bits_of (free_map s') = bits_of (free_map ex_fs) \<and> (\<forall>j. \<not> run_at (bits_of (free_map ex_fs)) False j (unat (4 :: 32 word)))
       | Some i \<Rightarrow> run_at (bits_of (free_map ex_fs)) False (unat i) (unat (4 :: 32 word))
           \<and> (\<forall>j < unat i. \<not> run_at (bits_of (free_map ex_fs)) False j (unat (4 :: 32 word)))
           \<and> bits_of (free_map s') = set_range (bits_of (free_map ex_fs)) (unat i) (unat (4 :: 32 word)) True
           \<and> (\<forall>b0. bitmap_wf b0 \<and> bit_cnt b0 = bit_cnt (free_map ex_fs) \<longrightarrow>
                (\<exists>s'' b. bitmap_read s' b0 0 = Some (s'', b, True) \<and> bits_of b = bits_of (free_map s'))))"
  by (rule free_map_allocate_persistent [OF ex_fs_holds ex_fm_ok]) (simp_all add: ex_fs_def)

theorem sector_allocations_disjoint_witness:
  "\<exists>s' rs. alloc_many free_map_allocate ex_fs [1, 2, 200] = Some (s', rs) \<and> fm_inv s' \<and> length rs = length [1, 2, 200 :: 32 word]
      \<and> disjoint_regions (regions [1, 2, 200] rs) \<and> \<Union> (set (regions [1, 2, 200] rs)) \<inter> bit_used (free_map ex_fs) = {}
      \<and> bit_used (free_map s') = bit_used (free_map ex_fs) \<union> \<Union> (set (regions [1, 2, 200] rs))"
  by (rule sector_allocations_disjoint) (use ex_fs_holds ex_fm_ok in \<open>auto simp: fm_inv_def\<close>)

end
