(* ===== verification/InodeTable.thy ===== *)
theory InodeTable
  imports FreeMap
begin

text \<open>
  The table of open inodes (the second part of \<^verbatim>\<open>src/src/filesys/inode.c\<close>), open files (\<^verbatim>\<open>src/src/filesys/file.c\<close>) and the life cycle
  of the free map file: creation, opening with sharing, closing with deferred removal, write denial, and the reference
  counts that tie them together.
\<close>

section \<open>Inodes\<close>

definition upd_inode :: "fs \<Rightarrow> nat \<Rightarrow> (inode \<Rightarrow> inode) \<Rightarrow> fs option" where
  "upd_inode s i g = do { ino \<leftarrow> inodes s i; Some (s\<lparr>inodes := (inodes s)(i \<mapsto> g ino)\<rparr>) }"

definition inode_init :: "fs \<Rightarrow> fs" where
  "inode_init s = s\<lparr>open_inodes := []\<rparr>"

definition inode_create :: "fs \<Rightarrow> block_sector_t \<Rightarrow> int \<Rightarrow> (fs \<times> bool) option" where
  "inode_create s sector len = do {
     ASSERT (len \<ge> 0);
     let (s, ok) = fs_malloc s;
     if ok then do {
       let sectors = bytes_to_sectors len;
       (s, r) \<leftarrow> free_map_allocate s sectors;
       case r of
         None \<Rightarrow> Some (s, False)
       | Some start \<Rightarrow> do {
           s \<leftarrow> fs_write s sector (enc_inode \<lparr>id_start = start, id_length = len, id_magic = INODE_MAGIC\<rparr>);
           s \<leftarrow> (if sectors > 0 then for_loop 0 sectors (\<lambda>i s. fs_write s (start + i) (replicate BLOCK_SECTOR_SIZE 0)) s
                 else Some s);
           Some (s, True)
         }
     }
     else Some (s, False)
   }"

definition inode_reopen :: "fs \<Rightarrow> nat option \<Rightarrow> (fs \<times> nat option) option" where
  "inode_reopen s inode = (case inode of
       None \<Rightarrow> Some (s, None)
     | Some i \<Rightarrow> do { s \<leftarrow> upd_inode s i (\<lambda>ino. ino\<lparr>open_cnt := open_cnt ino + 1\<rparr>); Some (s, Some i) })"

text \<open>The search of \<^verbatim>\<open>inode_open\<close> through \<^verbatim>\<open>open_inodes\<close>.\<close>

fun find_open :: "fs \<Rightarrow> block_sector_t \<Rightarrow> nat list \<Rightarrow> nat option option" where
  "find_open s sector [] = Some None"
| "find_open s sector (i # is) = do {
     ino \<leftarrow> inodes s i;
     if i_sector ino = sector then Some (Some i) else find_open s sector is
   }"

definition inode_open :: "fs \<Rightarrow> block_sector_t \<Rightarrow> (fs \<times> nat option) option" where
  "inode_open s sector = do {
     r \<leftarrow> find_open s sector (open_inodes s);
     case r of
       Some i \<Rightarrow> inode_reopen s (Some i)
     | None \<Rightarrow> do {
         let (s, ok) = fs_malloc s;
         if \<not> ok then Some (s, None)
         else do {
           let i = fs_next s;
           let s = s\<lparr>fs_next := i + 1, open_inodes := i # open_inodes s\<rparr>;
           (s, buf) \<leftarrow> fs_read s sector;
           Some (s\<lparr>inodes := (inodes s)(i \<mapsto> \<lparr>i_sector = sector, open_cnt = 1, removed = False, deny_write_cnt = 0,
                    i_data = dec_inode buf\<rparr>)\<rparr>, Some i)
         }
       }
   }"

definition inode_close :: "fs \<Rightarrow> nat option \<Rightarrow> fs option" where
  "inode_close s inode = (case inode of
       None \<Rightarrow> Some s
     | Some i \<Rightarrow> do {
         s \<leftarrow> upd_inode s i (\<lambda>ino. ino\<lparr>open_cnt := open_cnt ino - 1\<rparr>);
         ino \<leftarrow> inodes s i;
         if open_cnt ino = 0 then do {
           let s = s\<lparr>open_inodes := remove1 i (open_inodes s)\<rparr>;
           s \<leftarrow> (if removed ino then do {
                   s \<leftarrow> free_map_release s (i_sector ino) 1;
                   free_map_release s (id_start (i_data ino)) (bytes_to_sectors (id_length (i_data ino)))
                 }
                 else Some s);
           Some (s\<lparr>inodes := (inodes s)(i := None)\<rparr>)
         }
         else Some s
       })"

definition inode_remove :: "fs \<Rightarrow> nat \<Rightarrow> fs option" where
  "inode_remove s i = upd_inode s i (\<lambda>ino. ino\<lparr>removed := True\<rparr>)"

definition inode_deny_write :: "fs \<Rightarrow> nat \<Rightarrow> fs option" where
  "inode_deny_write s i = do {
     s \<leftarrow> upd_inode s i (\<lambda>ino. ino\<lparr>deny_write_cnt := deny_write_cnt ino + 1\<rparr>);
     ino \<leftarrow> inodes s i;
     ASSERT (deny_write_cnt ino \<le> open_cnt ino);
     Some s
   }"

definition inode_allow_write :: "fs \<Rightarrow> nat \<Rightarrow> fs option" where
  "inode_allow_write s i = do {
     ino \<leftarrow> inodes s i;
     ASSERT (deny_write_cnt ino > 0);
     ASSERT (deny_write_cnt ino \<le> open_cnt ino);
     upd_inode s i (\<lambda>ino. ino\<lparr>deny_write_cnt := deny_write_cnt ino - 1\<rparr>)
   }"

section \<open>Open files\<close>

definition file_open :: "fs \<Rightarrow> nat option \<Rightarrow> (fs \<times> nat option) option" where
  "file_open s inode = do {
     let (s, ok) = fs_malloc s;
     case inode of
       Some i \<Rightarrow>
         (if ok then do {
            let f = fs_next s;
            Some (s\<lparr>fs_next := f + 1, files := (files s)(f \<mapsto> \<lparr>f_inode = i, f_pos = 0, f_deny_write = False\<rparr>)\<rparr>, Some f)
          }
          else do { s \<leftarrow> inode_close s inode; Some (s, None) })
     | None \<Rightarrow> do { s \<leftarrow> inode_close s None; Some (s, None) }
   }"

definition file_reopen :: "fs \<Rightarrow> nat \<Rightarrow> (fs \<times> nat option) option" where
  "file_reopen s f = do {
     fl \<leftarrow> files s f;
     (s, i) \<leftarrow> inode_reopen s (Some (f_inode fl));
     file_open s i
   }"

definition file_get_inode :: "fs \<Rightarrow> nat \<Rightarrow> nat option" where
  "file_get_inode s f = map_option f_inode (files s f)"

definition file_read :: "fs \<Rightarrow> nat \<Rightarrow> int \<Rightarrow> (fs \<times> byte list) option" where
  "file_read s f size' = do {
     fl \<leftarrow> files s f;
     (s, data) \<leftarrow> inode_read_at s (f_inode fl) size' (f_pos fl);
     Some (s\<lparr>files := (files s)(f \<mapsto> fl\<lparr>f_pos := f_pos fl + int (length data)\<rparr>)\<rparr>, data)
   }"

definition file_write :: "fs \<Rightarrow> nat \<Rightarrow> byte list \<Rightarrow> int \<Rightarrow> (fs \<times> int) option" where
  "file_write s f buffer size' = do {
     fl \<leftarrow> files s f;
     (s, n) \<leftarrow> inode_write_at s (f_inode fl) buffer size' (f_pos fl);
     Some (s\<lparr>files := (files s)(f \<mapsto> fl\<lparr>f_pos := f_pos fl + n\<rparr>)\<rparr>, n)
   }"

definition file_deny_write :: "fs \<Rightarrow> nat \<Rightarrow> fs option" where
  "file_deny_write s f = do {
     fl \<leftarrow> files s f;
     if \<not> f_deny_write fl
     then inode_deny_write (s\<lparr>files := (files s)(f \<mapsto> fl\<lparr>f_deny_write := True\<rparr>)\<rparr>) (f_inode fl)
     else Some s
   }"

definition file_allow_write :: "fs \<Rightarrow> nat \<Rightarrow> fs option" where
  "file_allow_write s f = do {
     fl \<leftarrow> files s f;
     if f_deny_write fl
     then inode_allow_write (s\<lparr>files := (files s)(f \<mapsto> fl\<lparr>f_deny_write := False\<rparr>)\<rparr>) (f_inode fl)
     else Some s
   }"

definition file_close :: "fs \<Rightarrow> nat option \<Rightarrow> fs option" where
  "file_close s fp = (case fp of
       None \<Rightarrow> Some s
     | Some f \<Rightarrow> do {
         s \<leftarrow> file_allow_write s f;
         fl \<leftarrow> files s f;
         s \<leftarrow> inode_close s (Some (f_inode fl));
         Some (s\<lparr>files := (files s)(f := None)\<rparr>)
       })"

definition file_length :: "fs \<Rightarrow> nat \<Rightarrow> int option" where
  "file_length s f = do { fl \<leftarrow> files s f; ino \<leftarrow> inodes s (f_inode fl); Some (inode_length ino) }"

definition file_seek :: "fs \<Rightarrow> nat \<Rightarrow> int \<Rightarrow> fs option" where
  "file_seek s f new_pos = do {
     fl \<leftarrow> files s f;
     ASSERT (new_pos \<ge> 0);
     Some (s\<lparr>files := (files s)(f \<mapsto> fl\<lparr>f_pos := new_pos\<rparr>)\<rparr>)
   }"

definition file_tell :: "fs \<Rightarrow> nat \<Rightarrow> int option" where
  "file_tell s f = map_option f_pos (files s f)"

section \<open>The free map file\<close>

definition free_map_open :: "fs \<Rightarrow> fs option" where
  "free_map_open s = do {
     (s, i) \<leftarrow> inode_open s FREE_MAP_SECTOR;
     (s, f) \<leftarrow> file_open s i;
     let s = s\<lparr>free_map_file := f\<rparr>;
     f \<leftarrow> f;
     (s, b, ok) \<leftarrow> bitmap_read s (free_map s) f;
     ASSERT ok;
     Some (s\<lparr>free_map := b\<rparr>)
   }"

definition free_map_close :: "fs \<Rightarrow> fs option" where
  "free_map_close s = file_close s (free_map_file s)"

definition free_map_create :: "fs \<Rightarrow> fs option" where
  "free_map_create s = do {
     (s, ok) \<leftarrow> inode_create s FREE_MAP_SECTOR (sint (bitmap_file_size (free_map s)));
     ASSERT ok;
     (s, i) \<leftarrow> inode_open s FREE_MAP_SECTOR;
     (s, f) \<leftarrow> file_open s i;
     let s = s\<lparr>free_map_file := f\<rparr>;
     f \<leftarrow> f;
     (s, ok) \<leftarrow> bitmap_write s (free_map s) f;
     ASSERT ok;
     Some s
   }"

section \<open>The reference-count invariant\<close>

definition refs :: "fs \<Rightarrow> nat \<Rightarrow> nat" where
  "refs s i = card {f. \<exists>fl. files s f = Some fl \<and> f_inode fl = i}"

definition denials :: "fs \<Rightarrow> nat \<Rightarrow> nat" where
  "denials s i = card {f. \<exists>fl. files s f = Some fl \<and> f_inode fl = i \<and> f_deny_write fl}"

text \<open>Every open inode is in \<^verbatim>\<open>open_inodes\<close> once, no two are for the same sector, every open file refers to an open inode, an
  inode has at least as many openers as there are files on it, and writes are denied as often as there are files on it
  that deny them.  Openers beyond the files are directories and callers that hold an inode themselves.\<close>

definition table_ok :: "fs \<Rightarrow> bool" where
  "table_ok s \<longleftrightarrow> distinct (open_inodes s) \<and> set (open_inodes s) = dom (inodes s)
     \<and> (\<forall>i \<in> dom (inodes s). i < fs_next s) \<and> (\<forall>f \<in> dom (files s). f < fs_next s) \<and> finite (dom (files s))
     \<and> inj_on (\<lambda>i. i_sector (the (inodes s i))) (dom (inodes s))
     \<and> (\<forall>f fl. files s f = Some fl \<longrightarrow> f_inode fl \<in> dom (inodes s))
     \<and> (\<forall>i ino. inodes s i = Some ino \<longrightarrow> 0 < open_cnt ino \<and> int (refs s i) \<le> open_cnt ino
          \<and> deny_write_cnt ino = int (denials s i))"

text \<open>Operations on the tables alone: device, free map and allocations are as before.\<close>

definition same_dev :: "fs \<Rightarrow> fs \<Rightarrow> bool" where
  "same_dev s s' \<longleftrightarrow> fs_blocks s' = fs_blocks s \<and> fs_device s' = fs_device s \<and> free_map s' = free_map s
     \<and> free_map_file s' = free_map_file s \<and> fs_mallocs s' = fs_mallocs s"

lemma same_dev_holds: "same_dev s s' \<Longrightarrow> fs_holds s c \<Longrightarrow> fs_holds s' c"
  by (simp add: same_dev_def fs_holds_def fs_size_def)

lemma finite_refs: "finite (dom (files s)) \<Longrightarrow> finite {f. \<exists>fl. files s f = Some fl \<and> f_inode fl = i}"
  by (rule finite_subset [of _ "dom (files s)"]) auto

lemma denials_le_refs: "finite (dom (files s)) \<Longrightarrow> denials s i \<le> refs s i"
  unfolding denials_def refs_def by (rule card_mono [OF finite_refs]) auto

lemma table_ok_inode:
  assumes "table_ok s" and "inodes s i = Some ino"
  shows "0 < open_cnt ino" "int (refs s i) \<le> open_cnt ino" "deny_write_cnt ino = int (denials s i)"
    "deny_write_cnt ino \<le> open_cnt ino" "i \<in> set (open_inodes s)" "i < fs_next s"
  using assms denials_le_refs [of s i] by (auto simp: table_ok_def) (force intro: order_trans)

lemma table_okD:
  assumes "table_ok s"
  shows "distinct (open_inodes s)" "set (open_inodes s) = dom (inodes s)" "\<And>i. i \<in> dom (inodes s) \<Longrightarrow> i < fs_next s"
    "\<And>f. f \<in> dom (files s) \<Longrightarrow> f < fs_next s" "finite (dom (files s))"
    "inj_on (\<lambda>i. i_sector (the (inodes s i))) (dom (inodes s))"
    "\<And>f fl. files s f = Some fl \<Longrightarrow> f_inode fl \<in> dom (inodes s)"
  using assms by (simp_all add: table_ok_def)

text \<open>Updating an inode without changing its sector keeps the invariant if the counts still fit.\<close>

lemma table_ok_upd_inode:
  assumes "table_ok s" and "inodes s i = Some ino" and "i_sector (g ino) = i_sector ino"
    and "0 < open_cnt (g ino)" and "int (refs s i) \<le> open_cnt (g ino)" and "deny_write_cnt (g ino) = int (denials s i)"
    and "upd_inode s i g = Some s'"
  shows "table_ok s'" and "inodes s' = (inodes s)(i \<mapsto> g ino)"
proof -
  have s': "s' = s\<lparr>inodes := (inodes s)(i \<mapsto> g ino)\<rparr>" using assms(2,7) by (simp add: upd_inode_def)
  then show "inodes s' = (inodes s)(i \<mapsto> g ino)" by simp
  have "i_sector (the (inodes s' j)) = i_sector (the (inodes s j))" for j using assms(2,3) by (simp add: s')
  then have "inj_on (\<lambda>j. i_sector (the (inodes s' j))) (dom (inodes s))" using assms(1) by (simp add: table_ok_def)
  moreover have dom: "dom (inodes s') = dom (inodes s)" using assms(2) by (auto simp: s')
  moreover have "refs s' j = refs s j" "denials s' j = denials s j" for j by (simp_all add: s' refs_def denials_def)
  ultimately show "table_ok s'"
    using assms unfolding table_ok_def by (auto simp: s' insert_absorb domI)
qed

lemma inode_reopen_ok:
  assumes "table_ok s" and "inodes s i = Some ino"
  shows "\<exists>s'. inode_reopen s (Some i) = Some (s', Some i) \<and> table_ok s'
    \<and> inodes s' = (inodes s)(i \<mapsto> ino\<lparr>open_cnt := open_cnt ino + 1\<rparr>) \<and> files s' = files s \<and> same_dev s s'"
proof -
  let ?g = "\<lambda>ino. ino\<lparr>open_cnt := open_cnt ino + 1\<rparr>"
  obtain s' where s': "upd_inode s i ?g = Some s'" using assms(2) by (simp add: upd_inode_def)
  then have "files s' = files s" "same_dev s s'" using assms(2) by (auto simp: upd_inode_def same_dev_def)
  then show ?thesis
    using table_ok_upd_inode [OF assms, of ?g s'] table_ok_inode [OF assms] s' by (simp add: inode_reopen_def)
qed

lemma find_open_cases:
  "set is \<subseteq> dom (inodes s) \<Longrightarrow>
    (\<exists>i ino. i \<in> set is \<and> find_open s sector is = Some (Some i) \<and> inodes s i = Some ino \<and> i_sector ino = sector)
    \<or> find_open s sector is = Some None \<and> (\<forall>i \<in> set is. \<forall>ino. inodes s i = Some ino \<longrightarrow> i_sector ino \<noteq> sector)"
proof (induction "is")
  case (Cons i "is")
  then obtain ino where ino: "inodes s i = Some ino" by auto
  show ?case
  proof (cases "i_sector ino = sector")
    case False
    then have "find_open s sector (i # is) = find_open s sector is" using ino by simp
    then show ?thesis using Cons False ino by auto
  qed (use ino in simp)
qed simp

lemma find_open_ok:
  assumes "table_ok s"
  shows "(\<exists>i ino. find_open s sector (open_inodes s) = Some (Some i) \<and> inodes s i = Some ino \<and> i_sector ino = sector)
    \<or> find_open s sector (open_inodes s) = Some None \<and> (\<forall>i ino. inodes s i = Some ino \<longrightarrow> i_sector ino \<noteq> sector)"
proof -
  have dom: "set (open_inodes s) = dom (inodes s)" using assms by (simp add: table_ok_def)
  then show ?thesis using find_open_cases [of "open_inodes s" s sector] by auto
qed

lemma table_ok_new_inode:
  assumes ok: "table_ok s" and new: "open_inodes s' = fs_next s # open_inodes s" "inodes s' = (inodes s)(fs_next s \<mapsto> ino)"
      "files s' = files s" "fs_next s' = fs_next s + 1"
    and ino: "open_cnt ino = 1" "deny_write_cnt ino = 0" "\<forall>i ino'. inodes s i = Some ino' \<longrightarrow> i_sector ino' \<noteq> i_sector ino"
  shows "table_ok s'"
proof -
  let ?j = "fs_next s"
  have j: "?j \<notin> dom (inodes s)" using table_okD(3) [OF ok, of ?j] by auto
  have "{f. \<exists>fl. files s f = Some fl \<and> f_inode fl = ?j} = {}" using j by (auto dest: table_okD(7) [OF ok])
  then have "refs s ?j = 0" by (simp only: refs_def card.empty)
  then have cnt: "refs s' ?j = 0" "denials s' ?j = 0" "\<And>i. refs s' i = refs s i" "\<And>i. denials s' i = denials s i"
    using denials_le_refs [OF table_okD(5) [OF ok], of ?j] by (simp_all add: refs_def denials_def new(3))
  have "inj_on (\<lambda>i. i_sector (the (inodes s' i))) (insert ?j (dom (inodes s)))"
  proof (subst inj_on_insert, intro conjI)
    have eq: "i_sector (the (inodes s' i)) = i_sector (the (inodes s i))" if "i \<in> dom (inodes s)" for i
      using that j by (auto simp: new(2))
    then have "inj_on (\<lambda>i. i_sector (the (inodes s' i))) (dom (inodes s)) \<longleftrightarrow> inj_on (\<lambda>i. i_sector (the (inodes s i))) (dom (inodes s))"
      by (rule inj_on_cong)
    then show "inj_on (\<lambda>i. i_sector (the (inodes s' i))) (dom (inodes s))" using ok by (simp add: table_ok_def)
    show "i_sector (the (inodes s' ?j)) \<notin> (\<lambda>i. i_sector (the (inodes s' i))) ` (dom (inodes s) - {?j})"
    proof
      assume "i_sector (the (inodes s' ?j)) \<in> (\<lambda>i. i_sector (the (inodes s' i))) ` (dom (inodes s) - {?j})"
      then obtain i where i: "i \<in> dom (inodes s)" "i \<noteq> ?j" "i_sector (the (inodes s' ?j)) = i_sector (the (inodes s' i))" by blast
      then obtain x where "inodes s i = Some x" "i_sector ino = i_sector x" by (auto simp: new(2))
      then show False using ino(3) by metis
    qed
  qed
  moreover have "dom (inodes s') = insert ?j (dom (inodes s))" by (simp add: new(2))
  moreover have "0 < open_cnt x \<and> int (refs s' i) \<le> open_cnt x \<and> deny_write_cnt x = int (denials s' i)" if "inodes s' i = Some x" for i x
    using that ok ino(1,2) cnt(1,2) unfolding cnt(3,4) by (cases "i = ?j") (auto simp: new(2) cnt table_ok_def)
  ultimately show ?thesis
    unfolding table_ok_def new(1,3,4) using table_okD [OF ok] j by (auto simp: less_Suc_eq)
qed

text \<open>Opening a sector: an inode already open for it is shared, otherwise a new one is read from disk.\<close>

lemma inode_open_ok:
  assumes ok: "table_ok s" and h: "fs_holds s c" and "sector < fs_size s"
  shows "(\<exists>i ino s'. inodes s i = Some ino \<and> i_sector ino = sector \<and> inode_open s sector = Some (s', Some i) \<and> table_ok s'
        \<and> inodes s' = (inodes s)(i \<mapsto> ino\<lparr>open_cnt := open_cnt ino + 1\<rparr>) \<and> files s' = files s \<and> same_dev s s')
    \<or> (\<forall>i ino. inodes s i = Some ino \<longrightarrow> i_sector ino \<noteq> sector)
      \<and> (\<exists>s'. inode_open s sector = Some (s', None) \<and> fs_frame s s' \<and> fs_mallocs s \<noteq> []
        \<or> inode_open s sector = Some (s', Some (fs_next s)) \<and> table_ok s' \<and> fs_holds s' c \<and> files s' = files s
          \<and> (fs_mallocs s = [] \<longrightarrow> fs_mallocs s' = [])
          \<and> inodes s' = (inodes s)(fs_next s \<mapsto> \<lparr>i_sector = sector, open_cnt = 1, removed = False, deny_write_cnt = 0,
              i_data = dec_inode (c sector)\<rparr>))"
proof (cases "\<exists>i ino. find_open s sector (open_inodes s) = Some (Some i) \<and> inodes s i = Some ino \<and> i_sector ino = sector")
  case True
  then obtain i ino where i: "find_open s sector (open_inodes s) = Some (Some i)" "inodes s i = Some ino" "i_sector ino = sector"
    by blast
  then show ?thesis using inode_reopen_ok [OF ok i(2)] by (auto simp: inode_open_def)
next
  case False
  then have none: "find_open s sector (open_inodes s) = Some None" "\<forall>i ino. inodes s i = Some ino \<longrightarrow> i_sector ino \<noteq> sector"
    using find_open_ok [OF ok, of sector] by blast+
  obtain s0 mem where s0: "fs_malloc s = (s0, mem)" by (cases "fs_malloc s")
  note f0 = fs_malloc_frame [OF s0]
  note fs0 = fs_frame_simps [OF conjunct1 [OF f0]]
  show ?thesis
  proof (cases mem)
    case False
    then have "inode_open s sector = Some (s0, None)" using none s0 by (simp add: inode_open_def)
    then show ?thesis using f0 False none(2) by blast
  next
    case True
    let ?s1 = "s0\<lparr>fs_next := fs_next s + 1, open_inodes := fs_next s # open_inodes s\<rparr>"
    let ?ino = "\<lparr>i_sector = sector, open_cnt = 1, removed = False, deny_write_cnt = 0, i_data = dec_inode (c sector)\<rparr>"
    have h1: "fs_holds ?s1 c" and sz: "fs_size ?s1 = fs_size s"
      using fs_holds_blocks [OF h, of ?s1] f0 fs0 by (simp_all add: fs_size_def)
    obtain s2 where s2: "fs_read ?s1 sector = Some (s2, c sector)" "fs_holds s2 c" "fs_frame ?s1 s2"
      using fs_read_holds [OF h1] assms(3) sz by auto
    note fs2 = fs_frame_simps [OF s2(3)]
    let ?s3 = "s2\<lparr>inodes := (inodes s2)(fs_next s \<mapsto> ?ino)\<rparr>"
    have "inode_open s sector = Some (?s3, Some (fs_next s))"
      using none s0 True s2(1) fs0 by (simp add: inode_open_def Let_def)
    moreover have "fs_holds ?s3 c" using fs_holds_blocks [OF s2(2), of ?s3] by simp
    moreover have "table_ok ?s3"
      by (rule table_ok_new_inode [OF ok, where ino = ?ino]) (use none(2) fs0 fs2 in simp_all)
    ultimately show ?thesis using none(2) fs0 fs2 by auto
  qed
qed

text \<open>A sector that no open inode is for, with memory available: the new inode is the only change.\<close>

lemma inode_open_new:
  assumes ok: "table_ok s" and h: "fs_holds s c" and "sector < fs_size s" and mem: "fs_mallocs s = []"
    and none: "\<forall>i ino. inodes s i = Some ino \<longrightarrow> i_sector ino \<noteq> sector"
  shows "\<exists>s'. inode_open s sector = Some (s', Some (fs_next s)) \<and> table_ok s' \<and> fs_holds s' c
    \<and> fs_frame (s\<lparr>fs_next := fs_next s + 1, open_inodes := fs_next s # open_inodes s, inodes := (inodes s)(fs_next s \<mapsto>
        \<lparr>i_sector = sector, open_cnt = 1, removed = False, deny_write_cnt = 0, i_data = dec_inode (c sector)\<rparr>)\<rparr>) s'"
proof -
  have f: "find_open s sector (open_inodes s) = Some None" using find_open_ok [OF ok, of sector] none by blast
  let ?s1 = "s\<lparr>fs_next := fs_next s + 1, open_inodes := fs_next s # open_inodes s\<rparr>"
  let ?ino = "\<lparr>i_sector = sector, open_cnt = 1, removed = False, deny_write_cnt = 0, i_data = dec_inode (c sector)\<rparr>"
  have h1: "fs_holds ?s1 c" "fs_size ?s1 = fs_size s" using fs_holds_blocks [OF h, of ?s1] by (simp_all add: fs_size_def)
  obtain s2 where s2: "fs_read ?s1 sector = Some (s2, c sector)" "fs_holds s2 c" "fs_frame ?s1 s2"
    using fs_read_holds [OF h1(1)] assms(3) h1(2) by auto
  note fs2 = fs_frame_simps [OF s2(3)]
  let ?s3 = "s2\<lparr>inodes := (inodes s2)(fs_next s \<mapsto> ?ino)\<rparr>"
  have "inode_open s sector = Some (?s3, Some (fs_next s))"
    using f mem s2(1) by (simp add: inode_open_def fs_malloc_def Let_def)
  moreover have "fs_holds ?s3 c" using fs_holds_blocks [OF s2(2), of ?s3] by simp
  moreover have "table_ok ?s3"
    by (rule table_ok_new_inode [OF ok, where ino = ?ino]) (use none fs2 in simp_all)
  moreover have "fs_frame (?s1\<lparr>inodes := (inodes s)(fs_next s \<mapsto> ?ino)\<rparr>) ?s3"
    using s2(3) by (auto simp: fs_frame_def)
  ultimately show ?thesis by auto
qed

section \<open>Closing\<close>

text \<open>Dropping an opener that no file accounts for.  The last one takes the inode out of the table, and its sectors go back
  to the free map if it has been removed.\<close>

lemma table_ok_drop_inode:
  assumes ok: "table_ok s" and "refs s i = 0"
    and new: "open_inodes s' = remove1 i (open_inodes s)" "inodes s' = (inodes s)(i := None)" "files s' = files s" "fs_next s' = fs_next s"
  shows "table_ok s'"
proof -
  have "finite {f. \<exists>fl. files s f = Some fl \<and> f_inode fl = i}" by (rule finite_refs [OF table_okD(5) [OF ok]])
  then have "{f. \<exists>fl. files s f = Some fl \<and> f_inode fl = i} = {}" using assms(2) by (simp add: refs_def)
  then have noref: "f_inode fl \<noteq> i" if "files s f = Some fl" for f fl using that by blast
  have cnt: "\<And>j. refs s' j = refs s j" "\<And>j. denials s' j = denials s j" by (simp_all add: refs_def denials_def new(3))
  have "inj_on (\<lambda>j. i_sector (the (inodes s j))) (dom (inodes s) - {i})"
    by (rule inj_on_subset [OF table_okD(6) [OF ok]]) auto
  then have "inj_on (\<lambda>j. i_sector (the (inodes s' j))) (dom (inodes s) - {i})"
    by (rule inj_on_cong [THEN iffD1, rotated]) (simp add: new(2))
  then show ?thesis
    using table_okD [OF ok] table_ok_inode [OF ok] noref unfolding table_ok_def new cnt by (auto split: if_splits)
qed

lemma fm_ok_inodes:
  assumes "fm_ok s d" and "\<And>f fl. free_map_file s = Some f \<Longrightarrow> files s f = Some fl \<Longrightarrow> f_inode fl \<noteq> i"
    and "inodes s' = (inodes s)(i := x)" "files s' = files s" "free_map s' = free_map s" "free_map_file s' = free_map_file s"
      "fs_blocks s' = fs_blocks s" "fs_device s' = fs_device s"
  shows "fm_ok s' d"
  using assms by (auto simp: fm_ok_def inode_ok_def fs_size_def)

lemma inode_close_shared:
  assumes ok: "table_ok s" and ino: "inodes s i = Some ino" and "int (refs s i) < open_cnt ino" "1 < open_cnt ino" "denials s i \<le> refs s i"
  shows "\<exists>s'. inode_close s (Some i) = Some s' \<and> table_ok s' \<and> inodes s' = (inodes s)(i \<mapsto> ino\<lparr>open_cnt := open_cnt ino - 1\<rparr>)
    \<and> same_dev s s' \<and> files s' = files s"
proof -
  let ?g = "\<lambda>ino. ino\<lparr>open_cnt := open_cnt ino - 1\<rparr>"
  obtain s' where s': "upd_inode s i ?g = Some s'" using ino by (simp add: upd_inode_def)
  then have "files s' = files s" "same_dev s s'" using ino by (auto simp: upd_inode_def same_dev_def)
  then show ?thesis
    using table_ok_upd_inode [OF ok ino, of ?g s'] table_ok_inode [OF ok ino] s' assms(3,4) by (simp add: inode_close_def)
qed

lemma inode_close_last:
  assumes ok: "table_ok s" and ino: "inodes s i = Some ino" and "refs s i = 0" "open_cnt ino = 1" "\<not> removed ino"
  shows "\<exists>s'. inode_close s (Some i) = Some s' \<and> table_ok s' \<and> inodes s' = (inodes s)(i := None) \<and> same_dev s s'
    \<and> files s' = files s"
proof -
  let ?s = "s\<lparr>inodes := (inodes s)(i := None), open_inodes := remove1 i (open_inodes s)\<rparr>"
  have "inode_close s (Some i) = Some ?s" using ino assms(4,5) by (simp add: inode_close_def upd_inode_def)
  moreover have "table_ok ?s" by (rule table_ok_drop_inode [OF ok assms(3)]) simp_all
  ultimately show ?thesis by (simp add: same_dev_def)
qed

lemma inode_close_released:
  assumes h: "fs_holds s c" and fm: "fm_ok s d"
    and ino: "inodes s i = Some ino" "open_cnt ino = 1" "removed ino"
    and other: "\<forall>f fl. free_map_file s = Some f \<longrightarrow> files s f = Some fl \<longrightarrow> f_inode fl \<noteq> i"
    and used: "run_at (bits_of (free_map s)) True (unat (i_sector ino)) 1"
      "run_at (bits_of (free_map s)) True (unat (id_start (i_data ino))) (unat (bytes_to_sectors (id_length (i_data ino))))"
      "unat (i_sector ino) \<notin> slots (id_start (i_data ino)) (bytes_to_sectors (id_length (i_data ino)))"
  shows "\<exists>s' c'. inode_close s (Some i) = Some s' \<and> fs_holds s' c' \<and> fm_ok s' d \<and> inodes s' = (inodes s)(i := None)
    \<and> open_inodes s' = remove1 i (open_inodes s) \<and> files s' = files s \<and> fs_next s' = fs_next s
    \<and> free_map_file s' = free_map_file s \<and> (fs_mallocs s = [] \<longrightarrow> fs_mallocs s' = [])
    \<and> fs_size s' = fs_size s \<and> (\<forall>t. t \<notin> data_sectors d \<longrightarrow> c' t = c t)
    \<and> bit_used (free_map s') = bit_used (free_map s) - {unat (i_sector ino)}
        - slots (id_start (i_data ino)) (bytes_to_sectors (id_length (i_data ino)))"
proof -
  let ?n = "bytes_to_sectors (id_length (i_data ino))" and ?st = "id_start (i_data ino)" and ?b = "bits_of (free_map s)"
  let ?s1 = "s\<lparr>inodes := (inodes s)(i \<mapsto> ino\<lparr>open_cnt := 0\<rparr>), open_inodes := remove1 i (open_inodes s)\<rparr>"
  have fm1: "fm_ok ?s1 d" by (rule fm_ok_inodes [OF fm]) (use other in auto)
  have h1: "fs_holds ?s1 c" using fs_holds_blocks [OF h, of ?s1] by simp
  obtain s2 c2 where s2: "free_map_release ?s1 (i_sector ino) 1 = Some s2" "fs_holds s2 c2" "fm_ok s2 d"
      "fs_frame (?s1\<lparr>free_map := free_map s2\<rparr>) s2" "bit_cnt (free_map s2) = bit_cnt (free_map s)"
      "bits_of (free_map s2) = set_range ?b (unat (i_sector ino)) 1 False" "\<forall>t. t \<notin> data_sectors d \<longrightarrow> c2 t = c t"
    using free_map_release_holds [OF h1 fm1, of "i_sector ino" 1] used(1) by auto
  have run2: "run_at (bits_of (free_map s2)) True (unat ?st) (unat ?n)"
    using used s2(5,6) unfolding run_at_def slots_def by (auto simp: nth_set_range)
  obtain s3 c3 where s3: "free_map_release s2 ?st ?n = Some s3" "fs_holds s3 c3" "fm_ok s3 d"
      "fs_frame (s2\<lparr>free_map := free_map s3\<rparr>) s3" "bit_cnt (free_map s3) = bit_cnt (free_map s2)"
      "bits_of (free_map s3) = set_range (bits_of (free_map s2)) (unat ?st) (unat ?n) False"
      "\<forall>t. t \<notin> data_sectors d \<longrightarrow> c3 t = c2 t"
    using free_map_release_holds [OF s2(2,3) run2] by blast
  let ?s4 = "s3\<lparr>inodes := (inodes s3)(i := None)\<rparr>"
  note f2 = fs_frame_simps [OF s2(4)] and f3 = fs_frame_simps [OF s3(4)]
  have "inode_close s (Some i) = Some ?s4"
    using ino s2(1) s3(1) by (simp add: inode_close_def upd_inode_def)
  moreover have "fm_ok ?s4 d" by (rule fm_ok_inodes [OF s3(3)]) (use f2 f3 other in auto)
  moreover have "fs_holds ?s4 c3" using fs_holds_blocks [OF s3(2), of ?s4] by simp
  moreover have "bit_used (free_map s2) = bit_used (free_map s) - {unat (i_sector ino)}"
    using bit_used_set_range [of "i_sector ino" 1 "free_map s" "free_map s2" False] used(1) s2(5,6)
    by (simp add: run_at_def slots_def)
  moreover have "bit_used (free_map s3) = bit_used (free_map s2) - slots ?st ?n"
    using bit_used_set_range [of ?st ?n "free_map s2" "free_map s3" False] run2 s3(5,6) by (simp add: run_at_def)
  moreover have "fs_size ?s4 = fs_size s"
    using fs_frame_size [OF s2(4), of c] fs_frame_size [OF s3(4), of c2] fs_holds_blocks [OF h1, of "?s1\<lparr>free_map := free_map s2\<rparr>"]
      fs_holds_blocks [OF s2(2), of "s2\<lparr>free_map := free_map s3\<rparr>"] by (simp add: fs_size_def)
  ultimately show ?thesis using f2 f3 s2(7) s3(7) by (intro exI [of _ ?s4] exI [of _ c3]) auto
qed

section \<open>Open files and write denial\<close>

text \<open>How the counts follow an update of one entry of the table of files.\<close>

lemma card_map_update:
  assumes "finite {f. P (m f)}"
  shows "card {f. P ((m(a := x)) f)} + of_bool (P (m a)) = card {f. P (m f)} + of_bool (P x)"
proof -
  have "{f. P ((m(a := x)) f)} = (if P x then insert a ({f. P (m f)} - {a}) else {f. P (m f)} - {a})" by auto
  then show ?thesis using assms card_Suc_Diff1 [of "{f. P (m f)}" a] by (cases "P (m a)") (auto simp: card_insert_if)
qed

lemma refs_update:
  assumes "finite (dom (files s))" and "files s' = (files s)(f := x)"
  shows "refs s' i + of_bool (\<exists>fl. files s f = Some fl \<and> f_inode fl = i) = refs s i + of_bool (\<exists>fl. x = Some fl \<and> f_inode fl = i)"
  using card_map_update [of "\<lambda>fo. \<exists>fl. fo = Some fl \<and> f_inode fl = i" "files s" f x] finite_refs [OF assms(1), of i]
  by (simp add: refs_def assms(2))

lemma denials_update:
  assumes "finite (dom (files s))" and "files s' = (files s)(f := x)"
  shows "denials s' i + of_bool (\<exists>fl. files s f = Some fl \<and> f_inode fl = i \<and> f_deny_write fl)
    = denials s i + of_bool (\<exists>fl. x = Some fl \<and> f_inode fl = i \<and> f_deny_write fl)"
proof -
  have "finite {f. \<exists>fl. files s f = Some fl \<and> f_inode fl = i \<and> f_deny_write fl}"
    by (rule finite_subset [OF _ finite_refs [OF assms(1), of i]]) auto
  then show ?thesis
    using card_map_update [of "\<lambda>fo. \<exists>fl. fo = Some fl \<and> f_inode fl = i \<and> f_deny_write fl" "files s" f x]
    by (simp add: denials_def assms(2))
qed

text \<open>A new file takes over one of the openers of its inode.\<close>

lemma table_ok_new_file:
  assumes ok: "table_ok s" and ino: "inodes s i = Some ino" "int (refs s i) < open_cnt ino"
    and new: "files s' = (files s)(fs_next s \<mapsto> fl)" "inodes s' = inodes s" "open_inodes s' = open_inodes s" "fs_next s' = fs_next s + 1"
    and fl: "f_inode fl = i" "\<not> f_deny_write fl"
  shows "table_ok s'" and "refs s' j = (if j = i then refs s j + 1 else refs s j)"
proof -
  have f: "files s (fs_next s) = None" using table_okD(4) [OF ok, of "fs_next s"] by (cases "files s (fs_next s)") auto
  show refs: "refs s' j = (if j = i then refs s j + 1 else refs s j)" for j
    using refs_update [OF table_okD(5) [OF ok] new(1), of j] f fl by auto
  have den: "denials s' j = denials s j" for j
    using denials_update [OF table_okD(5) [OF ok] new(1), of j] f fl by auto
  show "table_ok s'"
    unfolding table_ok_def refs den new using table_okD [OF ok] table_ok_inode [OF ok] ino fl by (force simp: less_Suc_eq)
qed

lemma file_open_ok:
  assumes ok: "table_ok s" and ino: "inodes s i = Some ino" "int (refs s i) < open_cnt ino" and mem: "fs_mallocs s = []"
  shows "\<exists>s'. file_open s (Some i) = Some (s', Some (fs_next s)) \<and> table_ok s' \<and> inodes s' = inodes s \<and> same_dev s s'
    \<and> files s' = (files s)(fs_next s \<mapsto> \<lparr>f_inode = i, f_pos = 0, f_deny_write = False\<rparr>)"
proof -
  let ?fl = "\<lparr>f_inode = i, f_pos = 0, f_deny_write = False\<rparr>" and ?f = "fs_next s"
  let ?s = "s\<lparr>fs_next := ?f + 1, files := (files s)(?f \<mapsto> ?fl)\<rparr>"
  have "file_open s (Some i) = Some (?s, Some ?f)" using mem by (simp add: file_open_def fs_malloc_def Let_def)
  moreover have "table_ok ?s" by (rule table_ok_new_file(1) [OF ok ino, where fl = ?fl]) simp_all
  ultimately show ?thesis by (auto simp: same_dev_def)
qed

text \<open>An open file of inode \<open>i\<close> and the inode change together.\<close>

lemma table_ok_update:
  assumes ok: "table_ok s" and fl: "files s f = Some fl" "f_inode fl = i" and ino: "inodes s i = Some ino"
    and new: "files s' = (files s)(f := x)" "inodes s' = (inodes s)(i \<mapsto> ino')" "open_inodes s' = open_inodes s" "fs_next s' = fs_next s"
    and x: "\<And>fl'. x = Some fl' \<Longrightarrow> f_inode fl' = i"
    and ino': "i_sector ino' = i_sector ino" "0 < open_cnt ino'" "int (refs s' i) \<le> open_cnt ino'" "deny_write_cnt ino' = int (denials s' i)"
  shows "table_ok s'"
proof -
  have other: "refs s' j = refs s j" "denials s' j = denials s j" if "j \<noteq> i" for j
  proof -
    have "\<not> (\<exists>fl'. x = Some fl' \<and> f_inode fl' = j)" using that x by auto
    then show "refs s' j = refs s j" "denials s' j = denials s j"
      using refs_update [OF table_okD(5) [OF ok] new(1), of j] denials_update [OF table_okD(5) [OF ok] new(1), of j] fl that
      by (auto split: if_splits simp: of_bool_def)
  qed
  have "i_sector (the (inodes s' j)) = i_sector (the (inodes s j))" for j using ino ino'(1) by (simp add: new(2))
  moreover have dom: "dom (inodes s') = dom (inodes s)" using ino by (auto simp: new(2))
  moreover have "f_inode fl' \<in> dom (inodes s)" if "files s' g = Some fl'" for g fl'
    using that table_okD(7) [OF ok, of g fl'] x ino by (auto simp: new(1) split: if_splits)
  moreover have "finite (dom (files s'))" "\<And>g. g \<in> dom (files s') \<Longrightarrow> g < fs_next s"
    using table_okD(4,5) [OF ok] fl by (auto simp: new(1) split: if_splits)
  moreover have "0 < open_cnt y \<and> int (refs s' j) \<le> open_cnt y \<and> deny_write_cnt y = int (denials s' j)" if "inodes s' j = Some y" for j y
    using that ino' other [of j] table_ok_inode(1-3) [OF ok, of j y] by (cases "j = i") (auto simp: new(2))
  ultimately show ?thesis
    unfolding table_ok_def new(3,4) using table_okD(1-3,6) [OF ok] by (simp add: dom)
qed

lemma file_deny_write_ok:
  assumes ok: "table_ok s" and fl: "files s f = Some fl"
  shows "\<exists>s' ino. file_deny_write s f = Some s' \<and> table_ok s' \<and> files s' = (files s)(f \<mapsto> fl\<lparr>f_deny_write := True\<rparr>)
    \<and> inodes s' (f_inode fl) = Some ino \<and> 0 < deny_write_cnt ino \<and> same_dev s s'"
proof -
  obtain ino where ino: "inodes s (f_inode fl) = Some ino" using table_okD(7) [OF ok fl] by auto
  have fin: "finite (dom (files s))" by (rule table_okD(5) [OF ok])
  show ?thesis
  proof (cases "f_deny_write fl")
    case True
    have "f \<in> {g. \<exists>x. files s g = Some x \<and> f_inode x = f_inode fl \<and> f_deny_write x}" using fl True by simp
    moreover have "finite {g. \<exists>x. files s g = Some x \<and> f_inode x = f_inode fl \<and> f_deny_write x}"
      by (rule finite_subset [OF _ finite_refs [OF fin, of "f_inode fl"]]) auto
    ultimately have "0 < denials s (f_inode fl)" unfolding denials_def by (auto simp: card_gt_0_iff)
    moreover have "(files s)(f \<mapsto> fl\<lparr>f_deny_write := True\<rparr>) = files s" using fl True by (cases fl) auto
    ultimately show ?thesis
      using True fl ok ino table_ok_inode(3) [OF ok ino] by (auto simp: file_deny_write_def same_dev_def)
  next
    case False
    let ?fl = "fl\<lparr>f_deny_write := True\<rparr>" and ?ino = "ino\<lparr>deny_write_cnt := deny_write_cnt ino + 1\<rparr>"
    let ?s = "s\<lparr>files := (files s)(f \<mapsto> ?fl), inodes := (inodes s)(f_inode fl \<mapsto> ?ino)\<rparr>"
    have cnt: "refs ?s (f_inode fl) = refs s (f_inode fl)" "denials ?s (f_inode fl) = denials s (f_inode fl) + 1"
      using refs_update [OF fin, of ?s f "Some ?fl" "f_inode fl"] denials_update [OF fin, of ?s f "Some ?fl" "f_inode fl"] fl False
      by auto
    have fin': "finite (dom (files ?s))" using fin by simp
    have tab: "table_ok ?s"
      by (rule table_ok_update [OF ok fl refl ino, where x = "Some ?fl" and ino' = ?ino])
        (use table_ok_inode [OF ok ino] cnt in simp_all)
    then have "file_deny_write s f = Some ?s"
      using False fl ino table_ok_inode(4) [OF tab, of "f_inode fl" ?ino] by (simp add: file_deny_write_def inode_deny_write_def upd_inode_def)
    then show ?thesis using tab table_ok_inode(3) [OF ok ino] by (auto simp: same_dev_def)
  qed
qed

lemma file_allow_write_ok:
  assumes ok: "table_ok s" and fl: "files s f = Some fl" and ino: "inodes s (f_inode fl) = Some ino"
  shows "\<exists>s'. file_allow_write s f = Some s' \<and> table_ok s' \<and> files s' = (files s)(f \<mapsto> fl\<lparr>f_deny_write := False\<rparr>)
    \<and> inodes s' = (inodes s)(f_inode fl \<mapsto> ino\<lparr>deny_write_cnt := deny_write_cnt ino - of_bool (f_deny_write fl)\<rparr>)
    \<and> same_dev s s'"
proof (cases "f_deny_write fl")
  case False
  then have "(files s)(f \<mapsto> fl\<lparr>f_deny_write := False\<rparr>) = files s" "(inodes s)(f_inode fl \<mapsto> ino) = inodes s"
    using fl ino by (cases fl, auto)
  then show ?thesis using False fl ok by (simp add: file_allow_write_def same_dev_def)
next
  case True
  have fin: "finite (dom (files s))" by (rule table_okD(5) [OF ok])
  let ?fl = "fl\<lparr>f_deny_write := False\<rparr>" and ?ino = "ino\<lparr>deny_write_cnt := deny_write_cnt ino - 1\<rparr>"
  let ?s = "s\<lparr>files := (files s)(f \<mapsto> ?fl), inodes := (inodes s)(f_inode fl \<mapsto> ?ino)\<rparr>"
  have cnt: "refs ?s (f_inode fl) = refs s (f_inode fl)" "denials ?s (f_inode fl) + 1 = denials s (f_inode fl)"
    using refs_update [OF fin, of ?s f "Some ?fl" "f_inode fl"] denials_update [OF fin, of ?s f "Some ?fl" "f_inode fl"] fl True
    by auto
  have "table_ok ?s"
    by (rule table_ok_update [OF ok fl refl ino, where x = "Some ?fl" and ino' = ?ino])
      (use table_ok_inode [OF ok ino] cnt in simp_all)
  moreover have "file_allow_write s f = Some ?s"
    using True fl ino table_ok_inode(3,4) [OF ok ino] cnt(2) by (simp add: file_allow_write_def inode_allow_write_def upd_inode_def)
  ultimately show ?thesis using True by (simp add: same_dev_def)
qed

lemma table_ok_remove_file:
  assumes ok: "table_ok s" and fl: "files s f = Some fl" "\<not> f_deny_write fl"
    and new: "files s' = (files s)(f := None)" "inodes s' = inodes s" "open_inodes s' = open_inodes s" "fs_next s' = fs_next s"
  shows "table_ok s'" and "refs s' (f_inode fl) + 1 = refs s (f_inode fl)"
proof -
  obtain ino where ino: "inodes s (f_inode fl) = Some ino" using table_okD(7) [OF ok fl(1)] by auto
  have fin: "finite (dom (files s))" by (rule table_okD(5) [OF ok])
  show r: "refs s' (f_inode fl) + 1 = refs s (f_inode fl)"
    using refs_update [OF fin new(1), of "f_inode fl"] fl by auto
  have d: "denials s' (f_inode fl) = denials s (f_inode fl)"
    using denials_update [OF fin new(1), of "f_inode fl"] fl by auto
  have "inodes s' = (inodes s)(f_inode fl \<mapsto> ino)" using ino new(2) by auto
  then show "table_ok s'"
    by (rule table_ok_update [OF ok fl(1) refl ino new(1) _ new(3,4)]) (use table_ok_inode [OF ok ino] r d in simp_all)
qed

lemma file_close_ok:
  assumes ok: "table_ok s" and fl: "files s f = Some fl" and ino: "inodes s (f_inode fl) = Some ino"
    and keep: "1 < open_cnt ino \<or> \<not> removed ino"
  shows "\<exists>s'. file_close s (Some f) = Some s' \<and> table_ok s' \<and> files s' = (files s)(f := None) \<and> same_dev s s'
    \<and> inodes s' = (inodes s)(f_inode fl := if open_cnt ino = 1 then None
        else Some (ino\<lparr>open_cnt := open_cnt ino - 1, deny_write_cnt := deny_write_cnt ino - of_bool (f_deny_write fl)\<rparr>))"
proof -
  let ?i = "f_inode fl"
  let ?ino = "ino\<lparr>deny_write_cnt := deny_write_cnt ino - of_bool (f_deny_write fl)\<rparr>"
  obtain s1 where s1: "file_allow_write s f = Some s1" "table_ok s1" "files s1 = (files s)(f \<mapsto> fl\<lparr>f_deny_write := False\<rparr>)"
      "inodes s1 = (inodes s)(?i \<mapsto> ?ino)" "same_dev s s1"
    using file_allow_write_ok [OF ok fl ino] by blast
  let ?s2 = "s1\<lparr>files := (files s1)(f := None)\<rparr>"
  have s2: "table_ok ?s2" "refs ?s2 ?i + 1 = refs s1 ?i"
    using table_ok_remove_file [OF s1(2), of f "fl\<lparr>f_deny_write := False\<rparr>" ?s2] s1(3) by simp_all
  have lt: "int (refs ?s2 ?i) < open_cnt ino" using s2(2) table_ok_inode(2) [OF s1(2), of ?i ?ino] s1(4) by simp
  have ino2: "inodes ?s2 ?i = Some ?ino" using s1(4) by simp
  show ?thesis
  proof (cases "open_cnt ino = 1")
    case True
    then have "refs ?s2 ?i = 0" using lt by simp
    then obtain s3 where s3: "inode_close ?s2 (Some ?i) = Some s3" "table_ok s3" "inodes s3 = (inodes ?s2)(?i := None)"
        "same_dev ?s2 s3" "files s3 = files ?s2"
      using inode_close_last [OF s2(1) ino2] True keep by auto
    have "file_close s (Some f) = Some s3"
      using s1(1,3,4) s3(1) True keep by (auto simp: file_close_def inode_close_def upd_inode_def)
    then show ?thesis using s3 s1 True by (intro exI [of _ s3]) (auto simp: same_dev_def)
  next
    case False
    then have gt: "1 < open_cnt ino" using table_ok_inode(1) [OF ok ino] by simp
    then obtain s3 where s3: "inode_close ?s2 (Some ?i) = Some s3" "table_ok s3"
        "inodes s3 = (inodes ?s2)(?i \<mapsto> ?ino\<lparr>open_cnt := open_cnt ?ino - 1\<rparr>)" "same_dev ?s2 s3" "files s3 = files ?s2"
      using inode_close_shared [OF s2(1) ino2] lt denials_le_refs [OF table_okD(5) [OF s2(1)]] by auto
    have "file_close s (Some f) = Some s3"
      using s1(1,3,4) s3(1) gt by (auto simp: file_close_def inode_close_def upd_inode_def)
    then show ?thesis using s3 s1 False by (intro exI [of _ s3]) (auto simp: same_dev_def)
  qed
qed

section \<open>The life of open files\<close>

text \<open>One operation on the open files: a caller opens the inode of a sector and wraps it in a file, opens a second file on
  the same inode, denies or allows writes, or closes a file whose inode stays (it has other openers, or is not removed).\<close>

inductive file_step :: "fs \<Rightarrow> fs \<Rightarrow> bool" where
  step_open: "sector < fs_size s \<Longrightarrow> inode_open s sector = Some (s1, i) \<Longrightarrow> file_open s1 i = Some (s', f) \<Longrightarrow> file_step s s'"
| step_reopen: "file_reopen s f = Some (s', g) \<Longrightarrow> file_step s s'"
| step_deny: "file_deny_write s f = Some s' \<Longrightarrow> file_step s s'"
| step_allow: "file_allow_write s f = Some s' \<Longrightarrow> file_step s s'"
| step_close: "files s f = Some fl \<Longrightarrow> inodes s (f_inode fl) = Some ino \<Longrightarrow> 1 < open_cnt ino \<or> \<not> removed ino
    \<Longrightarrow> file_close s (Some f) = Some s' \<Longrightarrow> file_step s s'"

definition files_ok :: "(block_sector_t \<Rightarrow> byte list) \<Rightarrow> fs \<Rightarrow> bool" where
  "files_ok c s \<longleftrightarrow> table_ok s \<and> fs_holds s c \<and> fs_mallocs s = []"

lemma files_ok_same_dev: "files_ok c s \<Longrightarrow> table_ok s' \<Longrightarrow> same_dev s s' \<Longrightarrow> files_ok c s'"
  using same_dev_holds [of s s' c] by (auto simp: files_ok_def same_dev_def)

lemma table_ok_file: "table_ok s \<Longrightarrow> files s f = Some fl \<Longrightarrow> \<exists>ino. inodes s (f_inode fl) = Some ino"
  using table_okD(7) by blast

lemma table_ok_sector:
  assumes "table_ok s" "inodes s i = Some ino" "inodes s j = Some ino'" "i_sector ino = i_sector ino'"
  shows "i = j"
  by (rule inj_onD [OF table_okD(6) [OF assms(1)]]) (use assms in auto)

lemma refs_only: "files s' = files s \<Longrightarrow> refs s' i = refs s i"
  by (simp add: refs_def)

lemma refs_fresh:
  assumes "table_ok s" "inodes s i = None"
  shows "refs s i = 0"
proof -
  have no: "{f. \<exists>fl. files s f = Some fl \<and> f_inode fl = i} = {}"
    using assms by (auto simp: table_ok_def)
  show ?thesis unfolding refs_def no by simp
qed

lemma files_ok_open:
  assumes ok: "files_ok c s" and "sector < fs_size s" "inode_open s sector = Some (s1, i)"
  shows "files_ok c s1 \<and> (\<exists>j ino. i = Some j \<and> inodes s1 j = Some ino \<and> i_sector ino = sector \<and> int (refs s1 j) < open_cnt ino)"
proof -
  have tab: "table_ok s" "fs_holds s c" "fs_mallocs s = []" using ok by (simp_all add: files_ok_def)
  show ?thesis
  proof (cases "\<exists>i ino. inodes s i = Some ino \<and> i_sector ino = sector")
    case True
    then obtain j ino where j: "inodes s j = Some ino" "i_sector ino = sector" "i = Some j" "table_ok s1"
        "inodes s1 = (inodes s)(j \<mapsto> ino\<lparr>open_cnt := open_cnt ino + 1\<rparr>)" "files s1 = files s" "same_dev s s1"
      using inode_open_ok [OF tab(1,2) assms(2)] assms(3) by auto
    then show ?thesis using files_ok_same_dev [OF ok] table_ok_inode(2) [OF tab(1) j(1)] by (simp add: refs_only [OF j(6)])
  next
    case False
    then have j: "i = Some (fs_next s)" "table_ok s1" "fs_holds s1 c" "files s1 = files s" "fs_mallocs s1 = []"
        "inodes s1 = (inodes s)(fs_next s \<mapsto> \<lparr>i_sector = sector, open_cnt = 1, removed = False, deny_write_cnt = 0,
            i_data = dec_inode (c sector)\<rparr>)"
      using inode_open_ok [OF tab(1,2) assms(2)] assms(3) tab(3) by auto
    have "inodes s (fs_next s) = None" using tab(1) by (auto simp: table_ok_def)
    then have "refs s1 (fs_next s) = 0" using refs_fresh [OF tab(1)] by (simp add: refs_only [OF j(4)])
    then show ?thesis using j by (simp add: files_ok_def)
  qed
qed

lemma files_ok_file_open:
  assumes ok: "files_ok c s" and "inodes s i = Some ino" "int (refs s i) < open_cnt ino" "file_open s (Some i) = Some (s', f)"
  shows "files_ok c s'"
  using file_open_ok [of s i ino] assms files_ok_same_dev [OF ok] by (auto simp: files_ok_def)

lemma files_ok_step:
  assumes "file_step s s'" "files_ok c s"
  shows "files_ok c s'"
  using assms
proof cases
  case (step_open sector s1 i f)
  then show ?thesis using files_ok_open [OF assms(2)] files_ok_file_open by blast
next
  case (step_reopen f g)
  have ok: "table_ok s" using assms(2) by (simp add: files_ok_def)
  from step_reopen obtain fl where fl: "files s f = Some fl" by (auto simp: file_reopen_def split: bind_splits)
  then obtain ino where ino: "inodes s (f_inode fl) = Some ino" using table_ok_file [OF ok] by blast
  then obtain s1 where s1: "inode_reopen s (Some (f_inode fl)) = Some (s1, Some (f_inode fl))" "table_ok s1" "files s1 = files s"
      "same_dev s s1" "inodes s1 = (inodes s)(f_inode fl \<mapsto> ino\<lparr>open_cnt := open_cnt ino + 1\<rparr>)"
    using inode_reopen_ok [OF ok ino] by blast
  then have "file_open s1 (Some (f_inode fl)) = Some (s', g)" using step_reopen fl by (simp add: file_reopen_def)
  then show ?thesis
    using files_ok_file_open [OF files_ok_same_dev [OF assms(2) s1(2,4)], of "f_inode fl"] s1(3,5) table_ok_inode(2) [OF ok ino]
    by (simp add: refs_only [OF s1(3)])
next
  case (step_deny f)
  then obtain fl where fl: "files s f = Some fl" by (auto simp: file_deny_write_def split: bind_splits)
  then show ?thesis using file_deny_write_ok [of s f fl] step_deny assms(2) files_ok_same_dev [OF assms(2)] by (auto simp: files_ok_def)
next
  case (step_allow f)
  then obtain fl where fl: "files s f = Some fl" by (auto simp: file_allow_write_def split: bind_splits)
  moreover from this obtain ino where "inodes s (f_inode fl) = Some ino"
    using table_ok_file assms(2) unfolding files_ok_def by blast
  ultimately show ?thesis
    using file_allow_write_ok [of s f fl ino] step_allow assms(2) files_ok_same_dev [OF assms(2)] by (auto simp: files_ok_def)
next
  case (step_close f fl ino)
  then show ?thesis using file_close_ok [of s f fl ino] assms(2) files_ok_same_dev [OF assms(2)] by (auto simp: files_ok_def)
qed

lemma files_ok_steps: "file_step\<^sup>*\<^sup>* s s' \<Longrightarrow> files_ok c s \<Longrightarrow> files_ok c s'"
  by (induction rule: rtranclp_induct) (auto intro: files_ok_step)

lemma file_write_denied:
  assumes "files s g = Some fl" "inodes s (f_inode fl) = Some ino" "0 < deny_write_cnt ino"
  shows "file_write s g buffer n = Some (s, 0)"
proof -
  have "inode_write_at s (f_inode fl) buffer n (f_pos fl) = Some (s, 0)"
    by (rule inode_write_at_denied [OF assms(2)]) (use assms(3) in simp)
  then show ?thesis using assms(1) by (simp add: file_write_def fun_upd_idem)
qed

lemma removed_inode_close:
  assumes ok: "table_ok s" and h: "fs_holds s c" and fm: "fm_ok s d"
    and ino: "inodes s i = Some ino" "open_cnt ino = 1" "removed ino"
    and other: "\<forall>f fl. free_map_file s = Some f \<longrightarrow> files s f = Some fl \<longrightarrow> f_inode fl \<noteq> i"
    and used: "run_at (bits_of (free_map s)) True (unat (i_sector ino)) 1"
      "run_at (bits_of (free_map s)) True (unat (id_start (i_data ino))) (unat (bytes_to_sectors (id_length (i_data ino))))"
      "unat (i_sector ino) \<notin> slots (id_start (i_data ino)) (bytes_to_sectors (id_length (i_data ino)))"
    and "refs s i = 0"
  shows "\<exists>s'. inode_close s (Some i) = Some s' \<and> table_ok s' \<and> fm_inv s' \<and> inodes s' = (inodes s)(i := None)
    \<and> files s' = files s \<and> bit_used (free_map s') = bit_used (free_map s) - {unat (i_sector ino)}
        - slots (id_start (i_data ino)) (bytes_to_sectors (id_length (i_data ino)))"
proof -
  obtain s' c' where s': "inode_close s (Some i) = Some s'" "fs_holds s' c'" "fm_ok s' d" "inodes s' = (inodes s)(i := None)"
      "open_inodes s' = remove1 i (open_inodes s)" "files s' = files s" "fs_next s' = fs_next s"
      "bit_used (free_map s') = bit_used (free_map s) - {unat (i_sector ino)}
        - slots (id_start (i_data ino)) (bytes_to_sectors (id_length (i_data ino)))"
    using inode_close_released [OF h fm ino other used] by blast
  moreover have "table_ok s'" by (rule table_ok_drop_inode [OF ok assms(11) s'(5,4,6,7)])
  moreover have "fm_inv s'" using s'(2,3) by (auto simp: fm_inv_def)
  ultimately show ?thesis by blast
qed

text \<open>The same through the last file: while \<^verbatim>\<open>inode_close\<close> runs the file is still there.\<close>

lemma removed_file_close:
  assumes ok: "table_ok s" and h: "fs_holds s c" and fm: "fm_ok s d"
    and ino: "inodes s i = Some ino" "open_cnt ino = 1" "removed ino"
    and other: "\<forall>f fl. free_map_file s = Some f \<longrightarrow> files s f = Some fl \<longrightarrow> f_inode fl \<noteq> i"
    and used: "run_at (bits_of (free_map s)) True (unat (i_sector ino)) 1"
      "run_at (bits_of (free_map s)) True (unat (id_start (i_data ino))) (unat (bytes_to_sectors (id_length (i_data ino))))"
      "unat (i_sector ino) \<notin> slots (id_start (i_data ino)) (bytes_to_sectors (id_length (i_data ino)))"
    and fl: "files s f = Some fl" "f_inode fl = i"
  shows "\<exists>s'. file_close s (Some f) = Some s' \<and> table_ok s' \<and> fm_inv s' \<and> inodes s' = (inodes s)(i := None)
    \<and> files s' = (files s)(f := None) \<and> bit_used (free_map s') = bit_used (free_map s) - {unat (i_sector ino)}
        - slots (id_start (i_data ino)) (bytes_to_sectors (id_length (i_data ino)))"
proof -
  let ?fl = "fl\<lparr>f_deny_write := False\<rparr>" and ?ino = "ino\<lparr>deny_write_cnt := deny_write_cnt ino - of_bool (f_deny_write fl)\<rparr>"
  have i: "inodes s (f_inode fl) = Some ino" using ino fl by simp
  obtain s1 where s1: "file_allow_write s f = Some s1" "table_ok s1" "files s1 = (files s)(f \<mapsto> ?fl)"
      "inodes s1 = (inodes s)(i \<mapsto> ?ino)" "same_dev s s1"
    using file_allow_write_ok [OF ok fl(1) i] fl(2) by blast
  have dev: "free_map s1 = free_map s" "free_map_file s1 = free_map_file s" "fs_blocks s1 = fs_blocks s" "fs_device s1 = fs_device s"
    using s1(5) by (simp_all add: same_dev_def)
  have not_map: "free_map_file s \<noteq> Some f" using other fl by blast
  obtain g gl inog where g: "free_map_file s = Some g" "files s g = Some gl" "inodes s (f_inode gl) = Some inog"
      "i_data inog = d" "deny_write_cnt inog = 0"
    using fm by (auto simp: fm_ok_def)
  then have g1: "files s1 g = Some gl" "inodes s1 (f_inode gl) = Some inog"
    using other not_map s1(3,4) by auto
  then have fm1: "fm_ok s1 d"
    using fm g dev by (auto simp: fm_ok_def inode_ok_def fs_size_def)
  have other1: "\<forall>g gl. free_map_file s1 = Some g \<longrightarrow> files s1 g = Some gl \<longrightarrow> f_inode gl \<noteq> i"
    using g g1 other dev(2) by auto
  obtain s2 c2 where s2: "inode_close s1 (Some i) = Some s2" "fs_holds s2 c2" "fm_ok s2 d" "inodes s2 = (inodes s1)(i := None)"
      "open_inodes s2 = remove1 i (open_inodes s1)" "files s2 = files s1" "fs_next s2 = fs_next s1"
      "free_map_file s2 = free_map_file s1"
      "bit_used (free_map s2) = bit_used (free_map s1) - {unat (i_sector ino)}
        - slots (id_start (i_data ino)) (bytes_to_sectors (id_length (i_data ino)))"
    using inode_close_released [OF same_dev_holds [OF s1(5) h] fm1, of i ?ino] s1(4) ino other1 used dev(1) by auto
  let ?s1 = "s1\<lparr>files := (files s1)(f := None)\<rparr>" and ?s2 = "s2\<lparr>files := (files s2)(f := None)\<rparr>"
  have t1: "table_ok ?s1" "refs ?s1 i + 1 = refs s1 i"
    using table_ok_remove_file [OF s1(2), of f ?fl ?s1] s1(3) fl(2) by simp_all
  have "refs ?s1 i = 0" using t1(2) table_ok_inode(2) [OF s1(2), of i ?ino] s1(4) ino(2) by simp
  then have "table_ok ?s2"
    by (rule table_ok_drop_inode [OF t1(1)]) (use s2 in simp_all)
  moreover have "fm_ok ?s2 d"
    using s2(3,8) dev(2) not_map g(1) by (auto simp: fm_ok_def inode_ok_def fs_size_def)
  then have "fm_inv ?s2" using fs_holds_blocks [OF s2(2), of ?s2] by (auto simp: fm_inv_def)
  moreover have "file_close s (Some f) = Some ?s2" using s1(1,3) s2(1) fl(2) by (simp add: file_close_def)
  ultimately show ?thesis using s2 s1 dev(1) by (intro exI [of _ ?s2]) auto
qed

section \<open>Properties\<close>

text \<open>C16. Whatever sequence of opens, reopens, denials, permissions and closes led to a state, denying writes to an open file
  never trips an assertion, and afterwards a write through any file open on the same inode returns 0 and changes nothing,
  at whatever offset and however many bytes: a running executable cannot be modified.\<close>

theorem denied_file_unwritable:
  assumes "table_ok s0" "fs_holds s0 c" "fs_mallocs s0 = []" "file_step\<^sup>*\<^sup>* s0 s" "files s f = Some fl"
  shows "\<exists>s'. file_deny_write s f = Some s' \<and> table_ok s' \<and> fs_holds s' c
    \<and> (\<forall>g fl' buffer n. files s' g = Some fl' \<longrightarrow> f_inode fl' = f_inode fl \<longrightarrow> file_write s' g buffer n = Some (s', 0))"
proof -
  have "files_ok c s" using files_ok_steps [OF assms(4)] assms(1-3) by (simp add: files_ok_def)
  then have ok: "table_ok s" "fs_holds s c" by (simp_all add: files_ok_def)
  from file_deny_write_ok [OF ok(1) assms(5)] obtain s' ino where
    s': "file_deny_write s f = Some s'" "table_ok s'" "inodes s' (f_inode fl) = Some ino" "0 < deny_write_cnt ino" "same_dev s s'"
    by blast
  then show ?thesis using same_dev_holds [OF s'(5) ok(2)] file_write_denied by (intro exI [of _ s']) simp
qed

text \<open>C19. The last close of a removed inode, by the holder of the inode or by closing the last file open on it, releases its
  inode sector and its data sectors, and no others, in the free map, writes the map through to the device, and drops the
  inode (and the file) from the tables.\<close>

theorem removed_inode_released:
  assumes "table_ok s" "fs_holds s c" "fm_ok s d"
    and "inodes s i = Some ino" "open_cnt ino = 1" "removed ino"
    and "\<forall>f fl. free_map_file s = Some f \<longrightarrow> files s f = Some fl \<longrightarrow> f_inode fl \<noteq> i"
    and "run_at (bits_of (free_map s)) True (unat (i_sector ino)) 1"
      "run_at (bits_of (free_map s)) True (unat (id_start (i_data ino))) (unat (bytes_to_sectors (id_length (i_data ino))))"
      "unat (i_sector ino) \<notin> slots (id_start (i_data ino)) (bytes_to_sectors (id_length (i_data ino)))"
  shows "(refs s i = 0 \<longrightarrow> (\<exists>s'. inode_close s (Some i) = Some s' \<and> table_ok s' \<and> fm_inv s' \<and> inodes s' = (inodes s)(i := None)
      \<and> files s' = files s
      \<and> bit_used (free_map s') = bit_used (free_map s) - {unat (i_sector ino)}
          - slots (id_start (i_data ino)) (bytes_to_sectors (id_length (i_data ino)))))
    \<and> (\<forall>f fl. files s f = Some fl \<longrightarrow> f_inode fl = i \<longrightarrow>
        (\<exists>s'. file_close s (Some f) = Some s' \<and> table_ok s' \<and> fm_inv s' \<and> inodes s' = (inodes s)(i := None)
          \<and> files s' = (files s)(f := None)
          \<and> bit_used (free_map s') = bit_used (free_map s) - {unat (i_sector ino)}
              - slots (id_start (i_data ino)) (bytes_to_sectors (id_length (i_data ino)))))"
  using removed_inode_close [OF assms] removed_file_close [OF assms] by blast

section \<open>Concrete instances\<close>

lemma ex_table_ok: "table_ok ex_fs"
proof -
  have "{f. \<exists>fl. files ex_fs f = Some fl \<and> f_inode fl = i} = (if i = 0 then {0} else {})" for i
    by (auto simp: ex_fs_def split: if_splits)
  then have "refs ex_fs i = (if i = 0 then 1 else 0)" for i by (simp add: refs_def)
  moreover have "denials ex_fs i = 0" for i by (auto simp: denials_def ex_fs_def)
  ultimately show ?thesis
    by (auto simp: table_ok_def ex_fs_def inj_on_def dom_def split: if_splits)
qed

lemma ex_refs: "refs ex_fs 1 = 0"
proof -
  have no: "{f. \<exists>fl. files ex_fs f = Some fl \<and> f_inode fl = 1} = {}" by (auto simp: ex_fs_def split: if_splits)
  show ?thesis unfolding refs_def no by simp
qed

text \<open>The file of sector 3 is opened as file 2.\<close>

lemma ex_step: "\<exists>s. file_step ex_fs s \<and> files s 2 = Some \<lparr>f_inode = 1, f_pos = 0, f_deny_write = False\<rparr>"
proof -
  have "inode_open ex_fs 3 = Some (ex_fs\<lparr>inodes := (inodes ex_fs)(1 \<mapsto> ex_ino\<lparr>open_cnt := 2\<rparr>)\<rparr>, Some 1)"
    by (simp add: inode_open_def inode_reopen_def upd_inode_def ex_fs_def)
  moreover have "\<exists>s. file_open (ex_fs\<lparr>inodes := (inodes ex_fs)(1 \<mapsto> ex_ino\<lparr>open_cnt := 2\<rparr>)\<rparr>) (Some 1) = Some (s, Some 2)
      \<and> files s 2 = Some \<lparr>f_inode = 1, f_pos = 0, f_deny_write = False\<rparr>"
    by (simp add: file_open_def fs_malloc_def, simp add: ex_fs_def)
  ultimately show ?thesis using step_open [of 3 ex_fs] by fastforce
qed

theorem denied_file_unwritable_witness:
  "\<exists>s s'. file_step\<^sup>*\<^sup>* ex_fs s \<and> file_deny_write s 2 = Some s' \<and> table_ok s'
    \<and> (\<forall>g fl' buffer n. files s' g = Some fl' \<longrightarrow> f_inode fl' = 1 \<longrightarrow> file_write s' g buffer n = Some (s', 0))"
proof -
  obtain s where s: "file_step\<^sup>*\<^sup>* ex_fs s" "files s 2 = Some \<lparr>f_inode = 1, f_pos = 0, f_deny_write = False\<rparr>"
    using ex_step by blast
  show ?thesis using denied_file_unwritable [OF ex_table_ok ex_fs_holds _ s] s(1) by auto
qed

theorem removed_inode_released_witness:
  "\<exists>s s'. inode_remove ex_fs 1 = Some s \<and> inode_close s (Some 1) = Some s' \<and> fm_inv s' \<and> inodes s' 1 = None
    \<and> bit_used (free_map s') = bit_used (free_map ex_fs) - {3} - slots 10 2"
proof -
  let ?s = "ex_fs\<lparr>inodes := (inodes ex_fs)(1 \<mapsto> ex_ino\<lparr>removed := True\<rparr>)\<rparr>"
  have rm: "inode_remove ex_fs 1 = Some ?s" by (simp add: inode_remove_def upd_inode_def)
  have "table_ok ?s"
    by (rule table_ok_upd_inode(1) [OF ex_table_ok ex_fs_fields(1) _ _ _ _ rm [unfolded inode_remove_def]])
      (use table_ok_inode [OF ex_table_ok ex_fs_fields(1)] in simp_all)
  moreover have "fs_holds ?s (\<lambda>_. replicate 512 0)" by (rule same_dev_holds [OF _ ex_fs_holds]) (simp add: same_dev_def)
  moreover have "fm_ok ?s ex_fm_data" by (rule fm_ok_inodes [OF ex_fm_ok, where i = 1]) (auto simp: ex_fs_def)
  moreover have "refs ?s 1 = 0" using ex_refs refs_only [of ?s ex_fs 1] by simp
  moreover have "bits_of (free_map ex_fs) = [True, True, True, True, False, False, False, False, False, False, True, True] @ replicate 88 False"
    by code_simp
  moreover have "bytes_to_sectors 1000 = 2" by code_simp
  moreover have "\<forall>f fl. free_map_file ?s = Some f \<longrightarrow> files ?s f = Some fl \<longrightarrow> f_inode fl \<noteq> 1" by (simp add: ex_fs_def)
  ultimately have "\<exists>s'. inode_close ?s (Some 1) = Some s' \<and> fm_inv s' \<and> inodes s' = (inodes ?s)(1 := None)
      \<and> bit_used (free_map s') = bit_used (free_map ?s) - {3} - slots 10 2"
    using removed_inode_released [of ?s "\<lambda>_. replicate 512 0" ex_fm_data 1 "ex_ino\<lparr>removed := True\<rparr>"]
    by (auto simp: run_at_def slots_def less_2_cases_iff)
  then show ?thesis using rm by auto
qed

end
