(* ===== verification/Directory.thy ===== *)
theory Directory
  imports InodeTable
begin

text \<open>
  Directories (\<^verbatim>\<open>src/src/filesys/directory.c\<close>): a directory is a file of 20-byte entries, searched from the front.  The
  contents of a directory are abstracted to a map from names to inode sectors; looking up, adding and removing
  names refine the operations of that map.
\<close>

section \<open>Entries\<close>

definition NAME_MAX :: nat where
  "NAME_MAX = 14"

record dir_entry =
  de_sector :: block_sector_t
  de_name :: "byte list"
  in_use :: bool

definition enc_entry :: "dir_entry \<Rightarrow> byte list" where
  "enc_entry e = le32 (de_sector e) @ de_name e @ [of_bool (in_use e)]"

definition dec_entry :: "byte list \<Rightarrow> dir_entry" where
  "dec_entry bs = \<lparr>de_sector = of_le32 bs, de_name = bytes_at 4 (NAME_MAX + 1) bs, in_use = (bs ! (NAME_MAX + 5) \<noteq> 0)\<rparr>"

definition sizeof_entry :: nat where
  "sizeof_entry = 4 + (NAME_MAX + 1) + 1"

text \<open>\<^verbatim>\<open>!strcmp (name, e.name)\<close>, where \<open>name\<close> is the first string without its terminator and the buffer that holds the
  second one may lack a terminator, in which case the comparison can run off its end.\<close>

fun same_name :: "byte list \<Rightarrow> byte list \<Rightarrow> bool option" where
  "same_name _ [] = None"
| "same_name [] (b # bs) = Some (b = 0)"
| "same_name (a # as) (b # bs) = (if a = b then same_name as bs else Some False)"

section \<open>Directories\<close>

record dir =
  d_inode :: nat
  d_pos :: int

definition dir_create :: "fs \<Rightarrow> block_sector_t \<Rightarrow> 32 word \<Rightarrow> (fs \<times> bool) option" where
  "dir_create s sector entry_cnt = inode_create s sector (sint (entry_cnt * of_nat sizeof_entry))"

definition dir_open :: "fs \<Rightarrow> nat option \<Rightarrow> (fs \<times> dir option) option" where
  "dir_open s inode = do {
     let (s, ok) = fs_malloc s;
     case inode of
       Some i \<Rightarrow>
         (if ok then Some (s, Some \<lparr>d_inode = i, d_pos = 0\<rparr>)
          else do { s \<leftarrow> inode_close s inode; Some (s, None) })
     | None \<Rightarrow> do { s \<leftarrow> inode_close s None; Some (s, None) }
   }"

definition dir_open_root :: "fs \<Rightarrow> (fs \<times> dir option) option" where
  "dir_open_root s = do { (s, i) \<leftarrow> inode_open s ROOT_DIR_SECTOR; dir_open s i }"

definition dir_reopen :: "fs \<Rightarrow> dir \<Rightarrow> (fs \<times> dir option) option" where
  "dir_reopen s dir = do { (s, i) \<leftarrow> inode_reopen s (Some (d_inode dir)); dir_open s i }"

definition dir_close :: "fs \<Rightarrow> dir option \<Rightarrow> fs option" where
  "dir_close s dir = (case dir of None \<Rightarrow> Some s | Some d \<Rightarrow> inode_close s (Some (d_inode d)))"

definition dir_get_inode :: "dir \<Rightarrow> nat" where
  "dir_get_inode dir = d_inode dir"

text \<open>The loop of \<^verbatim>\<open>lookup\<close>; the result is the entry found and its offset.\<close>

partial_function (option) lookup_loop ::
    "fs \<Rightarrow> dir \<Rightarrow> byte list \<Rightarrow> 32 word \<Rightarrow> (fs \<times> (dir_entry \<times> 32 word) option) option" where
  "lookup_loop s dir name ofs = do {
     (s, data) \<leftarrow> inode_read_at s (d_inode dir) (int sizeof_entry) (sint ofs);
     if length data = sizeof_entry then do {
       let e = dec_entry data;
       hit \<leftarrow> (if in_use e then same_name name (de_name e) else Some False);
       if hit then Some (s, Some (e, ofs)) else lookup_loop s dir name (ofs + of_nat sizeof_entry)
     }
     else Some (s, None)
   }"

definition lookup :: "fs \<Rightarrow> dir \<Rightarrow> byte list \<Rightarrow> (fs \<times> (dir_entry \<times> 32 word) option) option" where
  "lookup s dir name = lookup_loop s dir name 0"

definition dir_lookup :: "fs \<Rightarrow> dir \<Rightarrow> byte list \<Rightarrow> (fs \<times> nat option) option" where
  "dir_lookup s dir name = do {
     (s, r) \<leftarrow> lookup s dir name;
     case r of Some (e, _) \<Rightarrow> inode_open s (de_sector e) | None \<Rightarrow> Some (s, None)
   }"

text \<open>The search of \<^verbatim>\<open>dir_add\<close> for a free slot.  \<open>e\<close> is the local entry, overwritten by each read as far as the read
  goes: after a short read the rest keeps what it held before.\<close>

partial_function (option) free_slot :: "fs \<Rightarrow> dir \<Rightarrow> dir_entry \<Rightarrow> int \<Rightarrow> (fs \<times> dir_entry \<times> int) option" where
  "free_slot s dir e ofs = do {
     (s, data) \<leftarrow> inode_read_at s (d_inode dir) (int sizeof_entry) ofs;
     let e = dec_entry (splice_at 0 data (enc_entry e));
     if length data = sizeof_entry then
       (if \<not> in_use e then Some (s, e, ofs) else free_slot s dir e (ofs + int sizeof_entry))
     else Some (s, e, ofs)
   }"

text \<open>\<open>e0\<close> is what the uninitialised local entry of \<^verbatim>\<open>dir_add\<close> happens to hold.\<close>

definition dir_add :: "dir_entry \<Rightarrow> fs \<Rightarrow> dir \<Rightarrow> byte list \<Rightarrow> block_sector_t \<Rightarrow> (fs \<times> bool) option" where
  "dir_add e0 s dir name inode_sector =
     (if name = [] \<or> length name > NAME_MAX then Some (s, False)
      else do {
        (s, r) \<leftarrow> lookup s dir name;
        case r of
          Some _ \<Rightarrow> Some (s, False)
        | None \<Rightarrow> do {
            (s, e, ofs) \<leftarrow> free_slot s dir e0 0;
            let e = e\<lparr>in_use := True\<rparr>;
            let e = e\<lparr>de_name := strlcpy_field name (de_name e)\<rparr>;
            let e = e\<lparr>de_sector := inode_sector\<rparr>;
            (s, n) \<leftarrow> inode_write_at s (d_inode dir) (enc_entry e) (int sizeof_entry) ofs;
            Some (s, n = int sizeof_entry)
          }
      })"

definition dir_remove :: "fs \<Rightarrow> dir \<Rightarrow> byte list \<Rightarrow> (fs \<times> bool) option" where
  "dir_remove s dir name = do {
     (s, r) \<leftarrow> lookup s dir name;
     (case r of
        None \<Rightarrow> do { s \<leftarrow> inode_close s None; Some (s, False) }
      | Some (e, ofs) \<Rightarrow> do {
          (s, inode) \<leftarrow> inode_open s (de_sector e);
          case inode of
            None \<Rightarrow> do { s \<leftarrow> inode_close s None; Some (s, False) }
          | Some i \<Rightarrow> do {
              let e = e\<lparr>in_use := False\<rparr>;
              (s, n) \<leftarrow> inode_write_at s (d_inode dir) (enc_entry e) (int sizeof_entry) (sint ofs);
              if n \<noteq> int sizeof_entry then do { s \<leftarrow> inode_close s inode; Some (s, False) }
              else do {
                s \<leftarrow> inode_remove s i;
                s \<leftarrow> inode_close s inode;
                Some (s, True)
              }
            }
        })
   }"

text \<open>The caller's name buffer, which \<^verbatim>\<open>strlcpy\<close> fills, comes back with the name.\<close>

partial_function (option) dir_readdir :: "fs \<Rightarrow> dir \<Rightarrow> byte list \<Rightarrow> (fs \<times> dir \<times> byte list option) option" where
  "dir_readdir s dir name = do {
     (s, data) \<leftarrow> inode_read_at s (d_inode dir) (int sizeof_entry) (d_pos dir);
     if length data = sizeof_entry then do {
       let dir = dir\<lparr>d_pos := d_pos dir + int sizeof_entry\<rparr>;
       let e = dec_entry data;
       if in_use e then Some (s, dir, Some (strlcpy_field (cstr (de_name e)) name)) else dir_readdir s dir name
     }
     else Some (s, dir, None)
   }"

section \<open>A directory as a map\<close>

definition dents :: "byte list \<Rightarrow> dir_entry list" where
  "dents bs = map (\<lambda>k. dec_entry (bytes_at (20 * k) 20 bs)) [0..<length bs div 20]"

definition dmap :: "dir_entry list \<Rightarrow> byte list \<Rightarrow> block_sector_t option" where
  "dmap es n = map_option de_sector (List.find (\<lambda>e. in_use e \<and> cstr (de_name e) = n) es)"

text \<open>Names in use are terminated and no two are the same.\<close>

definition dir_wf :: "dir_entry list \<Rightarrow> bool" where
  "dir_wf es \<longleftrightarrow> (\<forall>e \<in> set es. in_use e \<longrightarrow> 0 \<in> set (de_name e))
     \<and> (\<forall>j k. j < length es \<longrightarrow> k < length es \<longrightarrow> in_use (es ! j) \<longrightarrow> in_use (es ! k)
          \<longrightarrow> cstr (de_name (es ! j)) = cstr (de_name (es ! k)) \<longrightarrow> j = k)"

lemma sizeof_entry [simp]: "sizeof_entry = 20"
  by (simp add: sizeof_entry_def NAME_MAX_def)

lemma length_enc_entry: "length (de_name e) = 15 \<Longrightarrow> length (enc_entry e) = 20"
  by (simp add: enc_entry_def)

lemma dec_enc_entry:
  assumes "length (de_name e) = 15"
  shows "dec_entry (enc_entry e) = e"
  using assms by (simp add: dec_entry_def enc_entry_def NAME_MAX_def bytes_at_def nth_append)

lemma length_dec_name: "length bs = 20 \<Longrightarrow> length (de_name (dec_entry bs)) = 15"
  by (simp add: dec_entry_def NAME_MAX_def)

lemma same_name_cstr: "0 \<notin> set n \<Longrightarrow> 0 \<in> set bs \<Longrightarrow> same_name n bs = Some (cstr bs = n)"
  by (induction n bs rule: same_name.induct) (auto simp: cstr_def)

lemma length_dents: "length (dents bs) = length bs div 20"
  by (simp add: dents_def)

lemma nth_dents: "k < length bs div 20 \<Longrightarrow> dents bs ! k = dec_entry (bytes_at (20 * k) 20 bs)"
  by (simp add: dents_def)

lemma dmap_iff:
  assumes "dir_wf es"
  shows "dmap es n = Some t \<longleftrightarrow> (\<exists>k < length es. in_use (es ! k) \<and> cstr (de_name (es ! k)) = n \<and> de_sector (es ! k) = t)"
proof
  assume "dmap es n = Some t"
  then show "\<exists>k < length es. in_use (es ! k) \<and> cstr (de_name (es ! k)) = n \<and> de_sector (es ! k) = t"
    by (auto simp: dmap_def find_Some_iff)
next
  assume "\<exists>k < length es. in_use (es ! k) \<and> cstr (de_name (es ! k)) = n \<and> de_sector (es ! k) = t"
  then obtain k where k: "k < length es" "in_use (es ! k)" "cstr (de_name (es ! k)) = n" "de_sector (es ! k) = t" by blast
  then have "\<not> (in_use (es ! j) \<and> cstr (de_name (es ! j)) = n)" if "j < k" for j
    using assms that unfolding dir_wf_def by (metis less_trans nat_neq_iff)
  then have "List.find (\<lambda>e. in_use e \<and> cstr (de_name e) = n) es = Some (es ! k)" using k unfolding find_Some_iff by blast
  then show "dmap es n = Some t" by (simp add: dmap_def k(4))
qed

lemma dmap_None: "dmap es n = None \<longleftrightarrow> (\<forall>k < length es. in_use (es ! k) \<longrightarrow> cstr (de_name (es ! k)) \<noteq> n)"
  by (auto simp: dmap_def find_None_iff in_set_conv_nth)

lemma dir_wf_unique:
  "dir_wf es \<Longrightarrow> j < length es \<Longrightarrow> k < length es \<Longrightarrow> in_use (es ! j) \<Longrightarrow> in_use (es ! k)
     \<Longrightarrow> cstr (de_name (es ! j)) = cstr (de_name (es ! k)) \<Longrightarrow> j = k"
  unfolding dir_wf_def by blast

lemma dir_wfI:
  assumes "\<And>j. j < length es \<Longrightarrow> in_use (es ! j) \<Longrightarrow> 0 \<in> set (de_name (es ! j))"
    and "\<And>j k. j < length es \<Longrightarrow> k < length es \<Longrightarrow> in_use (es ! j) \<Longrightarrow> in_use (es ! k)
     \<Longrightarrow> cstr (de_name (es ! j)) = cstr (de_name (es ! k)) \<Longrightarrow> j = k"
  shows "dir_wf es"
  using assms unfolding dir_wf_def by (auto simp: in_set_conv_nth)

lemma dir_wf_name: "dir_wf es \<Longrightarrow> j < length es \<Longrightarrow> in_use (es ! j) \<Longrightarrow> 0 \<in> set (de_name (es ! j))"
  unfolding dir_wf_def by simp

text \<open>Filling a free slot with a new name, and freeing a slot.\<close>

lemma dir_wf_add:
  assumes "dir_wf es" "k < length es" "\<not> in_use (es ! k)" "dmap es n = None" "0 \<in> set (de_name e)" "cstr (de_name e) = n" "in_use e"
  shows "dir_wf (es[k := e])"
proof (rule dir_wfI)
  have no: "\<not> in_use (es ! j)" if "j < length es" "cstr (de_name (es ! j)) = n" for j
    using assms(4) that by (auto simp: dmap_None)
  show "0 \<in> set (de_name (es[k := e] ! j))" if "j < length (es[k := e])" "in_use (es[k := e] ! j)" for j
    using that assms(5) dir_wf_name [OF assms(1), of j] by (cases "j = k") simp_all
  show "i = j" if "i < length (es[k := e])" "j < length (es[k := e])" "in_use (es[k := e] ! i)" "in_use (es[k := e] ! j)"
      "cstr (de_name (es[k := e] ! i)) = cstr (de_name (es[k := e] ! j))" for i j
    using that no [of i] no [of j] dir_wf_unique [OF assms(1), of i j] assms(6) by (cases "i = k"; cases "j = k") simp_all
qed

lemma dmap_agree:
  assumes "dir_wf es" "dir_wf es'" "length es' = length es"
    and "\<And>j. (in_use (es' ! j) \<and> cstr (de_name (es' ! j)) = m) = (in_use (es ! j) \<and> cstr (de_name (es ! j)) = m)"
    and "\<And>j. in_use (es ! j) \<Longrightarrow> cstr (de_name (es ! j)) = m \<Longrightarrow> de_sector (es' ! j) = de_sector (es ! j)"
  shows "dmap es' m = dmap es m"
proof -
  have "dmap es' m = Some t \<longleftrightarrow> dmap es m = Some t" for t
    unfolding dmap_iff [OF assms(1)] dmap_iff [OF assms(2)] using assms(3-5) by metis
  then show ?thesis by (metis not_Some_eq)
qed

lemma dmap_add:
  assumes "dir_wf es" "k < length es" "\<not> in_use (es ! k)" "dmap es n = None" "0 \<in> set (de_name e)" "cstr (de_name e) = n" "in_use e"
  shows "dmap (es[k := e]) = (dmap es)(n \<mapsto> de_sector e)"
proof
  fix m
  have wf: "dir_wf (es[k := e])" by (rule dir_wf_add [OF assms])
  show "dmap (es[k := e]) m = ((dmap es)(n \<mapsto> de_sector e)) m"
  proof (cases "m = n")
    case True
    have "dmap (es[k := e]) n = Some (de_sector e)"
      unfolding dmap_iff [OF wf] using assms by (intro exI [of _ k]) simp
    then show ?thesis using True by simp
  next
    case False
    have "dmap (es[k := e]) m = dmap es m"
    proof (rule dmap_agree [OF assms(1) wf])
      fix j
      show "(in_use (es[k := e] ! j) \<and> cstr (de_name (es[k := e] ! j)) = m) = (in_use (es ! j) \<and> cstr (de_name (es ! j)) = m)"
        using False assms by (cases "j = k") auto
      show "de_sector (es[k := e] ! j) = de_sector (es ! j)" if "in_use (es ! j)" "cstr (de_name (es ! j)) = m"
        using that False assms by (cases "j = k") auto
    qed simp
    then show ?thesis using False by simp
  qed
qed

lemma dir_wf_remove:
  assumes "dir_wf es" "\<not> in_use e"
  shows "dir_wf (es[k := e])"
proof (rule dir_wfI)
  show "0 \<in> set (de_name (es[k := e] ! j))" if "j < length (es[k := e])" "in_use (es[k := e] ! j)" for j
    using that assms(2) dir_wf_name [OF assms(1), of j] by (cases "j = k") simp_all
  show "i = j" if "i < length (es[k := e])" "j < length (es[k := e])" "in_use (es[k := e] ! i)" "in_use (es[k := e] ! j)"
      "cstr (de_name (es[k := e] ! i)) = cstr (de_name (es[k := e] ! j))" for i j
    using that dir_wf_unique [OF assms(1), of i j] assms(2) by (cases "i = k"; cases "j = k") simp_all
qed

lemma dmap_remove:
  assumes "dir_wf es" "k < length es" "in_use (es ! k)" "cstr (de_name (es ! k)) = n" "\<not> in_use e"
  shows "dmap (es[k := e]) = (dmap es)(n := None)"
proof
  fix m
  have wf: "dir_wf (es[k := e])" by (rule dir_wf_remove [OF assms(1,5)])
  show "dmap (es[k := e]) m = ((dmap es)(n := None)) m"
  proof (cases "m = n")
    case True
    have "in_use (es[k := e] ! j) \<longrightarrow> cstr (de_name (es[k := e] ! j)) \<noteq> n" if "j < length es" for j
      using dir_wf_unique [OF assms(1) that assms(2) _ assms(3)] assms(2,4,5) by (cases "j = k") auto
    then have "dmap (es[k := e]) n = None" by (simp add: dmap_None)
    then show ?thesis using True by simp
  next
    case False
    have "dmap (es[k := e]) m = dmap es m"
    proof (rule dmap_agree [OF assms(1) wf])
      fix j
      show "(in_use (es[k := e] ! j) \<and> cstr (de_name (es[k := e] ! j)) = m) = (in_use (es ! j) \<and> cstr (de_name (es ! j)) = m)"
        using False assms by (cases "j = k") auto
      show "de_sector (es[k := e] ! j) = de_sector (es ! j)" if "in_use (es ! j)" "cstr (de_name (es ! j)) = m"
        using that False assms by (cases "j = k") auto
    qed simp
    then show ?thesis using False by simp
  qed
qed

lemma dents_splice:
  assumes "length ys = 20" "k < length bs div 20"
  shows "dents (splice_at (20 * k) ys bs) = (dents bs)[k := dec_entry ys]"
proof (rule nth_equalityI)
  have fits: "20 * k + length ys \<le> length bs" using assms by simp
  then have len: "length (splice_at (20 * k) ys bs) = length bs" by simp
  then show "length (dents (splice_at (20 * k) ys bs)) = length ((dents bs)[k := dec_entry ys])" by (simp add: length_dents)
  fix j
  assume "j < length (dents (splice_at (20 * k) ys bs))"
  then have j: "j < length bs div 20" "20 * j + 20 \<le> length bs" using len by (simp_all add: length_dents)
  have "bytes_at (20 * j) 20 (splice_at (20 * k) ys bs) = (if j = k then ys else bytes_at (20 * j) 20 bs)"
  proof (rule nth_equalityI)
    show "length (bytes_at (20 * j) 20 (splice_at (20 * k) ys bs)) = length (if j = k then ys else bytes_at (20 * j) 20 bs)"
      using j(2) assms(1) len by simp
    fix q
    assume "q < length (bytes_at (20 * j) 20 (splice_at (20 * k) ys bs))"
    then have q: "q < 20" by simp
    then have "20 * k \<le> 20 * j + q \<and> 20 * j + q < 20 * k + length ys \<longleftrightarrow> j = k" using assms(1) by linarith
    then show "bytes_at (20 * j) 20 (splice_at (20 * k) ys bs) ! q = (if j = k then ys else bytes_at (20 * j) 20 bs) ! q"
      using q j(2) fits len by (simp add: nth_bytes_at nth_splice_at)
  qed
  then show "dents (splice_at (20 * k) ys bs) ! j = (dents bs)[k := dec_entry ys] ! j"
    using j(1) assms(2) len by (simp add: nth_dents length_dents nth_list_update)
qed

section \<open>The loops over the entries\<close>

text \<open>An open directory whose contents are whole entries, with memory to be had.\<close>

definition dir_at :: "fs \<Rightarrow> nat \<Rightarrow> inode \<Rightarrow> (block_sector_t \<Rightarrow> byte list) \<Rightarrow> bool" where
  "dir_at s i ino c \<longleftrightarrow> fs_holds s c \<and> fs_mallocs s = [] \<and> inodes s i = Some ino \<and> inode_ok s (i_data ino)
     \<and> 20 dvd nat (id_length (i_data ino))"

abbreviation dents_of :: "(block_sector_t \<Rightarrow> byte list) \<Rightarrow> inode \<Rightarrow> dir_entry list" where
  "dents_of c ino \<equiv> dents (file_bytes c (i_data ino))"

lemma dir_at_frame: "dir_at s i ino c \<Longrightarrow> fs_frame s s' \<Longrightarrow> fs_holds s' c' \<Longrightarrow> dir_at s' i ino c'"
  using inode_ok_frame [of s "i_data ino" s' c] fs_frame_simps [of s s'] by (auto simp: dir_at_def)

lemma dents_bytes:
  assumes "dir_at s i ino c" "k < length (dents_of c ino)"
  shows "20 * k + 20 \<le> length (file_bytes c (i_data ino))" "length (bytes_at (20 * k) 20 (file_bytes c (i_data ino))) = 20"
    "dents_of c ino ! k = dec_entry (bytes_at (20 * k) 20 (file_bytes c (i_data ino)))"
  using assms by (simp_all add: length_dents nth_dents)

lemma dir_read:
  assumes "dir_at s i ino c"
  shows "\<exists>s'. inode_read_at s i 20 (int (20 * k)) = Some (s', bytes_at (20 * k) 20 (file_bytes c (i_data ino)))
    \<and> dir_at s' i ino c \<and> fs_frame s s'"
proof -
  obtain s' where s': "inode_read_at s i 20 (int (20 * k)) = Some (s', take 20 (bytes_at (20 * k) 20 (file_bytes c (i_data ino))))"
      "fs_holds s' c" "fs_frame s s'"
    using inode_read_at_holds [of s c i ino "int (20 * k)" 20] assms unfolding dir_at_def nat_int by auto
  then show ?thesis using dir_at_frame [OF assms s'(3,2)] by (simp add: bytes_at_def)
qed

lemma dir_read_end:
  assumes "dir_at s i ino c" "\<not> k < length (dents_of c ino)"
  shows "bytes_at (20 * k) 20 (file_bytes c (i_data ino)) = []"
proof -
  have "20 dvd length (file_bytes c (i_data ino))" using assms(1) by (simp add: dir_at_def)
  then have "length (file_bytes c (i_data ino)) \<le> 20 * k" using assms(2) by (auto simp: length_dents dvd_def)
  then show ?thesis by (rule bytes_at_beyond)
qed

lemma sint_of_nat_less: "n < 2 ^ 31 \<Longrightarrow> sint (of_nat n :: 32 word) = int n"
  using sint_eq_unat [of "of_nat n"] by (simp add: unat_of_nat)

lemma entry_offset:
  assumes "dir_at s i ino c" "k \<le> length (dents_of c ino)"
  shows "sint (of_nat (20 * k) :: 32 word) = int (20 * k)"
proof -
  have "20 * k \<le> length (file_bytes c (i_data ino))" using assms(2) by (simp add: length_dents)
  moreover have "length (file_bytes c (i_data ino)) < 2 ^ 31" using assms(1) by (auto simp: dir_at_def inode_ok_def)
  ultimately have "20 * k < 2 ^ 31" by linarith
  then show ?thesis by (rule sint_of_nat_less)
qed

lemma upt_find_step:
  "k < n \<Longrightarrow> List.find P [k..<n] = (if P k then Some k else List.find P [Suc k..<n])"
  by (simp add: upt_conv_Cons)

lemma lookup_loop_step:
  assumes "inode_read_at s (d_inode dir) 20 (sint w) = Some (s1, data)" "length data = 20" "dec_entry data = e"
    "(if in_use e then same_name name (de_name e) else Some False) = Some hit"
  shows "lookup_loop s dir name w = (if hit then Some (s1, Some (e, w)) else lookup_loop s1 dir name (w + 20))"
  using assms by (subst lookup_loop.simps) simp

lemma lookup_loop_ok:
  assumes "dir_at s (d_inode dir) ino c" "dir_wf (dents_of c ino)" "0 \<notin> set name" "k \<le> length (dents_of c ino)"
  defines "es \<equiv> dents_of c ino"
  shows "\<exists>s'. lookup_loop s dir name (of_nat (20 * k)) = Some (s', map_option (\<lambda>j. (es ! j, of_nat (20 * j)))
      (List.find (\<lambda>j. in_use (es ! j) \<and> cstr (de_name (es ! j)) = name) [k..<length es]))
    \<and> dir_at s' (d_inode dir) ino c \<and> fs_frame s s'"
  using assms(1,4)
proof (induction "length es - k" arbitrary: s k)
  case 0
  obtain s1 where s1: "inode_read_at s (d_inode dir) 20 (int (20 * k)) = Some (s1, [])" "dir_at s1 (d_inode dir) ino c" "fs_frame s s1"
    using dir_read [OF 0(2), of k] dir_read_end [OF 0(2), of k] 0(1) unfolding es_def by auto
  then show ?case
    using 0 entry_offset [OF 0(2,3)] by (subst lookup_loop.simps) (simp add: es_def)
next
  case (Suc n)
  then have k: "k < length es" by simp
  obtain s1 where s1: "inode_read_at s (d_inode dir) 20 (int (20 * k)) = Some (s1, bytes_at (20 * k) 20 (file_bytes c (i_data ino)))"
      "dir_at s1 (d_inode dir) ino c" "fs_frame s s1"
    using dir_read [OF Suc(3), of k] by blast
  let ?e = "es ! k"
  note e = dents_bytes [OF Suc(3) k [unfolded es_def]]
  have hit: "(if in_use ?e then same_name name (de_name ?e) else Some False) = Some (in_use ?e \<and> cstr (de_name ?e) = name)"
    using same_name_cstr [OF assms(3)] dir_wf_name [OF assms(2) k [unfolded es_def]] by (simp add: es_def)
  have step: "lookup_loop s dir name (of_nat (20 * k)) = (if in_use ?e \<and> cstr (de_name ?e) = name then Some (s1, Some (?e, of_nat (20 * k)))
      else lookup_loop s1 dir name (of_nat (20 * Suc k)))"
    using lookup_loop_step [OF _ e(2) e(3) [folded es_def, symmetric] hit, of s dir "of_nat (20 * k)" s1] s1(1)
      entry_offset [OF Suc(3,4)] by (simp add: add.commute)
  show ?case
  proof (cases "in_use ?e \<and> cstr (de_name ?e) = name")
    case True
    then show ?thesis using step s1 k by (simp add: upt_find_step)
  next
    case False
    have "\<exists>s'. lookup_loop s1 dir name (of_nat (20 * Suc k)) = Some (s', map_option (\<lambda>j. (es ! j, of_nat (20 * j)))
          (List.find (\<lambda>j. in_use (es ! j) \<and> cstr (de_name (es ! j)) = name) [Suc k..<length es]))
        \<and> dir_at s' (d_inode dir) ino c \<and> fs_frame s1 s'"
      by (rule Suc(1) [OF _ s1(2)]) (use Suc(2) k in \<open>simp_all add: es_def\<close>)
    then show ?thesis using step False k fs_frame_trans [OF s1(3)] by (auto simp: upt_find_step simp del: of_nat_Suc mult_Suc_right)
  qed
qed

lemma free_slot_ok:
  assumes "dir_at s (d_inode dir) ino c" "length (de_name e) = 15" "k \<le> length (dents_of c ino)"
  defines "es \<equiv> dents_of c ino"
  shows "\<exists>s' e' j. free_slot s dir e (int (20 * k)) = Some (s', e', int (20 * j)) \<and> dir_at s' (d_inode dir) ino c \<and> fs_frame s s'
    \<and> length (de_name e') = 15 \<and> k \<le> j \<and> j \<le> length es \<and> (\<forall>i. k \<le> i \<longrightarrow> i < j \<longrightarrow> in_use (es ! i)) \<and> (j < length es \<longrightarrow> \<not> in_use (es ! j))"
  using assms(1-3)
proof (induction "length es - k" arbitrary: s e k)
  case 0
  then have end_k: "k = length es" by (simp add: es_def)
  obtain s1 where s1: "inode_read_at s (d_inode dir) 20 (int (20 * k)) = Some (s1, [])" "dir_at s1 (d_inode dir) ino c" "fs_frame s s1"
    using dir_read [OF 0(2), of k] dir_read_end [OF 0(2), of k] end_k unfolding es_def by auto
  have "free_slot s dir e (int (20 * k)) = Some (s1, e, int (20 * k))"
    using s1(1) dec_enc_entry [OF 0(3)] by (subst free_slot.simps) simp
  then show ?case using s1 0(3) end_k by (intro exI [of _ s1] exI [of _ e] exI [of _ k]) simp
next
  case (Suc n)
  then have k: "k < length es" by simp
  note e = dents_bytes [OF Suc(3) k [unfolded es_def]]
  obtain s1 where s1: "inode_read_at s (d_inode dir) 20 (int (20 * k)) = Some (s1, bytes_at (20 * k) 20 (file_bytes c (i_data ino)))"
      "dir_at s1 (d_inode dir) ino c" "fs_frame s s1"
    using dir_read [OF Suc(3), of k] by blast
  have over: "splice_at 0 (bytes_at (20 * k) 20 (file_bytes c (i_data ino))) (enc_entry e) = bytes_at (20 * k) 20 (file_bytes c (i_data ino))"
    using e(2) length_enc_entry [OF Suc(4)] by (simp add: splice_at_def del: length_bytes_at)
  have step: "free_slot s dir e (int (20 * k)) = (if \<not> in_use (es ! k) then Some (s1, es ! k, int (20 * k))
      else free_slot s1 dir (es ! k) (int (20 * Suc k)))"
    using s1(1) e(2) over e(3) [folded es_def] by (subst free_slot.simps) (simp add: algebra_simps del: length_bytes_at)
  have name: "length (de_name (es ! k)) = 15" unfolding es_def e(3) by (rule length_dec_name [OF e(2)])
  show ?case
  proof (cases "in_use (es ! k)")
    case False
    then show ?thesis using step s1 name k by (intro exI [of _ s1] exI [of _ "es ! k"] exI [of _ k]) simp
  next
    case True
    have "\<exists>s' e' j. free_slot s1 dir (es ! k) (int (20 * Suc k)) = Some (s', e', int (20 * j)) \<and> dir_at s' (d_inode dir) ino c \<and> fs_frame s1 s'
      \<and> length (de_name e') = 15 \<and> Suc k \<le> j \<and> j \<le> length es \<and> (\<forall>i. Suc k \<le> i \<longrightarrow> i < j \<longrightarrow> in_use (es ! i)) \<and> (j < length es \<longrightarrow> \<not> in_use (es ! j))"
      by (rule Suc(1) [OF _ s1(2) name]) (use Suc(2) k in \<open>simp_all add: es_def\<close>)
    then obtain s' e' j where r: "free_slot s1 dir (es ! k) (int (20 * Suc k)) = Some (s', e', int (20 * j))"
        "dir_at s' (d_inode dir) ino c" "fs_frame s1 s'" "length (de_name e') = 15" "Suc k \<le> j" "j \<le> length es"
        "\<forall>i. Suc k \<le> i \<longrightarrow> i < j \<longrightarrow> in_use (es ! i)" "j < length es \<longrightarrow> \<not> in_use (es ! j)"
      by blast
    have "in_use (es ! i)" if "k \<le> i" "i < j" for i using r(7) True that by (cases "i = k") auto
    moreover have "free_slot s dir e (int (20 * k)) = Some (s', e', int (20 * j))" unfolding step using True r(1) by simp
    ultimately show ?thesis using r fs_frame_trans [OF s1(3) r(3)] by (intro exI [of _ s'] exI [of _ e'] exI [of _ j]) auto
  qed
qed

section \<open>The operations on the map\<close>

lemma lookup_ok:
  assumes "dir_at s (d_inode dir) ino c" "dir_wf (dents_of c ino)" "0 \<notin> set name"
  shows "\<exists>s' r. lookup s dir name = Some (s', r) \<and> dir_at s' (d_inode dir) ino c \<and> fs_frame s s'
    \<and> (case r of None \<Rightarrow> dmap (dents_of c ino) name = None
       | Some (e, ofs) \<Rightarrow> \<exists>j < length (dents_of c ino). e = dents_of c ino ! j \<and> sint ofs = int (20 * j) \<and> in_use e
           \<and> cstr (de_name e) = name \<and> dmap (dents_of c ino) name = Some (de_sector e))"
proof -
  let ?es = "dents_of c ino" let ?P = "\<lambda>j. in_use (?es ! j) \<and> cstr (de_name (?es ! j)) = name"
  obtain s' where s': "lookup s dir name = Some (s', map_option (\<lambda>j. (?es ! j, of_nat (20 * j))) (List.find ?P [0..<length ?es]))"
      "dir_at s' (d_inode dir) ino c" "fs_frame s s'"
    using lookup_loop_ok [OF assms, of 0] by (auto simp: lookup_def)
  show ?thesis
  proof (cases "List.find ?P [0..<length ?es]")
    case None
    then have "dmap ?es name = None" by (auto simp: find_None_iff dmap_None)
    then show ?thesis using s' None by (intro exI [of _ s'] exI [of _ None]) simp
  next
    case (Some j)
    then have j: "j < length ?es" "?P j" by (auto simp: find_Some_iff)
    then have "dmap ?es name = Some (de_sector (?es ! j))" unfolding dmap_iff [OF assms(2)] by blast
    then show ?thesis
      using s' Some j entry_offset [OF assms(1), of j] by (intro exI [of _ s'] exI [of _ "Some (?es ! j, of_nat (20 * j))"]) auto
  qed
qed

lemma dir_write:
  assumes "dir_at s i ino c" "deny_write_cnt ino = 0" "k < length (dents_of c ino)" "length (de_name e) = 15"
  shows "\<exists>s' c'. inode_write_at s i (enc_entry e) 20 (int (20 * k)) = Some (s', 20) \<and> dir_at s' i ino c' \<and> fs_frame s s'
    \<and> dents_of c' ino = (dents_of c ino)[k := e] \<and> (\<forall>t. t \<notin> data_sectors (i_data ino) \<longrightarrow> c' t = c t)"
proof -
  have fits: "20 * k + 20 \<le> nat (id_length (i_data ino))" using dents_bytes(1) [OF assms(1,3)] by simp
  obtain s' c' n where w: "inode_write_at s i (enc_entry e) 20 (int (20 * k)) = Some (s', int n)" "fs_holds s' c'" "fs_frame s s'"
      "file_bytes c' (i_data ino) = splice_at (20 * k) (take n (enc_entry e)) (file_bytes c (i_data ino))"
      "\<forall>t. t \<notin> data_sectors (i_data ino) \<longrightarrow> c' t = c t" "n = min (nat 20) (nat (id_length (i_data ino)) - 20 * k)"
    using inode_write_at_holds [of s c i ino "int (20 * k)" 20 "enc_entry e"] assms(1,2) length_enc_entry [OF assms(4)]
    unfolding dir_at_def nat_int by auto
  have n: "n = 20" using w(6) fits by simp
  then have "dents_of c' ino = (dents_of c ino)[k := e]"
    using w(4) dents_splice [OF length_enc_entry [OF assms(4)], of k "file_bytes c (i_data ino)"] assms(3)
      dec_enc_entry [OF assms(4)] length_enc_entry [OF assms(4)] by (simp add: length_dents)
  then show ?thesis using w(1-3,5) n dir_at_frame [OF assms(1) w(3,2)] by (intro exI [of _ s'] exI [of _ c']) simp
qed

lemma dir_write_end:
  assumes "dir_at s i ino c" "deny_write_cnt ino = 0" "length (de_name e) = 15" "k = length (dents_of c ino)"
  shows "\<exists>s' c'. inode_write_at s i (enc_entry e) 20 (int (20 * k)) = Some (s', 0) \<and> dir_at s' i ino c' \<and> fs_frame s s'
    \<and> dents_of c' ino = dents_of c ino \<and> (\<forall>t. t \<notin> data_sectors (i_data ino) \<longrightarrow> c' t = c t)"
proof -
  have "20 dvd nat (id_length (i_data ino))" using assms(1) by (simp add: dir_at_def)
  then have past: "nat (id_length (i_data ino)) = 20 * k" using assms(4) by (simp add: length_dents)
  obtain s' c' n where w: "inode_write_at s i (enc_entry e) 20 (int (20 * k)) = Some (s', int n)" "fs_holds s' c'" "fs_frame s s'"
      "file_bytes c' (i_data ino) = splice_at (20 * k) (take n (enc_entry e)) (file_bytes c (i_data ino))"
      "\<forall>t. t \<notin> data_sectors (i_data ino) \<longrightarrow> c' t = c t" "n = min (nat 20) (nat (id_length (i_data ino)) - 20 * k)"
    using inode_write_at_holds [of s c i ino "int (20 * k)" 20 "enc_entry e"] assms(1,2) length_enc_entry [OF assms(3)]
    unfolding dir_at_def nat_int by auto
  then have "n = 0" "dents_of c' ino = dents_of c ino" using past by simp_all
  then show ?thesis using w(1-3,5) dir_at_frame [OF assms(1) w(3,2)] by (intro exI [of _ s'] exI [of _ c']) simp
qed

lemma strlcpy_terminated: "0 < length old \<Longrightarrow> 0 \<in> set (strlcpy_field n old)"
  by (simp add: strlcpy_field_def Let_def)

text \<open>The last part of \<^verbatim>\<open>dir_add\<close>: the first free slot is filled, if there is one.\<close>

lemma dir_fill:
  assumes "dir_at s (d_inode dir) ino c" "deny_write_cnt ino = 0" "0 \<notin> set name" "length (de_name e0) = 15" "length name \<le> 14"
  defines "es \<equiv> dents_of c ino"
  shows "\<exists>s' c' j e. do {
        (s, e, ofs) \<leftarrow> free_slot s dir e0 0;
        (s, n) \<leftarrow> inode_write_at s (d_inode dir)
          (enc_entry (e\<lparr>in_use := True, de_name := strlcpy_field name (de_name e), de_sector := sector\<rparr>)) 20 ofs;
        Some (s, n = 20)
      } = Some (s', \<exists>e \<in> set es. \<not> in_use e)
    \<and> dir_at s' (d_inode dir) ino c' \<and> fs_frame s s' \<and> (\<forall>t. t \<notin> data_sectors (i_data ino) \<longrightarrow> c' t = c t)
    \<and> dents_of c' ino = es[j := e] \<and> (j < length es \<longleftrightarrow> (\<exists>e \<in> set es. \<not> in_use e)) \<and> (j < length es \<longrightarrow> \<not> in_use (es ! j))
    \<and> 0 \<in> set (de_name e) \<and> cstr (de_name e) = name \<and> in_use e \<and> de_sector e = sector"
proof -
  obtain s2 e j where s2: "free_slot s dir e0 0 = Some (s2, e, int (20 * j))" "dir_at s2 (d_inode dir) ino c" "fs_frame s s2"
      "length (de_name e) = 15" "j \<le> length es" "\<forall>i. 0 \<le> i \<longrightarrow> i < j \<longrightarrow> in_use (es ! i)" "j < length es \<longrightarrow> \<not> in_use (es ! j)"
    using free_slot_ok [OF assms(1,4), of 0] by (auto simp: es_def)
  define e' where "e' = e\<lparr>in_use := True, de_name := strlcpy_field name (de_name e), de_sector := sector\<rparr>"
  have len: "length (de_name e') = 15" and e': "0 \<in> set (de_name e')" "cstr (de_name e') = name" "in_use e'" "de_sector e' = sector"
    using s2(4) assms(3,5) strlcpy_terminated [of "de_name e" name] cstr_strlcpy [of name "de_name e"] by (simp_all add: e'_def)
  have free: "j < length es \<longleftrightarrow> (\<exists>e \<in> set es. \<not> in_use e)"
    using s2(5-7) by (metis in_set_conv_nth le_neq_implies_less le0)
  obtain s3 c' where s3: "inode_write_at s2 (d_inode dir) (enc_entry e') 20 (int (20 * j)) = Some (s3, if j < length es then 20 else 0)"
      "dir_at s3 (d_inode dir) ino c'" "fs_frame s2 s3" "dents_of c' ino = es[j := e']" "\<forall>t. t \<notin> data_sectors (i_data ino) \<longrightarrow> c' t = c t"
  proof (cases "j < length es")
    case True
    then show ?thesis using dir_write [OF s2(2) assms(2) True [unfolded es_def] len] that by (auto simp: es_def)
  next
    case False
    then have "j = length es" using s2(5) by simp
    then show ?thesis using dir_write_end [OF s2(2) assms(2) len, of j] that False by (auto simp: es_def list_update_beyond simp del: length_list_update)
  qed
  then show ?thesis
    using s2(1,7) fs_frame_trans [OF s2(3) s3(3)] free e' by (intro exI [of _ s3] exI [of _ c'] exI [of _ j] exI [of _ e']) (auto simp: e'_def)
qed

lemma dir_add_new:
  assumes "name \<noteq> []" "length name \<le> 14" "lookup s dir name = Some (s1, None)"
  shows "dir_add e0 s dir name sector = do {
        (s, e, ofs) \<leftarrow> free_slot s1 dir e0 0;
        (s, n) \<leftarrow> inode_write_at s (d_inode dir)
          (enc_entry (e\<lparr>in_use := True, de_name := strlcpy_field name (de_name e), de_sector := sector\<rparr>)) 20 ofs;
        Some (s, n = 20)
      }"
  using assms by (simp add: dir_add_def NAME_MAX_def)

lemma dir_add_ok:
  assumes "dir_at s (d_inode dir) ino c" "dir_wf (dents_of c ino)" "deny_write_cnt ino = 0" "0 \<notin> set name" "length (de_name e0) = 15"
  shows "\<exists>s' ok c'. dir_add e0 s dir name sector = Some (s', ok) \<and> dir_at s' (d_inode dir) ino c' \<and> fs_frame s s'
    \<and> dir_wf (dents_of c' ino) \<and> (\<forall>t. t \<notin> data_sectors (i_data ino) \<longrightarrow> c' t = c t)
    \<and> ok = (name \<noteq> [] \<and> length name \<le> 14 \<and> dmap (dents_of c ino) name = None \<and> (\<exists>e \<in> set (dents_of c ino). \<not> in_use e))
    \<and> dmap (dents_of c' ino) = (if ok then (dmap (dents_of c ino))(name \<mapsto> sector) else dmap (dents_of c ino))"
proof (cases "name = [] \<or> length name > 14")
  case True
  then show ?thesis
    using assms(1,2) by (intro exI [of _ s] exI [of _ False] exI [of _ c]) (auto simp: dir_add_def NAME_MAX_def)
next
  case valid: False
  let ?es = "dents_of c ino"
  obtain s1 r where s1: "lookup s dir name = Some (s1, r)" "dir_at s1 (d_inode dir) ino c" "fs_frame s s1"
      "case r of None \<Rightarrow> dmap ?es name = None | Some (e, ofs) \<Rightarrow> \<exists>j < length ?es. e = ?es ! j \<and> sint ofs = int (20 * j) \<and> in_use e
           \<and> cstr (de_name e) = name \<and> dmap ?es name = Some (de_sector e)"
    using lookup_ok [OF assms(1,2,4)] by blast
  show ?thesis
  proof (cases r)
    case (Some p)
    then show ?thesis
      using s1 valid assms(2) by (intro exI [of _ s1] exI [of _ False] exI [of _ c]) (auto simp: dir_add_def NAME_MAX_def)
  next
    case None
    then have fresh: "dmap ?es name = None" using s1(4) by simp
    have run: "name \<noteq> []" "length name \<le> 14" "lookup s dir name = Some (s1, None)" using valid None s1(1) by auto
    obtain s' c' j e where w: "dir_add e0 s dir name sector = Some (s', \<exists>e \<in> set ?es. \<not> in_use e)"
        "dir_at s' (d_inode dir) ino c'" "fs_frame s1 s'" "\<forall>t. t \<notin> data_sectors (i_data ino) \<longrightarrow> c' t = c t"
        "dents_of c' ino = ?es[j := e]" "j < length ?es \<longleftrightarrow> (\<exists>e \<in> set ?es. \<not> in_use e)" "j < length ?es \<longrightarrow> \<not> in_use (?es ! j)"
        and e: "0 \<in> set (de_name e)" "cstr (de_name e) = name" "in_use e" "de_sector e = sector"
      using dir_fill [OF s1(2) assms(3-5) run(2), of sector] unfolding dir_add_new [OF run] by blast
    have "dir_wf (?es[j := e]) \<and> dmap (?es[j := e]) = (if j < length ?es then (dmap ?es)(name \<mapsto> sector) else dmap ?es)"
      using dir_wf_add [OF assms(2) _ _ fresh e(1-3), of j] dmap_add [OF assms(2) _ _ fresh e(1-3), of j] w(7) e(4) assms(2)
      by (cases "j < length ?es") (simp_all add: list_update_beyond)
    then show ?thesis
      using w fs_frame_trans [OF s1(3) w(3)] run fresh
      by (intro exI [of _ s'] exI [of _ "\<exists>e \<in> set ?es. \<not> in_use e"] exI [of _ c']) simp
  qed
qed

lemma table_ok_frame: "table_ok s \<Longrightarrow> fs_frame s s' \<Longrightarrow> table_ok s'"
  by (simp add: table_ok_def refs_def denials_def fs_frame_def)

lemma dir_at_same_dev:
  assumes "dir_at s i ino c" "same_dev s s'" "inodes s' i = inodes s i"
  shows "dir_at s' i ino c"
  using assms same_dev_holds [OF assms(2), of c] by (auto simp: dir_at_def same_dev_def inode_ok_def fs_size_def)

text \<open>Marking an inode that has another opener as removed, and giving up one opener of it.\<close>

lemma mark_and_close:
  assumes ok: "table_ok s" and f: "inodes s j = Some f" and cnt: "int (refs s j) < open_cnt f" "1 < open_cnt f"
  shows "\<exists>s1 s2. inode_remove s j = Some s1 \<and> inode_close s1 (Some j) = Some s2 \<and> table_ok s2 \<and> same_dev s s2 \<and> files s2 = files s
    \<and> inodes s2 = (inodes s)(j \<mapsto> f\<lparr>open_cnt := open_cnt f - 1, removed := True\<rparr>)"
proof -
  let ?g = "\<lambda>ino :: inode. ino\<lparr>removed := True\<rparr>"
  obtain s1 where s1: "upd_inode s j ?g = Some s1" using f by (simp add: upd_inode_def)
  have t1: "table_ok s1" "inodes s1 = (inodes s)(j \<mapsto> ?g f)"
    by (rule table_ok_upd_inode [OF ok f _ _ _ _ s1]; use table_ok_inode [OF ok f] in simp)+
  have dev: "same_dev s s1" and fl: "files s1 = files s" using s1 f by (auto simp: upd_inode_def same_dev_def)
  have "denials s1 j \<le> refs s1 j" by (rule denials_le_refs [OF table_okD(5) [OF t1(1)]])
  moreover have "inodes s1 j = Some (?g f)" using t1(2) by simp
  ultimately obtain s2 where s2: "inode_close s1 (Some j) = Some s2" "table_ok s2" "same_dev s1 s2" "files s2 = files s1"
      "inodes s2 = (inodes s1)(j \<mapsto> (?g f)\<lparr>open_cnt := open_cnt (?g f) - 1\<rparr>)"
    using inode_close_shared [OF t1(1), of j "?g f"] cnt refs_only [OF fl] by auto
  then show ?thesis using s1 t1 dev fl
    by (intro exI [of _ s1] exI [of _ s2]) (auto simp: inode_remove_def same_dev_def)
qed

lemma inode_open_shared:
  assumes "table_ok s" "fs_holds s c" "t < fs_size s" "inodes s j = Some f" "i_sector f = t"
  shows "\<exists>s'. inode_open s t = Some (s', Some j) \<and> table_ok s' \<and> files s' = files s \<and> same_dev s s'
    \<and> inodes s' = (inodes s)(j \<mapsto> f\<lparr>open_cnt := open_cnt f + 1\<rparr>)"
proof -
  have "\<not> (\<forall>i ino. inodes s i = Some ino \<longrightarrow> i_sector ino \<noteq> t)" using assms(4,5) by blast
  then obtain i ino s' where s': "inodes s i = Some ino" "i_sector ino = t" "inode_open s t = Some (s', Some i)" "table_ok s'"
      "inodes s' = (inodes s)(i \<mapsto> ino\<lparr>open_cnt := open_cnt ino + 1\<rparr>)" "files s' = files s" "same_dev s s'"
    using inode_open_ok [OF assms(1-3)] by blast
  moreover have "i = j" by (rule table_ok_sector [OF assms(1) s'(1) assms(4)]) (use s'(2) assms(5) in simp)
  ultimately show ?thesis using assms(4) by auto
qed

lemma dir_remove_open_ok:
  assumes "table_ok s" "dir_at s (d_inode dir) ino c" "dir_wf (dents_of c ino)" "deny_write_cnt ino = 0" "0 \<notin> set name"
    and "dmap (dents_of c ino) name = Some t" "t < fs_size s" "inodes s j = Some f" "i_sector f = t" "t \<noteq> i_sector ino"
  shows "\<exists>s' c'. dir_remove s dir name = Some (s', True) \<and> dir_at s' (d_inode dir) ino c' \<and> dir_wf (dents_of c' ino) \<and> table_ok s'
    \<and> dmap (dents_of c' ino) = (dmap (dents_of c ino))(name := None) \<and> (\<forall>t. t \<notin> data_sectors (i_data ino) \<longrightarrow> c' t = c t)
    \<and> inodes s' = (inodes s)(j \<mapsto> f\<lparr>removed := True\<rparr>) \<and> files s' = files s \<and> free_map s' = free_map s"
proof -
  let ?es = "dents_of c ino"
  obtain s1 e ofs k where s1: "lookup s dir name = Some (s1, Some (e, ofs))" "dir_at s1 (d_inode dir) ino c" "fs_frame s s1"
      and k: "k < length ?es" "e = ?es ! k" "sint ofs = int (20 * k)" "in_use e" "cstr (de_name e) = name" "de_sector e = t"
    using lookup_ok [OF assms(2,3,5)] assms(6) by (fastforce split: option.splits)
  have ok1: "table_ok s1" by (rule table_ok_frame [OF assms(1) s1(3)])
  have ino1: "inodes s1 j = Some f" "inodes s1 (d_inode dir) = Some ino"
    using fs_frame_simps(5) [OF s1(3)] assms(8) s1(2) by (simp_all add: dir_at_def)
  then have ne: "j \<noteq> d_inode dir" using assms(9,10) by auto
  have size1: "t < fs_size s1" using fs_frame_size [OF s1(3), of c] assms(2,7) by (simp add: dir_at_def)
  obtain s2 where s2: "inode_open s1 t = Some (s2, Some j)" "table_ok s2" "files s2 = files s1" "same_dev s1 s2"
      "inodes s2 = (inodes s1)(j \<mapsto> f\<lparr>open_cnt := open_cnt f + 1\<rparr>)"
    using inode_open_shared [OF ok1 _ size1 ino1(1) assms(9)] s1(2) unfolding dir_at_def by blast
  have d2: "dir_at s2 (d_inode dir) ino c" by (rule dir_at_same_dev [OF s1(2) s2(4)]) (simp add: s2(5) ne [symmetric])
  have len: "length (de_name (e\<lparr>in_use := False\<rparr>)) = 15" using length_dec_name [OF dents_bytes(2) [OF s1(2) k(1)]] k(2) dents_bytes(3) [OF s1(2) k(1)] by simp
  obtain s3 c' where s3: "inode_write_at s2 (d_inode dir) (enc_entry (e\<lparr>in_use := False\<rparr>)) 20 (int (20 * k)) = Some (s3, 20)"
      "dir_at s3 (d_inode dir) ino c'" "fs_frame s2 s3" "dents_of c' ino = ?es[k := e\<lparr>in_use := False\<rparr>]"
      "\<forall>t. t \<notin> data_sectors (i_data ino) \<longrightarrow> c' t = c t"
    using dir_write [OF d2 assms(4) k(1) len] by blast
  have ok3: "table_ok s3" by (rule table_ok_frame [OF s2(2) s3(3)])
  have f3: "inodes s3 j = Some (f\<lparr>open_cnt := open_cnt f + 1\<rparr>)" using fs_frame_simps(5) [OF s3(3)] s2(5) by simp
  have r: "refs s3 j = refs s1 j" using refs_only [of s3 s1] fs_frame_simps(6) [OF s3(3)] s2(3) by simp
  have b: "0 < open_cnt f" "int (refs s1 j) \<le> open_cnt f" using table_ok_inode [OF ok1 ino1(1)] by simp_all
  then have cnt: "int (refs s3 j) < open_cnt (f\<lparr>open_cnt := open_cnt f + 1\<rparr>)" "1 < open_cnt (f\<lparr>open_cnt := open_cnt f + 1\<rparr>)" using r by simp_all
  obtain s4 s5 where s5: "inode_remove s3 j = Some s4" "inode_close s4 (Some j) = Some s5" "table_ok s5" "same_dev s3 s5" "files s5 = files s3"
      "inodes s5 = (inodes s3)(j \<mapsto> f\<lparr>removed := True\<rparr>)"
    using mark_and_close [OF ok3 f3 cnt] by auto
  have "dir_remove s dir name = Some (s5, True)"
    using s1(1) s2(1) s3(1) s5(1,2) k(3,6) by (simp add: dir_remove_def)
  moreover have "dir_at s5 (d_inode dir) ino c'" by (rule dir_at_same_dev [OF s3(2) s5(4)]) (simp add: s5(6) ne [symmetric])
  moreover have "inodes s5 = (inodes s)(j \<mapsto> f\<lparr>removed := True\<rparr>)" "files s5 = files s" "free_map s5 = free_map s"
    using s5(4-6) fs_frame_simps [OF s3(3)] fs_frame_simps [OF s1(3)] s2(3-5) by (simp_all add: same_dev_def)
  moreover have "dir_wf (dents_of c' ino)" "dmap (dents_of c' ino) = (dmap ?es)(name := None)"
    unfolding s3(4) using k(2,4,5) dir_wf_remove [OF assms(3), of "e\<lparr>in_use := False\<rparr>" k] dmap_remove [OF assms(3) k(1), of name] by simp_all
  ultimately show ?thesis using s3(5) s5(3) by (intro exI [of _ s5] exI [of _ c']) simp
qed

text \<open>A name that is not there: nothing changes.\<close>

lemma dir_remove_absent_ok:
  assumes "dir_at s (d_inode dir) ino c" "dir_wf (dents_of c ino)" "0 \<notin> set name" "dmap (dents_of c ino) name = None"
  shows "\<exists>s'. dir_remove s dir name = Some (s', False) \<and> dir_at s' (d_inode dir) ino c \<and> fs_frame s s'"
proof -
  obtain s' where "lookup s dir name = Some (s', None)" "dir_at s' (d_inode dir) ino c" "fs_frame s s'"
    using lookup_ok [OF assms(1-3)] assms(4) by (fastforce split: option.splits)
  then show ?thesis by (simp add: dir_remove_def inode_close_def)
qed

text \<open>The name of a file that nobody has open: the entry is cleared and the sectors of the file are released.\<close>

lemma dir_remove_closed_ok:
  assumes "table_ok s" "dir_at s (d_inode dir) ino c" "dir_wf (dents_of c ino)" "deny_write_cnt ino = 0" "0 \<notin> set name"
    and "dmap (dents_of c ino) name = Some t" "t < fs_size s" and none: "\<forall>i f. inodes s i = Some f \<longrightarrow> i_sector f \<noteq> t"
    and fm: "fm_ok s d" "data_sectors d \<inter> data_sectors (i_data ino) = {}"
    and used: "run_at (bits_of (free_map s)) True (unat t) 1"
      "run_at (bits_of (free_map s)) True (unat (id_start (dec_inode (c t)))) (unat (bytes_to_sectors (id_length (dec_inode (c t)))))"
      "unat t \<notin> slots (id_start (dec_inode (c t))) (bytes_to_sectors (id_length (dec_inode (c t))))"
  shows "\<exists>s' c'. dir_remove s dir name = Some (s', True) \<and> dir_at s' (d_inode dir) ino c' \<and> dir_wf (dents_of c' ino) \<and> table_ok s'
    \<and> dmap (dents_of c' ino) = (dmap (dents_of c ino))(name := None)
    \<and> (\<forall>u. u \<notin> data_sectors (i_data ino) \<longrightarrow> u \<notin> data_sectors d \<longrightarrow> c' u = c u)
    \<and> inodes s' = inodes s \<and> files s' = files s \<and> fm_ok s' d
    \<and> bit_used (free_map s') = bit_used (free_map s) - {unat t}
        - slots (id_start (dec_inode (c t))) (bytes_to_sectors (id_length (dec_inode (c t))))"
proof -
  let ?es = "dents_of c ino"
  let ?f = "\<lparr>i_sector = t, open_cnt = 1, removed = False, deny_write_cnt = 0, i_data = dec_inode (c t)\<rparr>"
  obtain s1 e ofs k where s1: "lookup s dir name = Some (s1, Some (e, ofs))" "dir_at s1 (d_inode dir) ino c" "fs_frame s s1"
      and k: "k < length ?es" "e = ?es ! k" "sint ofs = int (20 * k)" "in_use e" "cstr (de_name e) = name" "de_sector e = t"
    using lookup_ok [OF assms(2,3,5)] assms(6) by (fastforce split: option.splits)
  note fr1 = fs_frame_simps [OF s1(3)]
  have d1: "fs_holds s1 c" "fs_mallocs s1 = []" "inodes s1 (d_inode dir) = Some ino" using s1(2) by (simp_all add: dir_at_def)
  have h: "fs_holds s c" using assms(2) by (simp add: dir_at_def)
  have ok1: "table_ok s1" by (rule table_ok_frame [OF assms(1) s1(3)])
  have size1: "t < fs_size s1" using fs_frame_size [OF s1(3) h] assms(7) by simp
  let ?i = "fs_next s1"
  let ?s2 = "s1\<lparr>fs_next := ?i + 1, open_inodes := ?i # open_inodes s1, inodes := (inodes s1)(?i \<mapsto> ?f)\<rparr>"
  obtain s2 where s2: "inode_open s1 t = Some (s2, Some ?i)" "table_ok s2" "fs_holds s2 c" "fs_frame ?s2 s2"
    using inode_open_new [OF ok1 d1(1) size1 d1(2)] none fr1(5) by auto
  note fr2 = fs_frame_simps [OF s2(4)]
  have fresh: "inodes s1 ?i = None" using table_okD(3) [OF ok1, of ?i] by (cases "inodes s1 ?i") auto
  have ne: "?i \<noteq> d_inode dir" using fresh d1(3) by auto
  have "dir_at ?s2 (d_inode dir) ino c"
    using s1(2) ne fs_holds_blocks [OF d1(1), of ?s2] by (auto simp: dir_at_def inode_ok_def fs_size_def)
  then have d2: "dir_at s2 (d_inode dir) ino c" by (rule dir_at_frame [OF _ s2(4,3)])
  have len: "length (de_name (e\<lparr>in_use := False\<rparr>)) = 15"
    using length_dec_name [OF dents_bytes(2) [OF s1(2) k(1)]] k(2) dents_bytes(3) [OF s1(2) k(1)] by simp
  obtain s3 c3 where s3: "inode_write_at s2 (d_inode dir) (enc_entry (e\<lparr>in_use := False\<rparr>)) 20 (int (20 * k)) = Some (s3, 20)"
      "dir_at s3 (d_inode dir) ino c3" "fs_frame s2 s3" "dents_of c3 ino = ?es[k := e\<lparr>in_use := False\<rparr>]"
      "\<forall>t. t \<notin> data_sectors (i_data ino) \<longrightarrow> c3 t = c t"
    using dir_write [OF d2 assms(4) k(1) len] by blast
  note fr3 = fs_frame_simps [OF s3(3)]
  let ?s4 = "s3\<lparr>inodes := (inodes s3)(?i \<mapsto> ?f\<lparr>removed := True\<rparr>)\<rparr>"
  have i3: "inodes s3 ?i = Some ?f" using fr3(5) fr2(5) by simp
  have rm: "inode_remove s3 ?i = Some ?s4" using i3 by (simp add: inode_remove_def upd_inode_def)
  have ok4: "table_ok ?s4"
    by (rule table_ok_upd_inode(1) [OF table_ok_frame [OF s2(2) s3(3)] i3, of "\<lambda>ino. ino\<lparr>removed := True\<rparr>"])
      (use table_ok_inode [OF table_ok_frame [OF s2(2) s3(3)] i3] rm in \<open>simp_all add: inode_remove_def\<close>)
  have files4: "files ?s4 = files s" "free_map ?s4 = free_map s" "free_map_file ?s4 = free_map_file s"
    using fr1 fr2 fr3 by simp_all
  have noref: "f_inode fl \<noteq> ?i" if "files s f = Some fl" for f fl
    using table_okD(7) [OF ok1, of f fl] that fr1(6) fresh by auto
  then have "{f. \<exists>fl. files ?s4 f = Some fl \<and> f_inode fl = ?i} = {}" using files4(1) by auto
  then have refs4: "refs ?s4 ?i = 0" unfolding refs_def by (simp only: card.empty)
  have fm2: "fm_ok ?s2 d"
    by (rule fm_ok_inodes [OF fm_ok_frame [OF fm(1) s1(3) h], of ?i]) (use noref fr1(3,6) in auto)
  have fm3: "fm_ok s3 d"
    by (rule fm_ok_frame [OF fm_ok_frame [OF fm2 s2(4) fs_holds_blocks [OF d1(1)]] s3(3) s2(3)]) simp_all
  have fm4: "fm_ok ?s4 d" by (rule fm_ok_inodes [OF fm3, of ?i]) (use noref fr1 fr2 fr3 in auto)
  have h4: "fs_holds ?s4 c3" using fs_holds_blocks [of s3 c3 ?s4] s3(2) by (simp add: dir_at_def)
  obtain s5 c5 where s5: "inode_close ?s4 (Some ?i) = Some s5" "fs_holds s5 c5" "fm_ok s5 d" "inodes s5 = (inodes ?s4)(?i := None)"
      "open_inodes s5 = remove1 ?i (open_inodes ?s4)" "files s5 = files ?s4" "fs_next s5 = fs_next ?s4"
      "fs_mallocs ?s4 = [] \<longrightarrow> fs_mallocs s5 = []" "fs_size s5 = fs_size ?s4" "\<forall>t. t \<notin> data_sectors d \<longrightarrow> c5 t = c3 t"
      "bit_used (free_map s5) = bit_used (free_map ?s4) - {unat t}
        - slots (id_start (dec_inode (c t))) (bytes_to_sectors (id_length (dec_inode (c t))))"
    using inode_close_released [OF h4 fm4, of ?i "?f\<lparr>removed := True\<rparr>"] used files4 noref by auto
  have run: "dir_remove s dir name = Some (s5, True)"
    using s1(1) s2(1) s3(1) rm s5(1) k(3,6) by (simp add: dir_remove_def)
  have ok5: "table_ok s5" by (rule table_ok_drop_inode [OF ok4 refs4 s5(5,4,6,7)])
  have inodes5: "inodes s5 = inodes s" using s5(4) fr3(5) fr2(5) fr1(5) fresh by auto
  have dirok: "inode_ok s5 (i_data ino)" "20 dvd nat (id_length (i_data ino))" "fs_mallocs s5 = []" "inode_ok s3 (i_data ino)"
    using s3(2) s5(8,9) by (auto simp: dir_at_def inode_ok_def fs_size_def)
  have d5: "dir_at s5 (d_inode dir) ino c5" using s5(2) dirok inodes5 d1(3) fr1(5) by (simp add: dir_at_def)
  have "file_bytes c5 (i_data ino) = file_bytes c3 (i_data ino)"
    by (rule file_bytes_cong [OF _ dirok(4)]) (use s5(10) fm(2) in blast)
  then have dents5: "dents_of c5 ino = ?es[k := e\<lparr>in_use := False\<rparr>]" using s3(4) by simp
  have "dir_wf (dents_of c5 ino)" "dmap (dents_of c5 ino) = (dmap ?es)(name := None)"
    unfolding dents5 using k(2,4,5) dir_wf_remove [OF assms(3), of "e\<lparr>in_use := False\<rparr>" k] dmap_remove [OF assms(3) k(1), of name] by simp_all
  then show ?thesis
    using run d5 ok5 inodes5 s5(3,6,10,11) s3(5) files4 by (intro exI [of _ s5] exI [of _ c5]) simp
qed

text \<open>A read for which no bounce buffer can be had returns nothing.\<close>

lemma inode_read_no_memory:
  assumes "dir_at s i ino c" "0 < id_length (i_data ino)"
  shows "inode_read_at (s\<lparr>fs_mallocs := [False]\<rparr>) i 20 0 = Some (s, [])"
proof -
  have "0 < chunk ino 20 0" "chunk ino 20 0 \<le> 20" using assms(2) by (simp_all add: chunk_def inode_length_def BLOCK_SECTOR_SIZE_def Let_def)
  moreover have "s\<lparr>fs_mallocs := []\<rparr> = s" using assms(1) by (simp add: dir_at_def)
  ultimately show ?thesis
    using assms(1) by (simp add: inode_read_at_def dir_at_def, subst read_loop.simps) (simp add: fs_malloc_def BLOCK_SECTOR_SIZE_def)
qed

section \<open>Properties\<close>

text \<open>C2. \<^verbatim>\<open>dir_add\<close> refines insertion into the map from names to sectors.  A name that is empty, longer than 14 characters or
  already present is refused, and so is every name when all slots are in use; otherwise the new name is mapped to the
  given sector, no other name changes, names stay distinct and terminated, and no sector outside the directory's own
  data is written.\<close>

theorem dir_add_refines:
  assumes "dir_at s (d_inode dir) ino c" "dir_wf (dents_of c ino)" "deny_write_cnt ino = 0" "0 \<notin> set name" "length (de_name e0) = 15"
  shows "\<exists>s' ok c'. dir_add e0 s dir name sector = Some (s', ok) \<and> dir_at s' (d_inode dir) ino c' \<and> fs_frame s s'
    \<and> dir_wf (dents_of c' ino) \<and> (\<forall>t. t \<notin> data_sectors (i_data ino) \<longrightarrow> c' t = c t)
    \<and> ok = (name \<noteq> [] \<and> length name \<le> 14 \<and> dmap (dents_of c ino) name = None \<and> (\<exists>e \<in> set (dents_of c ino). \<not> in_use e))
    \<and> dmap (dents_of c' ino) = (if ok then (dmap (dents_of c ino))(name \<mapsto> sector) else dmap (dents_of c ino))"
  by (rule dir_add_ok [OF assms])

text \<open>C17. \<^verbatim>\<open>dir_remove\<close> refines removal from the map.  For a name that is not there it returns false and changes nothing.
  Otherwise the name disappears and no other changes.  If the file is open, its inode is marked removed but stays open for
  its users with its counts as before, and the free map and every sector outside the directory's data are untouched.  If
  nobody has it open, its inode sector and data sectors, and no others, are released in the free map, and only the data of
  the directory and of the free map file is written.\<close>

theorem dir_remove_refines:
  assumes "table_ok s" "dir_at s (d_inode dir) ino c" "dir_wf (dents_of c ino)" "deny_write_cnt ino = 0" "0 \<notin> set name"
  shows "case dmap (dents_of c ino) name of
      None \<Rightarrow> \<exists>s'. dir_remove s dir name = Some (s', False) \<and> dir_at s' (d_inode dir) ino c \<and> fs_frame s s'
    | Some t \<Rightarrow> t < fs_size s \<longrightarrow> t \<noteq> i_sector ino \<longrightarrow>
        (\<forall>j f. inodes s j = Some f \<longrightarrow> i_sector f = t \<longrightarrow>
          (\<exists>s' c'. dir_remove s dir name = Some (s', True) \<and> dir_at s' (d_inode dir) ino c' \<and> dir_wf (dents_of c' ino) \<and> table_ok s'
            \<and> dmap (dents_of c' ino) = (dmap (dents_of c ino))(name := None) \<and> (\<forall>t. t \<notin> data_sectors (i_data ino) \<longrightarrow> c' t = c t)
            \<and> inodes s' = (inodes s)(j \<mapsto> f\<lparr>removed := True\<rparr>) \<and> files s' = files s \<and> free_map s' = free_map s))
        \<and> (\<forall>d. (\<forall>j f. inodes s j = Some f \<longrightarrow> i_sector f \<noteq> t) \<longrightarrow> fm_ok s d \<longrightarrow> data_sectors d \<inter> data_sectors (i_data ino) = {}
            \<longrightarrow> run_at (bits_of (free_map s)) True (unat t) 1
            \<longrightarrow> run_at (bits_of (free_map s)) True (unat (id_start (dec_inode (c t)))) (unat (bytes_to_sectors (id_length (dec_inode (c t)))))
            \<longrightarrow> unat t \<notin> slots (id_start (dec_inode (c t))) (bytes_to_sectors (id_length (dec_inode (c t)))) \<longrightarrow>
          (\<exists>s' c'. dir_remove s dir name = Some (s', True) \<and> dir_at s' (d_inode dir) ino c' \<and> dir_wf (dents_of c' ino) \<and> table_ok s'
            \<and> dmap (dents_of c' ino) = (dmap (dents_of c ino))(name := None)
            \<and> (\<forall>u. u \<notin> data_sectors (i_data ino) \<longrightarrow> u \<notin> data_sectors d \<longrightarrow> c' u = c u)
            \<and> inodes s' = inodes s \<and> files s' = files s \<and> fm_ok s' d
            \<and> bit_used (free_map s') = bit_used (free_map s) - {unat t}
                - slots (id_start (dec_inode (c t))) (bytes_to_sectors (id_length (dec_inode (c t))))))"
proof (cases "dmap (dents_of c ino) name")
  case None
  then show ?thesis using dir_remove_absent_ok [OF assms(2,3,5)] by simp
next
  case (Some t)
  then show ?thesis
    using dir_remove_open_ok [OF assms Some] dir_remove_closed_ok [OF assms Some] by simp
qed

text \<open>C37. When one allocation fails, \<^verbatim>\<open>dir_add\<close> adds a name that is already there: \<^verbatim>\<open>inode_read_at\<close> then returns a short
  read in the middle of the directory, which \<^verbatim>\<open>lookup\<close> takes for its end.  The directory ends up with two entries of
  the same name.\<close>

theorem dir_add_duplicates_without_memory:
  assumes "dir_at s (d_inode dir) ino c" "dir_wf (dents_of c ino)" "deny_write_cnt ino = 0" "0 \<notin> set name" "length (de_name e0) = 15"
    and "name \<noteq> []" "length name \<le> 14" "dmap (dents_of c ino) name = Some t" "\<exists>e \<in> set (dents_of c ino). \<not> in_use e"
  shows "\<exists>s' c' j k. dir_add e0 (s\<lparr>fs_mallocs := [False]\<rparr>) dir name sector = Some (s', True) \<and> dir_at s' (d_inode dir) ino c'
    \<and> j \<noteq> k \<and> j < length (dents_of c' ino) \<and> k < length (dents_of c' ino) \<and> in_use (dents_of c' ino ! j) \<and> in_use (dents_of c' ino ! k)
    \<and> cstr (de_name (dents_of c' ino ! j)) = name \<and> cstr (de_name (dents_of c' ino ! k)) = name"
proof -
  let ?es = "dents_of c ino"
  have "?es \<noteq> []" using assms(9) by auto
  then have "0 < id_length (i_data ino)" using length_dents [of "file_bytes c (i_data ino)"] by (cases "0 < id_length (i_data ino)") auto
  then have run: "lookup (s\<lparr>fs_mallocs := [False]\<rparr>) dir name = Some (s, None)"
    using inode_read_no_memory [OF assms(1)] unfolding lookup_def by (subst lookup_loop.simps) simp
  obtain s' c' j e where w: "dir_add e0 (s\<lparr>fs_mallocs := [False]\<rparr>) dir name sector = Some (s', \<exists>e \<in> set ?es. \<not> in_use e)"
      "dir_at s' (d_inode dir) ino c'" "dents_of c' ino = ?es[j := e]" "j < length ?es \<longleftrightarrow> (\<exists>e \<in> set ?es. \<not> in_use e)"
      "j < length ?es \<longrightarrow> \<not> in_use (?es ! j)" "cstr (de_name e) = name" "in_use e"
    using dir_fill [OF assms(1,3-5,7), of sector] unfolding dir_add_new [OF assms(6,7) run] by blast
  obtain k where k: "k < length ?es" "in_use (?es ! k)" "cstr (de_name (?es ! k)) = name"
    using assms(8) unfolding dmap_iff [OF assms(2)] by blast
  then have "j \<noteq> k" using w(4,5) assms(9) by blast
  then show ?thesis
    using w assms(9) k by (intro exI [of _ s'] exI [of _ c'] exI [of _ j] exI [of _ k]) simp
qed

section \<open>Concrete instances\<close>

text \<open>The file of inode 1 of the example file system, read as a directory: 50 free entries.\<close>

abbreviation ex_dir :: dir where
  "ex_dir \<equiv> \<lparr>d_inode = 1, d_pos = 0\<rparr>"

abbreviation ex_entry :: dir_entry where
  "ex_entry \<equiv> \<lparr>de_sector = 0, de_name = replicate 15 0, in_use = False\<rparr>"

abbreviation zeros :: "block_sector_t \<Rightarrow> byte list" where
  "zeros \<equiv> \<lambda>_. replicate 512 0"

lemma ex_dir_at: "dir_at ex_fs (d_inode ex_dir) ex_ino zeros"
  using ex_fs_holds ex_ino_ok by (simp add: dir_at_def)

lemma ex_dents: "length (dents_of zeros ex_ino) = 50" "k < 50 \<Longrightarrow> \<not> in_use (dents_of zeros ex_ino ! k)"
proof -
  show len: "length (dents_of zeros ex_ino) = 50" by (simp add: length_dents)
  show "\<not> in_use (dents_of zeros ex_ino ! k)" if "k < 50"
  proof -
    have "file_bytes zeros (i_data ex_ino) = replicate 1000 0"
      by (rule nth_equalityI) (simp_all add: file_bytes_def fdata_def)
    then show ?thesis using that by (simp add: nth_dents dec_entry_def NAME_MAX_def nth_bytes_at)
  qed
qed

lemma ex_dents_wf: "dir_wf (dents_of zeros ex_ino)"
  by (rule dir_wfI) (use ex_dents in auto)

theorem dir_add_refines_witness:
  "\<exists>s' c'. dir_add ex_entry ex_fs ex_dir [97, 98] 20 = Some (s', True) \<and> fs_holds s' c' \<and> dmap (dents_of c' ex_ino) [97, 98] = Some 20"
proof -
  have "\<exists>e \<in> set (dents_of zeros ex_ino). \<not> in_use e" using ex_dents(2) [of 0] ex_dents(1) nth_mem [of 0 "dents_of zeros ex_ino"] by auto
  moreover have "dmap (dents_of zeros ex_ino) [97, 98] = None" using ex_dents by (simp add: dmap_None)
  ultimately obtain s' c' where "dir_add ex_entry ex_fs ex_dir [97, 98] 20 = Some (s', True)" "fs_holds s' c'"
      "dmap (dents_of c' ex_ino) = (dmap (dents_of zeros ex_ino))([97, 98] \<mapsto> 20)"
    using dir_add_refines [OF ex_dir_at ex_dents_wf, of "[97, 98]" ex_entry 20] by (auto simp: dir_at_def)
  then show ?thesis by (intro exI [of _ s'] exI [of _ c']) simp
qed

text \<open>The directory after the name "a" has been added for sector 0, whose inode is open.\<close>

lemma ex_dir_named:
  "\<exists>s c. dir_at s 1 ex_ino c \<and> dir_wf (dents_of c ex_ino) \<and> dmap (dents_of c ex_ino) [97] = Some 0 \<and> fs_frame ex_fs s
     \<and> (\<exists>e \<in> set (dents_of c ex_ino). \<not> in_use e)"
proof -
  let ?es = "dents_of zeros ex_ino"
  have pre: "deny_write_cnt ex_ino = 0" "0 \<notin> set [97 :: byte]" "length (de_name ex_entry) = 15" "length [97 :: byte] \<le> 14" by simp_all
  obtain s c j e where w: "dir_at s (d_inode ex_dir) ex_ino c" "fs_frame ex_fs s" "dents_of c ex_ino = ?es[j := e]"
      "j < length ?es \<longleftrightarrow> (\<exists>e \<in> set ?es. \<not> in_use e)" and e: "0 \<in> set (de_name e)" "cstr (de_name e) = [97]" "in_use e" "de_sector e = 0"
    using dir_fill [OF ex_dir_at pre, of 0] by blast
  have none: "dmap ?es [97] = None" using ex_dents by (simp add: dmap_None)
  have "\<exists>e \<in> set ?es. \<not> in_use e" using ex_dents(2) [of 0] ex_dents(1) nth_mem [of 0 ?es] by auto
  then have j: "j < length ?es" using w(4) by simp
  then have free: "\<not> in_use (?es ! j)" using ex_dents by simp
  define k where "k = (if j = 0 then 1 else 0 :: nat)"
  have "k < length (dents_of c ex_ino)" "\<not> in_use (dents_of c ex_ino ! k)" using w(3) ex_dents(2) [of k] ex_dents(1) by (simp_all add: k_def)
  then have "\<exists>e \<in> set (dents_of c ex_ino). \<not> in_use e" using nth_mem by blast
  then show ?thesis
    using w(1-3) dir_wf_add [OF ex_dents_wf j free none e(1-3)] dmap_add [OF ex_dents_wf j free none e(1-3)] e(4)
    by (intro exI [of _ s] exI [of _ c]) simp
qed

theorem dir_remove_refines_witness:
  "\<exists>s c s' c'. dir_at s 1 ex_ino c \<and> dmap (dents_of c ex_ino) [97] = Some 0 \<and> dir_remove s ex_dir [97] = Some (s', True)
     \<and> dir_at s' 1 ex_ino c' \<and> dmap (dents_of c' ex_ino) [97] = None"
proof -
  obtain s c where s: "dir_at s (d_inode ex_dir) ex_ino c" "dir_wf (dents_of c ex_ino)" "dmap (dents_of c ex_ino) [97] = Some 0" "fs_frame ex_fs s"
    using ex_dir_named by auto
  have "table_ok s" by (rule table_ok_frame [OF ex_table_ok s(4)])
  moreover have "0 < fs_size s" using fs_frame_size [OF s(4) ex_fs_holds] by simp
  moreover obtain f where "inodes s 0 = Some f" "i_sector f = 0" using fs_frame_simps(5) [OF s(4)] by (auto simp: ex_fs_def)
  ultimately obtain s' c' where "dir_remove s ex_dir [97] = Some (s', True)" "dir_at s' (d_inode ex_dir) ex_ino c'"
      "dmap (dents_of c' ex_ino) = (dmap (dents_of c ex_ino))([97] := None)"
    using dir_remove_refines [OF _ s(1,2), of "[97]"] s(3) by fastforce
  then show ?thesis using s(1,3) by (intro exI [of _ s] exI [of _ c] exI [of _ s'] exI [of _ c']) simp
qed

theorem dir_add_duplicates_without_memory_witness:
  "\<exists>s s'. dir_add ex_entry (s\<lparr>fs_mallocs := [False]\<rparr>) ex_dir [97] 30 = Some (s', True)"
proof -
  obtain s c where s: "dir_at s (d_inode ex_dir) ex_ino c" "dir_wf (dents_of c ex_ino)" "dmap (dents_of c ex_ino) [97] = Some 0"
      "\<exists>e \<in> set (dents_of c ex_ino). \<not> in_use e"
    using ex_dir_named by auto
  show ?thesis using dir_add_duplicates_without_memory [OF s(1,2) _ _ _ _ _ s(3,4), of ex_entry 30] by auto
qed

end
