(* ===== verification/Filesys.thy ===== *)
theory Filesys
  imports Directory
begin

text \<open>
  The file system interface (\<^verbatim>\<open>src/src/filesys/filesys.c\<close>): starting, formatting and stopping the file system, and
  creating, opening and removing files by name in the root directory.
\<close>

text \<open>\<open>e0\<close> is what the uninitialised entry in \<^verbatim>\<open>dir_add\<close> holds.  The conjunction of \<^verbatim>\<open>filesys_create\<close> is evaluated from left
  to right up to the first failure; its state is the state there, with the inode sector that has been allocated so far.\<close>

definition create_parts :: "dir_entry \<Rightarrow> fs \<Rightarrow> dir option \<Rightarrow> byte list \<Rightarrow> int \<Rightarrow> (fs \<times> block_sector_t \<times> bool) option" where
  "create_parts e0 s dir name initial_size = (case dir of
       None \<Rightarrow> Some (s, 0, False)
     | Some d \<Rightarrow> do {
         (s, r) \<leftarrow> free_map_allocate s 1;
         case r of
           None \<Rightarrow> Some (s, 0, False)
         | Some inode_sector \<Rightarrow> do {
             (s, ok) \<leftarrow> inode_create s inode_sector initial_size;
             if ok then do { (s, ok) \<leftarrow> dir_add e0 s d name inode_sector; Some (s, inode_sector, ok) }
             else Some (s, inode_sector, False)
           }
       })"

definition filesys_create :: "dir_entry \<Rightarrow> fs \<Rightarrow> byte list \<Rightarrow> int \<Rightarrow> (fs \<times> bool) option" where
  "filesys_create e0 s name initial_size = do {
     (s, dir) \<leftarrow> dir_open_root s;
     (s, inode_sector, success) \<leftarrow> create_parts e0 s dir name initial_size;
     s \<leftarrow> (if \<not> success \<and> inode_sector \<noteq> 0 then free_map_release s inode_sector 1 else Some s);
     s \<leftarrow> dir_close s dir;
     Some (s, success)
   }"

definition filesys_open :: "fs \<Rightarrow> byte list \<Rightarrow> (fs \<times> nat option) option" where
  "filesys_open s name = do {
     (s, dir) \<leftarrow> dir_open_root s;
     (s, inode) \<leftarrow> (case dir of None \<Rightarrow> Some (s, None) | Some d \<Rightarrow> dir_lookup s d name);
     s \<leftarrow> dir_close s dir;
     file_open s inode
   }"

definition filesys_remove :: "fs \<Rightarrow> byte list \<Rightarrow> (fs \<times> bool) option" where
  "filesys_remove s name = do {
     (s, dir) \<leftarrow> dir_open_root s;
     (s, success) \<leftarrow> (case dir of None \<Rightarrow> Some (s, False) | Some d \<Rightarrow> dir_remove s d name);
     s \<leftarrow> dir_close s dir;
     Some (s, success)
   }"

definition do_format :: "fs \<Rightarrow> fs option" where
  "do_format s = do {
     s \<leftarrow> free_map_create s;
     (s, ok) \<leftarrow> dir_create s ROOT_DIR_SECTOR 16;
     ASSERT ok;
     free_map_close s
   }"

text \<open>\<open>mem\<close> is the memory \<^verbatim>\<open>bitmap_create\<close> obtains for the free map, if any.\<close>

definition filesys_init :: "fs \<Rightarrow> elem_type list option \<Rightarrow> bool \<Rightarrow> fs option" where
  "filesys_init s mem format = do {
     dev \<leftarrow> block_get_role (fs_blocks s) BLOCK_FILESYS;
     dev \<leftarrow> dev;
     let s = s\<lparr>fs_device := dev\<rparr>;
     let s = inode_init s;
     s \<leftarrow> free_map_init s mem;
     s \<leftarrow> (if format then do_format s else Some s);
     free_map_open s
   }"

definition filesys_done :: "fs \<Rightarrow> fs option" where
  "filesys_done s = free_map_close s"

end
