(* ===== verification/OpenCounts.thy ===== *)
theory OpenCounts
  imports InodeTable
begin

text \<open>
  Exact reference counts of open inodes (\<^verbatim>\<open>src/src/filesys/inode.c\<close>, \<^verbatim>\<open>src/src/filesys/file.c\<close>), over every sequence of operations on
  inodes and files, with failing allocations, writes, removals and last closes: \<^verbatim>\<open>open_cnt\<close> is the number of open files on
  the inode plus the number of other holders, such as directories, which a ghost count \<open>k\<close> keeps.
\<close>

section \<open>What leaves the tables alone\<close>

definition same_tables :: "fs \<Rightarrow> fs \<Rightarrow> bool" where
  "same_tables s s' \<longleftrightarrow> inodes s' = inodes s \<and> open_inodes s' = open_inodes s \<and> files s' = files s \<and> fs_next s' = fs_next s"

lemma same_tables_refl [simp]: "same_tables s s"
  by (simp add: same_tables_def)

lemma same_tables_trans: "same_tables s t \<Longrightarrow> same_tables t u \<Longrightarrow> same_tables s u"
  by (simp add: same_tables_def)

lemma fs_malloc_tables: "fs_malloc s = (s', b) \<Longrightarrow> same_tables s s'"
  by (auto simp: fs_malloc_def same_tables_def split: list.splits)

lemma fs_read_tables: "fs_read s t = Some (s', b) \<Longrightarrow> same_tables s s'"
  by (auto simp: fs_read_def same_tables_def elim!: bind_SomeE)

lemma fs_write_tables: "fs_write s t b = Some s' \<Longrightarrow> same_tables s s'"
  by (auto simp: fs_write_def same_tables_def elim!: bind_SomeE)

lemmas device_tables = fs_malloc_tables fs_read_tables fs_write_tables

lemma read_loop_tables:
  assumes "read_loop s ino n ofs buf bounce = Some r"
  shows "same_tables s (fst r)"
proof (rule read_loop.raw_induct [where P = "\<lambda>s _ _ _ _ _ r. same_tables s (fst r)", OF _ assms], goal_cases)
  case (1 loop s ino n ofs buf bounce r)
  show ?case
    using 1(2) by (auto simp: Let_def elim!: bind_SomeE split: if_splits prod.splits
        dest!: 1(1) device_tables intro: same_tables_trans)
qed

lemma write_loop_tables:
  assumes "write_loop s ino buf n ofs k bounce = Some r"
  shows "same_tables s (fst r)"
proof (rule write_loop.raw_induct [where P = "\<lambda>s _ _ _ _ _ _ r. same_tables s (fst r)", OF _ assms], goal_cases)
  case (1 loop s ino buf n ofs k bounce r)
  show ?case
    using 1(2) by (auto simp: Let_def elim!: bind_SomeE split: if_splits prod.splits
        dest!: 1(1) device_tables intro: same_tables_trans)
qed

lemma inode_read_at_tables: "inode_read_at s i n ofs = Some (s', b) \<Longrightarrow> same_tables s s'"
  by (auto simp: inode_read_at_def elim!: bind_SomeE dest!: read_loop_tables)

lemma inode_write_at_tables: "inode_write_at s i b n ofs = Some (s', m) \<Longrightarrow> same_tables s s'"
  by (auto simp: inode_write_at_def elim!: bind_SomeE dest!: write_loop_tables split: if_splits)

lemma bitmap_write_tables: "bitmap_write s b f = Some (s', ok) \<Longrightarrow> same_tables s s'"
  by (auto simp: bitmap_write_def file_write_at_def Let_def elim!: bind_SomeE dest!: inode_write_at_tables)

lemma free_map_release_tables:
  assumes "free_map_release s t n = Some s'"
  shows "same_tables s s'"
proof -
  obtain fm f ok where "bitmap_write (s\<lparr>free_map := fm\<rparr>) fm f = Some (s', ok)"
    using assms by (auto simp: free_map_release_def Let_def elim!: bind_SomeE split: if_splits)
  from bitmap_write_tables [OF this] show ?thesis by (simp add: same_tables_def)
qed

lemma free_map_allocate_tables: "free_map_allocate s n = Some (s', r) \<Longrightarrow> same_tables s s'"
  by (auto simp: free_map_allocate_def Let_def same_tables_def elim!: bind_SomeE
      dest!: bitmap_write_tables split: if_splits option.splits)

lemma for_loop_tables:
  assumes "for_loop lo hi body s = Some s'" and "\<forall>i s s'. body i s = Some s' \<longrightarrow> same_tables s s'"
  shows "same_tables s s'"
  using assms
proof (induction lo hi body s rule: for_loop.induct)
  case (1 lo hi body s)
  show ?case
  proof (cases "lo < hi")
    case True
    then obtain t where t: "body lo s = Some t" "for_loop (lo + 1) hi body t = Some s'"
      using 1(2) for_loop.simps [of lo hi body s] by (auto elim!: bind_SomeE)
    then show ?thesis using 1(1) [OF True t 1(3)] 1(3) same_tables_trans [of s t s'] by blast
  next
    case False
    then show ?thesis using 1(2) by simp
  qed
qed

section \<open>Exact counts\<close>

definition counts_ok :: "fs \<Rightarrow> (nat \<Rightarrow> nat) \<Rightarrow> bool" where
  "counts_ok s k \<longleftrightarrow> table_ok s \<and> (\<forall>i ino. inodes s i = Some ino \<longrightarrow> open_cnt ino = int (refs s i) + int (k i))
     \<and> (\<forall>i. inodes s i = None \<longrightarrow> k i = 0)"

lemma same_tables_counts:
  assumes "same_tables s s'"
  shows "table_ok s' = table_ok s" "refs s' i = refs s i" "counts_ok s' k = counts_ok s k"
  using assms by (simp_all add: same_tables_def table_ok_def refs_def denials_def counts_ok_def)

lemma counts_okD:
  assumes "counts_ok s k"
  shows "table_ok s" "inodes s i = Some ino \<Longrightarrow> open_cnt ino = int (refs s i) + int (k i)" "inodes s i = None \<Longrightarrow> k i = 0"
  using assms by (auto simp: counts_ok_def)

lemma counts_okI:
  assumes "table_ok s" "\<And>i ino. inodes s i = Some ino \<Longrightarrow> open_cnt ino = int (refs s i) + int (k i)"
    "\<And>i. inodes s i = None \<Longrightarrow> k i = 0"
  shows "counts_ok s k"
  using assms by (simp add: counts_ok_def)

text \<open>One more holder of an open inode.\<close>

lemma counts_reopen:
  assumes "counts_ok s k" and "inode_reopen s (Some i) = Some (s', r)"
  shows "counts_ok s' (k(i := k i + 1)) \<and> r = Some i"
proof -
  obtain ino where ino: "inodes s i = Some ino" using assms(2) by (auto simp: inode_reopen_def upd_inode_def elim!: bind_SomeE)
  obtain s1 where s1: "inode_reopen s (Some i) = Some (s1, Some i)" "table_ok s1"
      "inodes s1 = (inodes s)(i \<mapsto> ino\<lparr>open_cnt := open_cnt ino + 1\<rparr>)" "files s1 = files s"
    using inode_reopen_ok [OF counts_okD(1) [OF assms(1)] ino] by blast
  have "counts_ok s1 (k(i := k i + 1))"
    using s1 counts_okD [OF assms(1)] ino by (intro counts_okI) (auto simp: refs_only [OF s1(4)] split: if_splits)
  with s1(1) assms(2) show ?thesis by simp
qed

lemma counts_open:
  assumes "counts_ok s k" and "inode_open s sector = Some (s', r)"
  shows "case r of None \<Rightarrow> counts_ok s' k | Some i \<Rightarrow> counts_ok s' (k(i := k i + 1))"
proof (cases "\<exists>i. find_open s sector (open_inodes s) = Some (Some i)")
  case True
  then obtain i where "inode_reopen s (Some i) = Some (s', r)" using assms(2) by (auto simp: inode_open_def)
  from counts_reopen [OF assms(1) this] show ?thesis by auto
next
  case False
  have ok: "table_ok s" by (rule counts_okD(1) [OF assms(1)])
  have none: "find_open s sector (open_inodes s) = Some None" "\<forall>i ino. inodes s i = Some ino \<longrightarrow> i_sector ino \<noteq> sector"
    using find_open_ok [OF ok, of sector] False by auto
  obtain s0 mem where s0: "fs_malloc s = (s0, mem)" by (cases "fs_malloc s")
  note t0 = fs_malloc_tables [OF s0]
  show ?thesis
  proof (cases mem)
    case False
    then show ?thesis using assms none s0 same_tables_counts(3) [OF t0] by (auto simp: inode_open_def)
  next
    case True
    let ?i = "fs_next s" and ?s1 = "s0\<lparr>fs_next := fs_next s0 + 1, open_inodes := fs_next s0 # open_inodes s0\<rparr>"
    obtain s2 buf where s2: "fs_read ?s1 sector = Some (s2, buf)"
        "r = Some (fs_next s0)" "s' = s2\<lparr>inodes := (inodes s2)(fs_next s0 \<mapsto> \<lparr>i_sector = sector, open_cnt = 1, removed = False,
           deny_write_cnt = 0, i_data = dec_inode buf\<rparr>)\<rparr>"
      using assms(2) none(1) s0 True by (auto simp: inode_open_def Let_def elim!: bind_SomeE)
    define ino where "ino = \<lparr>i_sector = sector, open_cnt = 1, removed = False, deny_write_cnt = 0, i_data = dec_inode buf\<rparr>"
    have tab: "inodes s' = (inodes s)(?i \<mapsto> ino)" "open_inodes s' = ?i # open_inodes s" "files s' = files s" "fs_next s' = ?i + 1" "r = Some ?i"
      using s2(2,3) fs_read_tables [OF s2(1)] t0 by (simp_all add: same_tables_def ino_def)
    have "table_ok s'"
      by (rule table_ok_new_inode [OF ok tab(2,1,3,4)]) (use none(2) in \<open>simp_all add: ino_def\<close>)
    moreover have fresh: "inodes s ?i = None" using table_okD(3) [OF ok, of ?i] by (cases "inodes s ?i") auto
    then have "refs s' ?i = 0" "k ?i = 0"
      using refs_fresh [OF ok fresh] counts_okD(3) [OF assms(1) fresh] by (simp_all add: refs_only [OF tab(3)])
    ultimately have "counts_ok s' (k(?i := k ?i + 1))"
      using counts_okD(2,3) [OF assms(1)] tab(1)
      by (intro counts_okI) (auto simp: ino_def refs_only [OF tab(3)] split: if_splits)
    then show ?thesis using tab(5) by simp
  qed
qed

text \<open>What \<^verbatim>\<open>inode_close\<close> does to the tables, whatever it releases on disk.\<close>

lemma inode_close_tables:
  assumes "inode_close s (Some i) = Some s'" and "inodes s i = Some ino"
  shows "inodes s' = (inodes s)(i := if open_cnt ino = 1 then None else Some (ino\<lparr>open_cnt := open_cnt ino - 1\<rparr>))
    \<and> open_inodes s' = (if open_cnt ino = 1 then remove1 i (open_inodes s) else open_inodes s)
    \<and> files s' = files s \<and> fs_next s' = fs_next s"
proof (cases "open_cnt ino = 1")
  case False
  then show ?thesis using assms by (auto simp: inode_close_def upd_inode_def)
next
  case True
  let ?ino = "ino\<lparr>open_cnt := 0\<rparr>"
  let ?s = "s\<lparr>inodes := (inodes s)(i \<mapsto> ?ino), open_inodes := remove1 i (open_inodes s)\<rparr>"
  have "\<exists>s1. same_tables ?s s1 \<and> s' = s1\<lparr>inodes := (inodes s1)(i := None)\<rparr>"
  proof (cases "removed ino")
    case False
    then show ?thesis
      using assms True by (intro exI [of _ ?s]) (simp add: inode_close_def upd_inode_def)
  next
    case removed: True
    then obtain s1 s2 where s2: "free_map_release ?s (i_sector ino) 1 = Some s1" "s' = s2\<lparr>inodes := (inodes s2)(i := None)\<rparr>"
        "free_map_release s1 (id_start (i_data ino)) (bytes_to_sectors (id_length (i_data ino))) = Some s2"
      using assms True by (auto simp: inode_close_def upd_inode_def Let_def elim!: bind_SomeE)
    then show ?thesis
      using same_tables_trans [OF free_map_release_tables [OF s2(1)] free_map_release_tables [OF s2(3)]] by blast
  qed
  then show ?thesis using True by (auto simp: same_tables_def)
qed

lemma counts_drop:
  assumes "counts_ok s k" and "0 < k i" and ino: "inodes s i = Some ino"
    and new: "inodes s' = (inodes s)(i := if open_cnt ino = 1 then None else Some (ino\<lparr>open_cnt := open_cnt ino - 1\<rparr>))"
      "open_inodes s' = (if open_cnt ino = 1 then remove1 i (open_inodes s) else open_inodes s)"
      "files s' = files s" "fs_next s' = fs_next s"
  shows "counts_ok s' (k(i := k i - 1))"
proof -
  note ok = counts_okD [OF assms(1)]
  have cnt: "open_cnt ino = int (refs s i) + int (k i)" by (rule ok(2) [OF ino])
  have "table_ok s'"
  proof (cases "open_cnt ino = 1")
    case True
    then have "refs s i = 0" using cnt assms(2) by simp
    then show ?thesis by (rule table_ok_drop_inode [OF ok(1)]) (use new True in simp_all)
  next
    case False
    let ?g = "\<lambda>ino. ino\<lparr>open_cnt := open_cnt ino - 1\<rparr>"
    let ?s = "s\<lparr>inodes := (inodes s)(i \<mapsto> ?g ino)\<rparr>"
    have "table_ok ?s"
      by (rule table_ok_upd_inode(1) [OF ok(1) ino, of ?g])
        (use table_ok_inode [OF ok(1) ino] cnt assms(2) False ino in \<open>simp_all add: upd_inode_def\<close>)
    moreover have "same_tables ?s s'" using new False by (simp add: same_tables_def)
    ultimately show ?thesis using same_tables_counts(1) by blast
  qed
  then show ?thesis
    using ok(2,3) new(1) cnt assms(2) by (intro counts_okI) (auto simp: refs_only [OF new(3)] split: if_splits)
qed

lemma counts_close:
  assumes "counts_ok s k" and "0 < k i" and "inode_close s (Some i) = Some s'"
  shows "counts_ok s' (k(i := k i - 1))"
proof -
  obtain ino where ino: "inodes s i = Some ino" using counts_okD(3) [OF assms(1), of i] assms(2) by (cases "inodes s i") auto
  show ?thesis using counts_drop [OF assms(1,2) ino] inode_close_tables [OF assms(3) ino] by simp
qed

lemma inode_create_tables:
  assumes "inode_create s sector len = Some (s', b)"
  shows "same_tables s s'"
proof -
  obtain s0 mem where s0: "fs_malloc s = (s0, mem)" by (cases "fs_malloc s")
  note t0 = fs_malloc_tables [OF s0]
  show ?thesis
  proof (cases "mem \<and> b")
    case False
    then show ?thesis
      using assms s0 t0 same_tables_trans [OF t0]
      by (auto simp: inode_create_def Let_def elim!: bind_SomeE split: if_splits option.splits dest!: free_map_allocate_tables)
  next
    case True
    obtain s1 st s2 where s1: "free_map_allocate s0 (bytes_to_sectors len) = Some (s1, Some st)" "fs_write s1 sector
        (enc_inode \<lparr>id_start = st, id_length = len, id_magic = INODE_MAGIC\<rparr>) = Some s2"
        "s' = s2 \<or> for_loop 0 (bytes_to_sectors len) (\<lambda>i s. fs_write s (st + i) (replicate BLOCK_SECTOR_SIZE 0)) s2 = Some s'"
      using assms s0 True by (auto simp: inode_create_def Let_def elim!: bind_SomeE split: if_splits option.splits)
    have "same_tables s2 s'" using s1(3) by (auto dest!: for_loop_tables simp: fs_write_tables)
    then show ?thesis
      using t0 free_map_allocate_tables [OF s1(1)] fs_write_tables [OF s1(2)] by (blast intro: same_tables_trans)
  qed
qed

section \<open>Files\<close>

text \<open>A new file takes over a holder, and so does a failed \<^verbatim>\<open>file_open\<close>, which closes the inode.\<close>

lemma counts_file_open:
  assumes "counts_ok s k" and "0 < k i" and "file_open s (Some i) = Some (s', r)"
  shows "counts_ok s' (k(i := k i - 1))"
proof -
  obtain s0 mem where s0: "fs_malloc s = (s0, mem)" by (cases "fs_malloc s")
  note t0 = fs_malloc_tables [OF s0]
  have ok0: "counts_ok s0 k" using same_tables_counts(3) [OF t0] assms(1) by simp
  obtain ino where ino: "inodes s0 i = Some ino" using counts_okD(3) [OF ok0, of i] assms(2) by (cases "inodes s0 i") auto
  have cnt: "open_cnt ino = int (refs s0 i) + int (k i)" by (rule counts_okD(2) [OF ok0 ino])
  show ?thesis
  proof (cases mem)
    case False
    then have "inode_close s0 (Some i) = Some s'" using assms(3) s0 by (auto simp: file_open_def elim!: bind_SomeE)
    then show ?thesis by (rule counts_close [OF ok0 assms(2)])
  next
    case True
    let ?fl = "\<lparr>f_inode = i, f_pos = 0, f_deny_write = False\<rparr>"
    have s': "s' = s0\<lparr>fs_next := fs_next s0 + 1, files := (files s0)(fs_next s0 \<mapsto> ?fl)\<rparr>"
      using assms(3) s0 True by (simp add: file_open_def Let_def)
    have lt: "int (refs s0 i) < open_cnt ino" using cnt assms(2) by simp
    have "table_ok s'" "\<And>j. refs s' j = (if j = i then refs s0 j + 1 else refs s0 j)"
      by (rule table_ok_new_file [OF counts_okD(1) [OF ok0] ino lt, where fl = ?fl]; simp add: s')+
    then show ?thesis
      using counts_okD(2,3) [OF ok0] assms(2) ino by (intro counts_okI) (auto simp: s' split: if_splits)
  qed
qed

lemma counts_file_reopen:
  assumes "counts_ok s k" and "file_reopen s f = Some (s', r)"
  shows "counts_ok s' k"
proof -
  obtain fl s1 j where s1: "inode_reopen s (Some (f_inode fl)) = Some (s1, j)" "file_open s1 j = Some (s', r)" "files s f = Some fl"
    using assms(2) by (auto simp: file_reopen_def elim!: bind_SomeE)
  have c: "counts_ok s1 (k(f_inode fl := k (f_inode fl) + 1))" "j = Some (f_inode fl)"
    using counts_reopen [OF assms(1) s1(1)] by auto
  then show ?thesis using counts_file_open [OF c(1), of "f_inode fl" s' r] s1(2) by simp
qed

text \<open>A store to a file or to the other fields of its inode.\<close>

lemma counts_store:
  assumes "counts_ok s k" and fl: "files s f = Some fl" and ino: "inodes s (f_inode fl) = Some ino"
    and ok: "table_ok s'" and new: "files s' = (files s)(f \<mapsto> fl')" "f_inode fl' = f_inode fl"
      "inodes s' = (inodes s)(f_inode fl \<mapsto> ino')" "open_cnt ino' = open_cnt ino"
  shows "counts_ok s' k"
proof -
  have "refs s' j = refs s j" for j
    using refs_update [OF table_okD(5) [OF counts_okD(1) [OF assms(1)]] new(1), of j] fl new(2) by auto
  then show ?thesis
    using counts_okD(2,3) [OF assms(1)] ok ino new(3,4) by (intro counts_okI) (auto split: if_splits)
qed

lemma counts_seek:
  assumes "counts_ok s k" and fl: "files s f = Some fl"
    and new: "files s' = (files s)(f \<mapsto> fl\<lparr>f_pos := p\<rparr>)" "inodes s' = inodes s" "open_inodes s' = open_inodes s" "fs_next s' = fs_next s"
  shows "counts_ok s' k"
proof -
  note ok = counts_okD(1) [OF assms(1)]
  obtain ino where ino: "inodes s (f_inode fl) = Some ino" using table_ok_file [OF ok fl] by blast
  have same: "inodes s' = (inodes s)(f_inode fl \<mapsto> ino)" using new(2) ino by auto
  have cnt: "refs s' (f_inode fl) = refs s (f_inode fl)" "denials s' (f_inode fl) = denials s (f_inode fl)"
    using refs_update [OF table_okD(5) [OF ok] new(1), of "f_inode fl"] denials_update [OF table_okD(5) [OF ok] new(1), of "f_inode fl"] fl
    by auto
  have "table_ok s'"
    by (rule table_ok_update [OF ok fl refl ino new(1) same new(3,4)]) (use table_ok_inode [OF ok ino] cnt in simp_all)
  then show ?thesis by (rule counts_store [OF assms(1) fl ino _ new(1) _ same]) simp_all
qed

lemma counts_deny:
  assumes "counts_ok s k" and "file_deny_write s f = Some s'"
  shows "counts_ok s' k"
proof -
  note ok = counts_okD(1) [OF assms(1)]
  obtain fl where fl: "files s f = Some fl" using assms(2) by (auto simp: file_deny_write_def elim!: bind_SomeE)
  obtain ino where ino: "inodes s (f_inode fl) = Some ino" using table_ok_file [OF ok fl] by blast
  have s': "table_ok s'" "files s' = (files s)(f \<mapsto> fl\<lparr>f_deny_write := True\<rparr>)"
    using file_deny_write_ok [OF ok fl] assms(2) by auto
  have "\<exists>ino'. inodes s' = (inodes s)(f_inode fl \<mapsto> ino') \<and> open_cnt ino' = open_cnt ino"
  proof (cases "f_deny_write fl")
    case True
    then show ?thesis using assms(2) fl ino by (intro exI [of _ ino]) (auto simp: file_deny_write_def)
  next
    case False
    then show ?thesis
      using assms(2) fl ino by (intro exI [of _ "ino\<lparr>deny_write_cnt := deny_write_cnt ino + 1\<rparr>"])
        (auto simp: file_deny_write_def inode_deny_write_def upd_inode_def split: if_splits)
  qed
  then show ?thesis using counts_store [OF assms(1) fl ino s'] by auto
qed

lemma counts_allow:
  assumes "counts_ok s k" and "file_allow_write s f = Some s'" and "files s f = Some fl"
  shows "counts_ok s' k \<and> files s' = (files s)(f \<mapsto> fl\<lparr>f_deny_write := False\<rparr>)"
proof -
  note ok = counts_okD(1) [OF assms(1)]
  obtain ino where ino: "inodes s (f_inode fl) = Some ino" using table_ok_file [OF ok assms(3)] by blast
  from file_allow_write_ok [OF ok assms(3) ino] assms(2) counts_store [OF assms(1,3) ino, of s' "fl\<lparr>f_deny_write := False\<rparr>"]
  show ?thesis by auto
qed

text \<open>Closing a file: it gives up its hold of the inode.\<close>

lemma counts_file_close:
  assumes "counts_ok s k" and "file_close s (Some f) = Some s'"
  shows "counts_ok s' k"
proof -
  obtain s1 fl1 s2 where s1: "file_allow_write s f = Some s1" "files s1 f = Some fl1"
      "inode_close s1 (Some (f_inode fl1)) = Some s2" "s' = s2\<lparr>files := (files s2)(f := None)\<rparr>"
    using assms(2) by (auto simp: file_close_def elim!: bind_SomeE)
  obtain fl where fl: "files s f = Some fl" using s1(1) by (auto simp: file_allow_write_def elim!: bind_SomeE)
  have c1: "counts_ok s1 k" "fl1 = fl\<lparr>f_deny_write := False\<rparr>"
    using counts_allow [OF assms(1) s1(1) fl] s1(2) by auto
  let ?i = "f_inode fl1" and ?t = "s1\<lparr>files := (files s1)(f := None)\<rparr>" and ?k = "k(f_inode fl1 := k (f_inode fl1) + 1)"
  note ok1 = counts_okD(1) [OF c1(1)]
  obtain ino where ino: "inodes s1 ?i = Some ino" using table_ok_file [OF ok1 s1(2)] by blast
  have t: "table_ok ?t" "refs ?t ?i + 1 = refs s1 ?i"
    using table_ok_remove_file [OF ok1 s1(2), of ?t] c1(2) by simp_all
  have other: "refs ?t j = refs s1 j" if "j \<noteq> ?i" for j
    using refs_update [OF table_okD(5) [OF ok1], of ?t f None j] s1(2) that by auto
  have "counts_ok ?t ?k"
    using t counts_okD(2,3) [OF c1(1)] other ino by (intro counts_okI) (auto split: if_splits)
  from counts_drop [OF this, of ?i ino s'] inode_close_tables [OF s1(3) ino] ino s1(4) show ?thesis by simp
qed

section \<open>Every sequence of operations\<close>

inductive count_step :: "fs \<times> (nat \<Rightarrow> nat) \<Rightarrow> fs \<times> (nat \<Rightarrow> nat) \<Rightarrow> bool" where
  cs_open: "inode_open s sector = Some (s', Some i) \<Longrightarrow> count_step (s, k) (s', k(i := k i + 1))"
| cs_open_fails: "inode_open s sector = Some (s', None) \<Longrightarrow> count_step (s, k) (s', k)"
| cs_reopen: "inode_reopen s (Some i) = Some (s', r) \<Longrightarrow> count_step (s, k) (s', k(i := k i + 1))"
| cs_close: "0 < k i \<Longrightarrow> inode_close s (Some i) = Some s' \<Longrightarrow> count_step (s, k) (s', k(i := k i - 1))"
| cs_remove: "inode_remove s i = Some s' \<Longrightarrow> count_step (s, k) (s', k)"
| cs_create: "inode_create s sector len = Some (s', b) \<Longrightarrow> count_step (s, k) (s', k)"
| cs_read_at: "inode_read_at s i n ofs = Some (s', bs) \<Longrightarrow> count_step (s, k) (s', k)"
| cs_write_at: "inode_write_at s i bs n ofs = Some (s', m) \<Longrightarrow> count_step (s, k) (s', k)"
| cs_file_open: "0 < k i \<Longrightarrow> file_open s (Some i) = Some (s', r) \<Longrightarrow> count_step (s, k) (s', k(i := k i - 1))"
| cs_file_reopen: "file_reopen s f = Some (s', r) \<Longrightarrow> count_step (s, k) (s', k)"
| cs_file_read: "file_read s f n = Some (s', bs) \<Longrightarrow> count_step (s, k) (s', k)"
| cs_file_write: "file_write s f bs n = Some (s', m) \<Longrightarrow> count_step (s, k) (s', k)"
| cs_file_seek: "file_seek s f p = Some s' \<Longrightarrow> count_step (s, k) (s', k)"
| cs_file_deny: "file_deny_write s f = Some s' \<Longrightarrow> count_step (s, k) (s', k)"
| cs_file_allow: "file_allow_write s f = Some s' \<Longrightarrow> count_step (s, k) (s', k)"
| cs_file_close: "file_close s (Some f) = Some s' \<Longrightarrow> count_step (s, k) (s', k)"

lemma counts_remove:
  assumes "counts_ok s k" and "inode_remove s i = Some s'"
  shows "counts_ok s' k"
proof -
  note ok = counts_okD(1) [OF assms(1)]
  obtain ino where ino: "inodes s i = Some ino" using assms(2) by (auto simp: inode_remove_def upd_inode_def elim!: bind_SomeE)
  have s': "table_ok s'" "inodes s' = (inodes s)(i \<mapsto> ino\<lparr>removed := True\<rparr>)" "files s' = files s"
    using table_ok_upd_inode [OF ok ino, of "\<lambda>ino. ino\<lparr>removed := True\<rparr>" s'] table_ok_inode [OF ok ino] assms(2) ino
    by (auto simp: inode_remove_def upd_inode_def)
  then show ?thesis
    using counts_okD(2,3) [OF assms(1)] ino by (intro counts_okI) (auto simp: refs_only [OF s'(3)] split: if_splits)
qed

lemma counts_file_io:
  assumes "counts_ok s k" and "files s f = Some fl" and "same_tables s s1"
  shows "counts_ok (s1\<lparr>files := (files s1)(f \<mapsto> fl\<lparr>f_pos := p\<rparr>)\<rparr>) k"
  using counts_seek [OF assms(1,2), of "s1\<lparr>files := (files s1)(f \<mapsto> fl\<lparr>f_pos := p\<rparr>)\<rparr>" p] assms(3)
  by (simp add: same_tables_def)

lemma count_step_ok:
  assumes "count_step (s, k) (s', k')" and "counts_ok s k"
  shows "counts_ok s' k'"
  using assms(1)
proof (cases rule: count_step.cases)
  case (cs_open sector i)
  then show ?thesis using counts_open [OF assms(2)] by fastforce
next
  case (cs_open_fails sector)
  then show ?thesis using counts_open [OF assms(2)] by fastforce
next
  case (cs_reopen i r)
  then show ?thesis using counts_reopen [OF assms(2)] by blast
next
  case (cs_close i)
  then show ?thesis using counts_close [OF assms(2)] by blast
next
  case (cs_remove i)
  then show ?thesis using counts_remove [OF assms(2)] by blast
next
  case (cs_create sector len b)
  then show ?thesis using same_tables_counts(3) [OF inode_create_tables] assms(2) by blast
next
  case (cs_read_at i n ofs bs)
  then show ?thesis using same_tables_counts(3) [OF inode_read_at_tables] assms(2) by blast
next
  case (cs_write_at i bs n ofs m)
  then show ?thesis using same_tables_counts(3) [OF inode_write_at_tables] assms(2) by blast
next
  case (cs_file_open i r)
  then show ?thesis using counts_file_open [OF assms(2)] by blast
next
  case (cs_file_reopen f r)
  then show ?thesis using counts_file_reopen [OF assms(2)] by blast
next
  case (cs_file_read f n bs)
  then show ?thesis
    using counts_file_io [OF assms(2)] by (auto simp: file_read_def elim!: bind_SomeE dest!: inode_read_at_tables)
next
  case (cs_file_write f bs n m)
  then show ?thesis
    using counts_file_io [OF assms(2)] by (auto simp: file_write_def elim!: bind_SomeE dest!: inode_write_at_tables)
next
  case (cs_file_seek f p)
  then show ?thesis
    using counts_file_io [OF assms(2) _ same_tables_refl] by (auto simp: file_seek_def elim!: bind_SomeE split: if_splits)
next
  case (cs_file_deny f)
  then show ?thesis using counts_deny [OF assms(2)] by blast
next
  case (cs_file_allow f)
  then obtain fl where "files s f = Some fl" by (auto simp: file_allow_write_def elim!: bind_SomeE)
  then show ?thesis using counts_allow [OF assms(2) cs_file_allow(2)] cs_file_allow(1) by blast
next
  case (cs_file_close f)
  then show ?thesis using counts_file_close [OF assms(2)] by blast
qed

lemma count_steps_ok: "count_step\<^sup>*\<^sup>* p q \<Longrightarrow> counts_ok (fst p) (snd p) \<Longrightarrow> counts_ok (fst q) (snd q)"
  by (induction rule: rtranclp_induct) (use count_step_ok in fastforce)+

section \<open>Properties\<close>

text \<open>C18. After every sequence of opens, reopens, closes, removals, reads, writes, seeks, write denials and file closes, with
  allocations failing at any of them, each open file is on an open inode, two open inodes are never for the same sector, the
  open count of an inode is exactly the number of files open on it plus the holders that opened it directly and have neither
  closed it nor wrapped it in a file, it is never zero, and its writes are denied exactly as often as files on it deny them.\<close>

theorem open_file_counts:
  assumes "table_ok s0" and "\<forall>i ino. inodes s0 i = Some ino \<longrightarrow> open_cnt ino = int (refs s0 i) + int (k0 i)"
    and "\<forall>i. inodes s0 i = None \<longrightarrow> k0 i = 0" and "count_step\<^sup>*\<^sup>* (s0, k0) (s, k)"
  shows "(\<forall>f fl. files s f = Some fl \<longrightarrow> (\<exists>ino. inodes s (f_inode fl) = Some ino))
    \<and> (\<forall>i j ino ino'. inodes s i = Some ino \<longrightarrow> inodes s j = Some ino' \<longrightarrow> i_sector ino = i_sector ino' \<longrightarrow> i = j)
    \<and> (\<forall>i ino. inodes s i = Some ino \<longrightarrow> open_cnt ino = int (refs s i) + int (k i) \<and> 0 < open_cnt ino
        \<and> deny_write_cnt ino = int (denials s i))
    \<and> (\<forall>i. inodes s i = None \<longrightarrow> k i = 0)"
proof -
  have c: "counts_ok s k" using count_steps_ok [OF assms(4)] assms(1-3) by (simp add: counts_ok_def)
  note ok = counts_okD(1) [OF c]
  show ?thesis
    using table_ok_file [OF ok] table_ok_sector [OF ok] table_ok_inode(1,3) [OF ok] counts_okD(2,3) [OF c] by blast
qed

section \<open>Concrete instances\<close>

text \<open>The holder of the inode of sector 3 wraps it in a file.\<close>

theorem open_file_counts_witness:
  "\<exists>s ino. count_step\<^sup>*\<^sup>* (ex_fs, (\<lambda>_. 0)(1 := 1)) (s, \<lambda>_. 0) \<and> files s 2 \<noteq> None
     \<and> inodes s 1 = Some ino \<and> open_cnt ino = int (refs s 1)"
proof -
  define k0 :: "nat \<Rightarrow> nat" where "k0 = (\<lambda>_. 0)(1 := 1)"
  let ?s = "ex_fs\<lparr>fs_next := 3, files := (files ex_fs)(2 \<mapsto> \<lparr>f_inode = 1, f_pos = 0, f_deny_write = False\<rparr>)\<rparr>"
  have op: "file_open ex_fs (Some 1) = Some (?s, Some 2)" by (simp add: file_open_def fs_malloc_def ex_fs_def)
  have "0 < k0 1" by (simp add: k0_def)
  from cs_file_open [of k0 1, OF this op] have "count_step (ex_fs, k0) (?s, k0(1 := k0 1 - 1))" .
  moreover have "k0(1 := k0 1 - 1) = (\<lambda>_. 0)" by (auto simp: k0_def)
  ultimately have step: "count_step\<^sup>*\<^sup>* (ex_fs, k0) (?s, \<lambda>_. 0)" by (metis r_into_rtranclp)
  have "{f. \<exists>fl. files ex_fs f = Some fl \<and> f_inode fl = 0} = {0}" by (auto simp: ex_fs_def split: if_splits)
  then have "refs ex_fs 0 = 1" unfolding refs_def by (metis is_singletonI is_singleton_altdef)
  then have a: "\<forall>i ino. inodes ex_fs i = Some ino \<longrightarrow> open_cnt ino = int (refs ex_fs i) + int (k0 i)"
    using ex_refs by (auto simp: ex_fs_def k0_def split: if_splits)
  have b: "\<forall>i. inodes ex_fs i = None \<longrightarrow> k0 i = 0" by (auto simp: ex_fs_def k0_def)
  have "inodes ?s 1 = Some ex_ino" by simp
  then have "open_cnt ex_ino = int (refs ?s 1) + int 0"
    using open_file_counts [OF ex_table_ok a b step] by blast
  with step show ?thesis
    unfolding k0_def by (intro exI [of _ ?s] exI [of _ ex_ino]) (simp add: ex_fs_fields(1))
qed

end
