(* ===== verification/SwapTable.thy ===== *)
theory SwapTable
  imports Block
begin

text \<open>
  The swap table (\<^verbatim>\<open>src/src/vm/swaptable.c\<close>): pages of 4096 bytes are moved to slots of eight consecutive sectors of the
  swap device and read back.  The table refines a partial map from slot numbers to pages.
\<close>

section \<open>The code\<close>

definition PGSIZE :: nat where
  "PGSIZE = 4096"

datatype load_instruction = USELESS | FILE | SWAP | STACK

record metaswap_entry =
  swap_index :: int
  isfilled :: bool
  instructions_for_pageheld :: load_instruction
  isdirty :: bool

record swap =
  sw_blocks :: blocks
  swap_block :: nat
  swaptable :: "metaswap_entry list"
  swaptable_size :: "32 word"

text \<open>\<open>mem\<close> says whether \<^verbatim>\<open>calloc\<close> found memory for the table; the code does not check.\<close>

definition swaptable_init :: "swap \<Rightarrow> bool \<Rightarrow> swap option" where
  "swaptable_init sw mem = do {
     r \<leftarrow> block_get_role (sw_blocks sw) BLOCK_SWAP;
     b \<leftarrow> r;
     bl \<leftarrow> descr (sw_blocks sw) b;
     let n = block_size bl div of_nat (PGSIZE div BLOCK_SECTOR_SIZE);
     ASSERT (mem \<or> n = 0);
     Some (sw\<lparr>swap_block := b, swaptable_size := n,
       swaptable := map (\<lambda>i. \<lparr>swap_index = int i, isfilled = False, instructions_for_pageheld = USELESS, isdirty = False\<rparr>)
         [0..<unat n]\<rparr>)
   }"

definition get_metaswap_entry_byindex :: "swap \<Rightarrow> int \<Rightarrow> metaswap_entry option" where
  "get_metaswap_entry_byindex sw index = do {
     ASSERT (swaptable_size sw > word_of_int index);
     ASSERT (index \<ge> 0);
     if nat index < length (swaptable sw) then Some (swaptable sw ! nat index) else None
   }"

text \<open>The first entry that is not filled, by its place in the table; the code panics when there is none.\<close>

definition next_empty_metaswap_entry :: "swap \<Rightarrow> nat option" where
  "next_empty_metaswap_entry sw = List.find (\<lambda>i. \<not> isfilled (swaptable sw ! i)) [0..<length (swaptable sw)]"

definition move_into_swap :: "swap \<Rightarrow> byte list option \<Rightarrow> load_instruction \<Rightarrow> bool \<Rightarrow> (swap \<times> int) option" where
  "move_into_swap sw page instruction dirty = do {
     buffer \<leftarrow> page;
     k \<leftarrow> next_empty_metaswap_entry sw;
     let e = swaptable sw ! k;
     S \<leftarrow> write_sectors (\<lambda>S s buf. block_write S (swap_block sw) s buf) (sw_blocks sw) (word_of_int (8 * swap_index e))
           (map (\<lambda>i. bytes_at (i * BLOCK_SECTOR_SIZE) BLOCK_SECTOR_SIZE buffer) [0..<8]);
     Some (sw\<lparr>sw_blocks := S,
             swaptable := (swaptable sw)[k := e\<lparr>isfilled := True, instructions_for_pageheld := instruction, isdirty := dirty\<rparr>]\<rparr>,
           swap_index e)
   }"

text \<open>The page read replaces the 4096 bytes at \<^verbatim>\<open>page\<close>; \<open>ok\<close> says that the pointer is not null.\<close>

definition read_from_swap :: "swap \<Rightarrow> int \<Rightarrow> bool \<Rightarrow> (swap \<times> byte list) option" where
  "read_from_swap sw index ok = do {
     ASSERT (index \<noteq> -1);
     ASSERT ok;
     (S, bufs) \<leftarrow> read_sectors (\<lambda>S s. block_read S (swap_block sw) s) (sw_blocks sw) (word_of_int (8 * index)) 8;
     Some (sw\<lparr>sw_blocks := S\<rparr>, concat bufs)
   }"

definition free_metaswap_entry :: "swap \<Rightarrow> int \<Rightarrow> swap option" where
  "free_metaswap_entry sw index = do {
     ASSERT (index \<noteq> -1);
     e \<leftarrow> get_metaswap_entry_byindex sw index;
     ASSERT (isfilled e);
     Some (sw\<lparr>swaptable := (swaptable sw)[nat index := e\<lparr>isfilled := False, instructions_for_pageheld := USELESS\<rparr>]\<rparr>)
   }"

section \<open>Slots as a map\<close>

definition slot_page :: "(block_sector_t \<Rightarrow> byte list) \<Rightarrow> nat \<Rightarrow> byte list" where
  "slot_page c i = concat (map (\<lambda>k. c (of_nat (8 * i + k))) [0..<8])"

definition slots_of :: "swap \<Rightarrow> (block_sector_t \<Rightarrow> byte list) \<Rightarrow> nat \<rightharpoonup> byte list" where
  "slots_of sw c i = (if i < length (swaptable sw) \<and> isfilled (swaptable sw ! i) then Some (slot_page c i) else None)"

text \<open>The table has one entry per slot, numbered, and the slots lie inside the device, whose sectors contain \<open>c\<close>.\<close>

definition swap_ok :: "swap \<Rightarrow> (block_sector_t \<Rightarrow> byte list) \<Rightarrow> bool" where
  "swap_ok sw c \<longleftrightarrow> (\<exists>d off n. dev_holds (swap_block sw) d off n (sw_blocks sw) c \<and> 8 * length (swaptable sw) \<le> unat n)
     \<and> length (swaptable sw) = unat (swaptable_size sw) \<and> (\<forall>i < length (swaptable sw). swap_index (swaptable sw ! i) = int i)"

lemma sector_num:
  assumes "8 * i + 8 \<le> unat (n :: 32 word)" "k < 8"
  shows "unat (word_of_int (8 * int i) :: 32 word) = 8 * i" "unat (word_of_nat (8 * i + k) :: 32 word) = 8 * i + k"
    "(word_of_int (8 * int i) :: 32 word) + word_of_nat k = word_of_nat (8 * i + k)"
proof -
  have lt: "8 * i + k < unat n" using assms by simp
  then show "unat (word_of_nat (8 * i + k) :: 32 word) = 8 * i + k" by (rule unat_of_nat_less)
  have "8 * i < unat n" using assms(1) by simp
  then have "unat (word_of_nat (8 * i) :: 32 word) = 8 * i" by (rule unat_of_nat_less)
  moreover have "(word_of_int (8 * int i) :: 32 word) = word_of_nat (8 * i)" by (metis of_int_of_nat_eq of_nat_mult of_nat_numeral)
  ultimately show "unat (word_of_int (8 * int i) :: 32 word) = 8 * i" by simp
  show "(word_of_int (8 * int i) :: 32 word) + word_of_nat k = word_of_nat (8 * i + k)"
    using \<open>word_of_int (8 * int i) = word_of_nat (8 * i)\<close> by simp
qed

lemma concat_chunks:
  assumes "length (buffer :: byte list) = 4096"
  shows "concat (map (\<lambda>i. bytes_at (i * 512) 512 buffer) [0..<8]) = buffer"
proof -
  have "concat (map (\<lambda>i. bytes_at (i * 512) 512 buffer) [0..<n]) = take (n * 512) buffer" for n
    by (induction n) (simp_all add: bytes_at_def take_add [symmetric] add.commute)
  from this [of 8] show ?thesis using assms by simp
qed

lemma next_empty_Some:
  "next_empty_metaswap_entry sw = Some k \<Longrightarrow> k < length (swaptable sw) \<and> \<not> isfilled (swaptable sw ! k)"
  by (auto simp: next_empty_metaswap_entry_def find_Some_iff)

lemma next_empty_None:
  "next_empty_metaswap_entry sw = None \<longleftrightarrow> (\<forall>k < length (swaptable sw). isfilled (swaptable sw ! k))"
  by (auto simp: next_empty_metaswap_entry_def find_None_iff)

lemma write_slot:
  assumes ok: "swap_ok sw c" and k: "k < length (swaptable sw)" and page: "length buffer = 4096"
  shows "\<exists>S c'. write_sectors (\<lambda>S s buf. block_write S (swap_block sw) s buf) (sw_blocks sw) (word_of_int (8 * int k))
        (map (\<lambda>i. bytes_at (i * BLOCK_SECTOR_SIZE) BLOCK_SECTOR_SIZE buffer) [0..<8]) = Some S
      \<and> swap_ok (sw\<lparr>sw_blocks := S\<rparr>) c' \<and> slot_page c' k = buffer
      \<and> (\<forall>i < length (swaptable sw). i \<noteq> k \<longrightarrow> slot_page c' i = slot_page c i)"
proof -
  let ?bufs = "map (\<lambda>i. bytes_at (i * BLOCK_SECTOR_SIZE) BLOCK_SECTOR_SIZE buffer) [0..<8]" and ?s = "word_of_int (8 * int k) :: 32 word"
  obtain d off n where dev: "dev_holds (swap_block sw) d off n (sw_blocks sw) c" "8 * length (swaptable sw) \<le> unat n"
    using ok by (auto simp: swap_ok_def)
  have in_dev: "8 * i + 8 \<le> unat n" if "i < length (swaptable sw)" for i using that dev(2) by simp
  note num = sector_num [OF in_dev]
  obtain S c' where w: "write_sectors (\<lambda>S s buf. block_write S (swap_block sw) s buf) (sw_blocks sw) ?s ?bufs = Some S"
      "dev_holds (swap_block sw) d off n S c'"
      "\<forall>t. c' t = (if ?s \<le> t \<and> unat t < unat ?s + length ?bufs then ?bufs ! (unat t - unat ?s) else c t)"
    using bd.write_sectors_holds [OF dev(1), of ?s ?bufs] num(1) [OF k, of 0] in_dev [OF k] by auto
  have c': "c' (of_nat (8 * i + j)) = (if i = k then ?bufs ! j else c (of_nat (8 * i + j)))"
    if "i < length (swaptable sw)" "j < 8" for i j
  proof -
    have s: "unat ?s = 8 * k" by (rule num(1) [OF k, of 0]) simp
    have t: "unat (of_nat (8 * i + j) :: 32 word) = 8 * i + j" by (rule num(2) [OF that])
    show ?thesis unfolding w(3) [rule_format] word_le_nat_alt s t using that(2) by (cases "i = k") auto
  qed
  have "slot_page c' k = concat ?bufs"
    using c' [OF k] by (auto simp: slot_page_def intro!: arg_cong [of _ _ concat])
  then have "slot_page c' k = buffer" using concat_chunks [OF page] by (simp only: BLOCK_SECTOR_SIZE_def)
  moreover have "\<forall>i < length (swaptable sw). i \<noteq> k \<longrightarrow> slot_page c' i = slot_page c i"
    using c' by (auto simp: slot_page_def intro!: arg_cong [of _ _ concat])
  moreover have "swap_ok (sw\<lparr>sw_blocks := S\<rparr>) c'" using ok w(2) dev(2) by (auto simp: swap_ok_def)
  ultimately show ?thesis using w(1) by blast
qed

lemma swap_ok_entry:
  assumes "swap_ok sw c" "swap_index e = swap_index (swaptable sw ! k)"
  shows "swap_ok (sw\<lparr>swaptable := (swaptable sw)[k := e]\<rparr>) c"
proof -
  have "\<exists>d off n. dev_holds (swap_block sw) d off n (sw_blocks sw) c \<and> 8 * length (swaptable sw) \<le> unat n"
    using assms(1) unfolding swap_ok_def by blast
  moreover have "swap_index ((swaptable sw)[k := e] ! i) = int i" if "i < length (swaptable sw)" for i
    using assms that by (cases "i = k") (simp_all add: swap_ok_def)
  ultimately show ?thesis using assms(1) by (simp add: swap_ok_def)
qed

lemma move_into_swap_ok:
  assumes ok: "swap_ok sw c" and page: "length buffer = 4096" and free: "k0 < length (swaptable sw)" "\<not> isfilled (swaptable sw ! k0)"
  shows "\<exists>sw' c' k. move_into_swap sw (Some buffer) ins dirty = Some (sw', int k) \<and> swap_ok sw' c' \<and> slots_of sw c k = None
    \<and> slots_of sw' c' = (slots_of sw c)(k \<mapsto> buffer)"
proof -
  obtain k where k: "next_empty_metaswap_entry sw = Some k" using next_empty_None [of sw] free by auto
  note kk = next_empty_Some [OF k]
  obtain S c' where w: "write_sectors (\<lambda>S s buf. block_write S (swap_block sw) s buf) (sw_blocks sw) (word_of_int (8 * int k))
        (map (\<lambda>i. bytes_at (i * BLOCK_SECTOR_SIZE) BLOCK_SECTOR_SIZE buffer) [0..<8]) = Some S"
      "swap_ok (sw\<lparr>sw_blocks := S\<rparr>) c'" "slot_page c' k = buffer"
      "\<forall>i < length (swaptable sw). i \<noteq> k \<longrightarrow> slot_page c' i = slot_page c i"
    using write_slot [OF ok _ page, of k] kk by blast
  let ?e = "(swaptable sw ! k)\<lparr>isfilled := True, instructions_for_pageheld := ins, isdirty := dirty\<rparr>"
  let ?sw = "sw\<lparr>sw_blocks := S, swaptable := (swaptable sw)[k := ?e]\<rparr>"
  have idx: "swap_index (swaptable sw ! k) = int k" using ok kk by (simp add: swap_ok_def)
  have "swap_ok ?sw c'" using swap_ok_entry [OF w(2), of ?e k] by simp
  moreover have "slots_of ?sw c' = (slots_of sw c)(k \<mapsto> buffer)"
    using w(3,4) kk by (auto simp: slots_of_def fun_eq_iff nth_list_update)
  moreover have "move_into_swap sw (Some buffer) ins dirty = Some (?sw, int k)"
    using k w(1) idx by (simp add: move_into_swap_def Let_def)
  moreover have "slots_of sw c k = None" using kk by (simp add: slots_of_def)
  ultimately show ?thesis by blast
qed

lemma read_from_swap_ok:
  assumes ok: "swap_ok sw c" and page: "slots_of sw c k = Some buffer"
  shows "\<exists>sw'. read_from_swap sw (int k) True = Some (sw', buffer) \<and> swap_ok sw' c \<and> slots_of sw' c = slots_of sw c"
proof -
  have k: "k < length (swaptable sw)" "slot_page c k = buffer" using page by (auto simp: slots_of_def split: if_splits)
  obtain d off n where dev: "dev_holds (swap_block sw) d off n (sw_blocks sw) c" "8 * length (swaptable sw) \<le> unat n"
    using ok by (auto simp: swap_ok_def)
  have in_dev: "8 * k + 8 \<le> unat n" using k(1) dev(2) by simp
  let ?s = "word_of_int (8 * int k) :: 32 word"
  obtain S where r: "read_sectors (\<lambda>S s. block_read S (swap_block sw) s) (sw_blocks sw) ?s 8
      = Some (S, map (\<lambda>i. c (?s + word_of_nat i)) [0..<8])" "dev_holds (swap_block sw) d off n S c"
    using bd.read_sectors_holds [OF dev(1), of ?s 8] sector_num(1) [OF in_dev, of 0] in_dev by auto
  have "concat (map (\<lambda>i. c (?s + word_of_nat i)) [0..<8]) = buffer"
    unfolding k(2) [symmetric] slot_page_def
    by (rule arg_cong [of _ _ concat], rule map_cong [OF refl]) (use sector_num(3) [OF in_dev] in simp)
  then have "read_from_swap sw (int k) True = Some (sw\<lparr>sw_blocks := S\<rparr>, buffer)"
    using r(1) by (simp add: read_from_swap_def)
  moreover have "swap_ok (sw\<lparr>sw_blocks := S\<rparr>) c" using ok r(2) dev(2) by (auto simp: swap_ok_def)
  moreover have "slots_of (sw\<lparr>sw_blocks := S\<rparr>) c = slots_of sw c" by (simp add: slots_of_def fun_eq_iff)
  ultimately show ?thesis by blast
qed

lemma free_metaswap_entry_ok:
  assumes ok: "swap_ok sw c" and page: "slots_of sw c k = Some buffer"
  shows "\<exists>sw'. free_metaswap_entry sw (int k) = Some sw' \<and> swap_ok sw' c \<and> slots_of sw' c = (slots_of sw c)(k := None)"
proof -
  have k: "k < length (swaptable sw)" "isfilled (swaptable sw ! k)" using page by (auto simp: slots_of_def split: if_splits)
  then have "k < unat (swaptable_size sw)" using ok by (simp add: swap_ok_def)
  then have "word_of_int (int k) < swaptable_size sw" using unat_of_nat_less [of k "swaptable_size sw"] by (simp add: word_less_nat_alt)
  then have e: "get_metaswap_entry_byindex sw (int k) = Some (swaptable sw ! k)"
    using k(1) by (simp add: get_metaswap_entry_byindex_def)
  let ?sw = "sw\<lparr>swaptable := (swaptable sw)[k := (swaptable sw ! k)\<lparr>isfilled := False, instructions_for_pageheld := USELESS\<rparr>]\<rparr>"
  have "free_metaswap_entry sw (int k) = Some ?sw" using e k by (simp add: free_metaswap_entry_def)
  moreover have "swap_ok ?sw c" by (rule swap_ok_entry [OF ok]) simp
  moreover have "slots_of ?sw c = (slots_of sw c)(k := None)" using k by (auto simp: slots_of_def fun_eq_iff nth_list_update)
  ultimately show ?thesis by blast
qed

section \<open>Properties\<close>

text \<open>One use of the swap table by some process: a page moved out, a page read back, a slot freed other than slot \<open>k\<close>.\<close>

inductive swap_step :: "nat \<Rightarrow> swap \<Rightarrow> swap \<Rightarrow> bool" for k where
  swap_out: "length buffer = 4096 \<Longrightarrow> move_into_swap sw (Some buffer) ins dirty = Some (sw', i) \<Longrightarrow> swap_step k sw sw'"
| swap_in: "slots_of sw c i = Some buffer \<Longrightarrow> read_from_swap sw (int i) True = Some (sw', buffer') \<Longrightarrow> swap_step k sw sw'"
| swap_free: "i \<noteq> k \<Longrightarrow> 0 \<le> i \<Longrightarrow> free_metaswap_entry sw (int i) = Some sw' \<Longrightarrow> swap_step k sw sw'"

lemma move_into_swap_full:
  "move_into_swap sw (Some buffer) ins dirty = Some r \<Longrightarrow> \<exists>i < length (swaptable sw). \<not> isfilled (swaptable sw ! i)"
  using next_empty_None [of sw] by (auto simp: move_into_swap_def split: bind_splits)

lemma free_filled:
  assumes "swap_ok sw c" "free_metaswap_entry sw (int i) = Some sw'"
  shows "\<exists>buffer. slots_of sw c i = Some buffer"
proof -
  obtain e where e: "get_metaswap_entry_byindex sw (int i) = Some e" "isfilled e"
    using assms(2) by (auto simp: free_metaswap_entry_def ASSERT_def split: bind_splits if_splits)
  then have "i < length (swaptable sw)" "swaptable sw ! i = e"
    by (auto simp: get_metaswap_entry_byindex_def ASSERT_def split: if_splits)
  then show ?thesis using e(2) by (simp add: slots_of_def)
qed

lemma swap_step_keeps:
  assumes "swap_step k sw sw'" "swap_ok sw c" "slots_of sw c k = Some page"
  shows "\<exists>c'. swap_ok sw' c' \<and> slots_of sw' c' k = Some page"
  using assms
proof cases
  case (swap_out buffer ins dirty i)
  then obtain k0 where "k0 < length (swaptable sw)" "\<not> isfilled (swaptable sw ! k0)" using move_into_swap_full by blast
  then obtain c' j where "swap_ok sw' c'" "slots_of sw c j = None" "slots_of sw' c' = (slots_of sw c)(j \<mapsto> buffer)"
    using move_into_swap_ok [OF assms(2) swap_out(1), of k0 ins dirty] swap_out(2) by auto
  then show ?thesis using assms(3) by (intro exI [of _ c']) auto
next
  case (swap_in c0 i buffer buffer')
  then have "i < length (swaptable sw)" "isfilled (swaptable sw ! i)" by (auto simp: slots_of_def split: if_splits)
  then have "slots_of sw c i = Some (slot_page c i)" by (simp add: slots_of_def)
  from read_from_swap_ok [OF assms(2) this] show ?thesis using swap_in(2) assms(3) by auto
next
  case (swap_free i)
  obtain buffer where "slots_of sw c i = Some buffer" using free_filled [OF assms(2) swap_free(3)] by blast
  from free_metaswap_entry_ok [OF assms(2) this] show ?thesis using swap_free assms(3) by auto
qed

text \<open>C9. A page moved into swap comes back unchanged: whatever other pages are moved out, read back or freed in between, reading
  the slot that \<^verbatim>\<open>move_into_swap\<close> returned gives the 4096 bytes that were written, and the slot was not in use before.\<close>

theorem swap_round_trip:
  assumes "swap_ok sw c" "length page = 4096" "move_into_swap sw (Some page) ins dirty = Some (sw1, idx)"
    "(swap_step (nat idx))\<^sup>*\<^sup>* sw1 sw2"
  shows "slots_of sw c (nat idx) = None \<and> (\<exists>sw3. read_from_swap sw2 idx True = Some (sw3, page))"
proof -
  obtain k0 where "k0 < length (swaptable sw)" "\<not> isfilled (swaptable sw ! k0)" using move_into_swap_full [OF assms(3)] by blast
  then obtain c1 k where k: "swap_ok sw1 c1" "slots_of sw c k = None" "slots_of sw1 c1 = (slots_of sw c)(k \<mapsto> page)" "idx = int k"
    using move_into_swap_ok [OF assms(1,2), of k0 ins dirty] assms(3) by auto
  have "\<exists>c2. swap_ok sw2 c2 \<and> slots_of sw2 c2 k = Some page"
    using assms(4)
  proof (induction rule: rtranclp_induct)
    case base
    then show ?case using k by auto
  next
    case (step sw' sw'')
    then show ?case using swap_step_keeps k(4) by auto
  qed
  then show ?thesis using read_from_swap_ok k(2,4) by fastforce
qed

section \<open>Concrete instances\<close>

text \<open>Swap on device 1 of the example disk, 100 sectors, twelve slots.\<close>

definition ex_swap :: swap where
  "ex_swap = \<lparr>sw_blocks = ex_blocks, swap_block = 1, swaptable =
     map (\<lambda>i. \<lparr>swap_index = int i, isfilled = False, instructions_for_pageheld = USELESS, isdirty = False\<rparr>) [0..<12], swaptable_size = 12\<rparr>"

lemma ex_swap_ok: "\<exists>c. swap_ok ex_swap c"
proof -
  have "dev_holds 1 0 10 100 ex_blocks (\<lambda>t. media ex_blocks 0 (10 + t))" using ex_dev_1 by (simp add: dev_holds_def)
  then show ?thesis unfolding swap_ok_def
    by (intro exI [of _ "\<lambda>t. media ex_blocks 0 (10 + t)"] conjI exI [of _ "0 :: nat"] exI [of _ 10] exI [of _ 100]) (simp_all add: ex_swap_def)
qed

theorem swap_round_trip_witness:
  "\<exists>sw1 idx sw3. move_into_swap ex_swap (Some (replicate 4096 7)) STACK True = Some (sw1, idx)
     \<and> read_from_swap sw1 idx True = Some (sw3, replicate 4096 7)"
proof -
  obtain c where c: "swap_ok ex_swap c" using ex_swap_ok by blast
  have free: "0 < length (swaptable ex_swap)" "\<not> isfilled (swaptable ex_swap ! 0)" by (simp_all add: ex_swap_def)
  then obtain sw1 idx where "move_into_swap ex_swap (Some (replicate 4096 7)) STACK True = Some (sw1, idx)"
    using move_into_swap_ok [OF c _ free, of "replicate 4096 7" STACK True] by auto
  with swap_round_trip [OF c _ this] show ?thesis by auto
qed

end
