(* ===== verification/Arithmetic.thy ===== *)
theory Arithmetic
  imports Prelude "HOL-Library.Signed_Division"
begin

text \<open>
  64-bit division (\<^verbatim>\<open>src/src/lib/arithmetic.c\<close>) from the 80x86 \<^verbatim>\<open>DIVL\<close> instruction, which divides 64 by 32 bits and traps
  when the quotient needs more than 32 bits.  A trap is the outcome \<open>None\<close>.
\<close>

unbundle bit_operations_syntax

section \<open>The code\<close>

definition divl :: "64 word \<Rightarrow> 32 word \<Rightarrow> 32 word option" where
  "divl n d = (if d = 0 \<or> n div ucast d \<ge> 2 ^ 32 then None else Some (ucast (n div ucast d)))"

definition nlz :: "32 word \<Rightarrow> nat" where
  "nlz x =
     (let (n, x) = (if x \<le> 0x0000FFFF then (16, push_bit 16 x) else (0, x));
          (n, x) = (if x \<le> 0x00FFFFFF then (n + 8, push_bit 8 x) else (n, x));
          (n, x) = (if x \<le> 0x0FFFFFFF then (n + 4, push_bit 4 x) else (n, x));
          (n, x) = (if x \<le> 0x3FFFFFFF then (n + 2, push_bit 2 x) else (n, x))
      in if x \<le> 0x7FFFFFFF then n + 1 else n)"

definition udiv64 :: "64 word \<Rightarrow> 64 word \<Rightarrow> 64 word option" where
  "udiv64 n d =
     (if drop_bit 32 d = 0 then do {
        let b = (2 ^ 32 :: 64 word);
        let n1 = (ucast (drop_bit 32 n) :: 32 word);
        let n0 = (ucast n :: 32 word);
        let d0 = (ucast d :: 32 word);
        if d0 = 0 then None
        else do {
          q \<leftarrow> divl (b * ucast (n1 mod d0) + ucast n0) d0;
          Some (ucast q + b * ucast (n1 div d0))
        }
      }
      else if n < d then Some 0
      else do {
        let d1 = (ucast (drop_bit 32 d) :: 32 word);
        let s = nlz d1;
        q \<leftarrow> divl (drop_bit 1 n) (ucast (drop_bit 32 (push_bit s d)));
        let q = (ucast (drop_bit (31 - s) q) :: 64 word);
        Some (if n - (q - 1) * d < d then q - 1 else q)
      })"

definition umod64 :: "64 word \<Rightarrow> 64 word \<Rightarrow> 32 word option" where
  "umod64 n d = do { q \<leftarrow> udiv64 n d; Some (ucast (n - d * q)) }"

definition sdiv64 :: "64 word \<Rightarrow> 64 word \<Rightarrow> 64 word option" where
  "sdiv64 n d = do {
     let n_abs = (if sint n \<ge> 0 then n else - n);
     let d_abs = (if sint d \<ge> 0 then d else - d);
     q_abs \<leftarrow> udiv64 n_abs d_abs;
     Some (if (sint n < 0) = (sint d < 0) then q_abs else - q_abs)
   }"

definition smod64 :: "64 word \<Rightarrow> 64 word \<Rightarrow> 32 word option" where
  "smod64 n d = do { q \<leftarrow> sdiv64 n d; Some (ucast (n - d * q)) }"

definition divdi3 :: "64 word \<Rightarrow> 64 word \<Rightarrow> 64 word option" where
  "divdi3 n d = sdiv64 n d"

definition moddi3 :: "64 word \<Rightarrow> 64 word \<Rightarrow> 64 word option" where
  "moddi3 n d = map_option (\<lambda>r. word_of_int (sint r)) (smod64 n d)"

definition udivdi3 :: "64 word \<Rightarrow> 64 word \<Rightarrow> 64 word option" where
  "udivdi3 n d = udiv64 n d"

definition umoddi3 :: "64 word \<Rightarrow> 64 word \<Rightarrow> 64 word option" where
  "umoddi3 n d = map_option ucast (umod64 n d)"

section \<open>The quotient estimate\<close>

text \<open>With the divisor scaled to have its top bit set, dividing by its upper half gives the quotient or one more.\<close>

lemma estimate:
  fixes n d :: nat
  assumes d: "2 ^ (63 - s) \<le> d" "d < 2 ^ (64 - s)" and n: "n < 2 ^ 64" and s: "s \<le> 31"
  defines "v \<equiv> d * 2 ^ s div 2 ^ 32" and "q \<equiv> n div 2 div (d * 2 ^ s div 2 ^ 32) div 2 ^ (31 - s)"
  shows "2 ^ 31 \<le> v" "v < 2 ^ 32" "n div d \<le> q" "q \<le> n div d + 1"
proof -
  have split: "(2 :: nat) ^ (63 - s) * 2 ^ s = 2 ^ 63" "(2 :: nat) ^ (64 - s) * 2 ^ s = 2 ^ 64" "(2 :: nat) ^ (32 - s) * 2 ^ s = 2 ^ 32"
    using s by (simp_all add: power_add [symmetric])
  have "2 ^ (63 - s) * 2 ^ s \<le> d * 2 ^ s" "d * 2 ^ s < 2 ^ (64 - s) * 2 ^ s" using d by simp_all
  then have ds: "2 ^ 63 \<le> d * 2 ^ s" "d * 2 ^ s < 2 ^ 64" unfolding split by simp_all
  have "2 ^ 63 div 2 ^ 32 \<le> d * 2 ^ s div 2 ^ 32" using ds(1) by (rule div_le_mono)
  moreover have "d * 2 ^ s div 2 ^ 32 < 2 ^ 32" using ds(2) by (intro less_mult_imp_div_less) simp
  ultimately show v: "2 ^ 31 \<le> v" "v < 2 ^ 32" unfolding v_def by simp_all
  define D where "D = v * 2 ^ (32 - s)"
  have vs: "v * 2 ^ 32 \<le> d * 2 ^ s" "d * 2 ^ s < v * 2 ^ 32 + 2 ^ 32"
  proof -
    have "d * 2 ^ s mod 2 ^ 32 < 2 ^ 32" by simp
    then show "v * 2 ^ 32 \<le> d * 2 ^ s" "d * 2 ^ s < v * 2 ^ 32 + 2 ^ 32"
      unfolding v_def using div_mult_mod_eq [of "d * 2 ^ s" "2 ^ 32"] by linarith+
  qed
  have "D * 2 ^ s = v * 2 ^ 32" unfolding D_def using split(3) by (simp add: mult.assoc)
  then have "D * 2 ^ s \<le> d * 2 ^ s" "d * 2 ^ s < (D + 2 ^ (32 - s)) * 2 ^ s"
    using vs split(3) by (simp_all add: algebra_simps)
  then have Dd: "D \<le> d" "d < D + 2 ^ (32 - s)" by simp_all
  have q: "q = n div D"
  proof -
    have "2 * (v * 2 ^ (31 - s)) = v * 2 ^ Suc (31 - s)" by simp
    also have "Suc (31 - s) = 32 - s" using s by simp
    finally have "D = 2 * (v * 2 ^ (31 - s))" unfolding D_def by (rule sym)
    then show ?thesis unfolding q_def v_def [symmetric] by (simp add: div_mult2_eq)
  qed
  have D0: "2 ^ (63 - s) \<le> D"
  proof -
    have "2 ^ 31 * 2 ^ (32 - s) \<le> D" unfolding D_def using v(1) by simp
    moreover have "31 + (32 - s) = 63 - s" using s by simp
    ultimately show ?thesis by (metis power_add)
  qed
  then have pos: "0 < D" by (meson less_le_trans zero_less_numeral zero_less_power)
  then show "n div d \<le> q" unfolding q using Dd(1) by (simp add: div_le_mono2)
  have "n * (d - D) < d * D"
  proof -
    have "n * (d - D) < 2 ^ (126 - 2 * s)"
    proof (cases "s = 31")
      case True
      then have "d - D \<le> 1" using Dd(2) by simp
      then have "n * (d - D) \<le> n" using mult_le_mono [of n n "d - D" 1] by simp
      then have "n * (d - D) < 2 ^ 64" using n by linarith
      then show ?thesis using True by simp
    next
      case False
      have "n * (d - D) \<le> 2 ^ 64 * (d - D)" using n by simp
      also have "d - D < 2 ^ (32 - s)" using Dd by linarith
      then have "2 ^ 64 * (d - D) < 2 ^ 64 * 2 ^ (32 - s)" by simp
      also have "(2 :: nat) ^ 64 * 2 ^ (32 - s) \<le> 2 ^ (126 - 2 * s)" unfolding power_add [symmetric] using s False by (intro power_increasing) auto
      finally show ?thesis .
    qed
    also have "(2 :: nat) ^ (126 - 2 * s) = 2 ^ (63 - s) * 2 ^ (63 - s)" using s by (simp add: power_add [symmetric])
    also have "\<dots> \<le> d * D" using d(1) D0 by (rule mult_le_mono)
    finally show ?thesis .
  qed
  then have gap: "n * d < d * D + n * D" using Dd(1) by (simp add: diff_mult_distrib2)
  show "q \<le> n div d + 1"
  proof (rule ccontr)
    assume "\<not> q \<le> n div d + 1"
    then have "n div d + 2 \<le> n div D" unfolding q by simp
    then have "(n div d + 2) * D \<le> n" using pos by (simp add: less_eq_div_iff_mult_less_eq)
    then have "(n div d + 2) * D * d \<le> n * d" by simp
    moreover have "n + d < (n div d + 2) * d" 
    proof -
      have "n mod d < d" using pos Dd(1) by (intro mod_less_divisor) linarith
      then show ?thesis using div_mult_mod_eq [of n d] unfolding add_mult_distrib by linarith
    qed
    then have "(n + d) * D < (n div d + 2) * d * D" using pos by simp
    ultimately show False using gap by (simp add: algebra_simps)
  qed
qed

section \<open>Counting leading zeros\<close>

lemma unat_push_bit32:
  assumes "unat (x :: 32 word) < 2 ^ (32 - k)" "k \<le> 32"
  shows "unat (push_bit k x) = unat x * 2 ^ k"
proof -
  have "unat x * 2 ^ k < 2 ^ (32 - k) * 2 ^ k" using assms(1) by simp
  also have "(2 :: nat) ^ (32 - k) * 2 ^ k = 2 ^ 32" using assms(2) by (simp add: power_add [symmetric])
  finally have "unat x * 2 ^ k < 2 ^ 32" .
  moreover have "unat (push_bit k x) = take_bit 32 (push_bit k (unat x))" by (simp add: unsigned_push_bit_eq)
  ultimately show ?thesis by (simp add: push_bit_eq_mult [of k "unat x"] take_bit_nat_eq_self)
qed

text \<open>One step of the binary search: the value keeps its bits, shifted by the count, and gains a larger lower bound.\<close>

lemma nlz_step:
  assumes "unat (x :: 32 word) = m * 2 ^ n" "2 ^ (32 - 2 * k) \<le> unat x" "2 * k \<le> 32" "unat t = 2 ^ (32 - k) - 1"
    and "(n', x') = (if x \<le> t then (n + k, push_bit k x) else (n, x))"
  shows "unat x' = m * 2 ^ n'" "2 ^ (32 - k) \<le> unat x'"
proof -
  have k: "32 - 2 * k + k = 32 - k" using assms(3) by simp
  have "unat x' = m * 2 ^ n' \<and> 2 ^ (32 - k) \<le> unat x'"
  proof (cases "x \<le> t")
    case True
    then have "unat x \<le> 2 ^ (32 - k) - 1" using assms(4) by (simp add: word_le_nat_alt)
    moreover have "0 < (2 :: nat) ^ (32 - k)" by simp
    ultimately have lt: "unat x < 2 ^ (32 - k)" by linarith
    have x': "n' = n + k" "unat x' = unat x * 2 ^ k" using True assms(5) unat_push_bit32 [OF lt] assms(3) by simp_all
    have "2 ^ (32 - 2 * k) * 2 ^ k \<le> unat x'" using x'(2) assms(2) by simp
    then have "2 ^ (32 - k) \<le> unat x'" unfolding power_add [symmetric] k .
    then show ?thesis using assms(1) x' by (simp add: power_add)
  next
    case False
    then show ?thesis using assms(1,4,5) by (auto simp: word_le_nat_alt)
  qed
  then show "unat x' = m * 2 ^ n'" "2 ^ (32 - k) \<le> unat x'" by simp_all
qed

lemma nlz_correct:
  assumes "x \<noteq> 0"
  shows "nlz x \<le> 31" "2 ^ (31 - nlz x) \<le> unat x" "unat x < 2 ^ (32 - nlz x)"
proof -
  obtain n1 :: nat and x1 where 1: "(n1, x1) = (if x \<le> 0x0000FFFF then (16, push_bit 16 x) else (0, x))" by metis
  obtain n2 x2 where 2: "(n2, x2) = (if x1 \<le> 0x00FFFFFF then (n1 + 8, push_bit 8 x1) else (n1, x1))" by metis
  obtain n3 x3 where 3: "(n3, x3) = (if x2 \<le> 0x0FFFFFFF then (n2 + 4, push_bit 4 x2) else (n2, x2))" by metis
  obtain n4 x4 where 4: "(n4, x4) = (if x3 \<le> 0x3FFFFFFF then (n3 + 2, push_bit 2 x3) else (n3, x3))" by metis
  obtain n5 x5 where 5: "(n5, x5) = (if x4 \<le> 0x7FFFFFFF then (n4 + 1, push_bit 1 x4) else (n4, x4))" by metis
  have nlz: "nlz x = n5"
    using 5 unfolding nlz_def Let_def 1 [symmetric] prod.case 2 [symmetric] 3 [symmetric] 4 [symmetric] by (simp split: if_splits)
  have "unat x \<noteq> 0" using assms by (simp add: unat_eq_zero)
  then have s0: "unat x = unat x * 2 ^ 0" "2 ^ (32 - 2 * 16) \<le> unat x" by simp_all
  have start: "(n1, x1) = (if x \<le> 0x0000FFFF then (0 + 16, push_bit 16 x) else (0, x))" using 1 by simp
  have s1: "unat x1 = unat x * 2 ^ n1" "2 ^ (32 - 2 * 8) \<le> unat x1" using nlz_step [OF s0 _ _ start] by simp_all
  have s2: "unat x2 = unat x * 2 ^ n2" "2 ^ (32 - 2 * 4) \<le> unat x2" using nlz_step [OF s1 _ _ 2] by simp_all
  have s3: "unat x3 = unat x * 2 ^ n3" "2 ^ (32 - 2 * 2) \<le> unat x3" using nlz_step [OF s2 _ _ 3] by simp_all
  have s4: "unat x4 = unat x * 2 ^ n4" "2 ^ (32 - 2 * 1) \<le> unat x4" using nlz_step [OF s3 _ _ 4] by simp_all
  have s5: "unat x5 = unat x * 2 ^ n5" "2 ^ 31 \<le> unat x5" using nlz_step [OF s4 _ _ 5] by simp_all
  have top: "unat x * 2 ^ n5 < 2 ^ 32" using unat_less_2p [of x5] s5(1) by simp
  have "n5 < 32"
  proof (rule ccontr)
    assume "\<not> n5 < 32"
    then have "(2 :: nat) ^ 32 \<le> 2 ^ n5" by (intro power_increasing) simp_all
    then have "2 ^ 32 \<le> unat x * 2 ^ n5" using \<open>unat x \<noteq> 0\<close> by (metis One_nat_def Suc_leI mult.left_neutral mult_le_mono not_gr_zero)
    then show False using top by simp
  qed
  then show "nlz x \<le> 31" using nlz by simp
  have "2 ^ (31 - n5) * 2 ^ n5 \<le> unat x * 2 ^ n5" using s5 \<open>n5 < 32\<close> by (simp add: power_add [symmetric])
  then show "2 ^ (31 - nlz x) \<le> unat x" using nlz by simp
  have "unat x * 2 ^ n5 < 2 ^ (32 - n5) * 2 ^ n5" using top \<open>n5 < 32\<close> by (simp add: power_add [symmetric])
  then show "unat x < 2 ^ (32 - nlz x)" using nlz by simp
qed

section \<open>Division\<close>

lemma unat_ucast_up [simp]: "unat (ucast (x :: 32 word) :: 64 word) = unat x"
proof -
  have "unat x < 2 ^ 64" using unat_less_2p [of x] by simp
  then show ?thesis by (simp add: unsigned_ucast_eq take_bit_nat_eq_self)
qed

lemma unat_ucast_down: "unat (ucast (x :: 64 word) :: 32 word) = unat x mod 2 ^ 32"
  by (simp add: unsigned_ucast_eq take_bit_eq_mod)

lemma unat_less_2p64: "unat (x :: 64 word) < 2 ^ 64"
  using unsigned_less [of x] by simp

lemma unat_drop_bit64: "unat (drop_bit k (x :: 64 word)) = unat x div 2 ^ k"
proof -
  have "take_bit 64 (unat x) = unat x" using unat_less_2p64 [of x] by (simp add: take_bit_nat_eq_self)
  then have "unat (drop_bit k x) = drop_bit k (unat x)" by (simp add: unsigned_drop_bit_eq)
  then show ?thesis by (simp add: drop_bit_eq_div [of k "unat x"])
qed

lemma unat_add_64: "unat (x :: 64 word) + unat y < 2 ^ 64 \<Longrightarrow> unat (x + y) = unat x + unat y"
  by (simp add: unat_word_ariths)

lemma unat_mult_64: "unat (x :: 64 word) * unat y < 2 ^ 64 \<Longrightarrow> unat (x * y) = unat x * unat y"
  by (simp add: unat_word_ariths)

lemma divl_correct:
  assumes "d \<noteq> 0" "unat n div unat d < 2 ^ 32"
  shows "\<exists>q. divl n d = Some q \<and> unat q = unat n div unat d"
proof -
  have q: "unat (n div ucast d) = unat n div unat d" by (simp add: unat_div)
  have "unat (2 ^ 32 :: 64 word) = 2 ^ 32" by simp
  then have "\<not> n div ucast d \<ge> 2 ^ 32" using q assms(2) unfolding word_le_nat_alt by linarith
  then show ?thesis using assms q unfolding divl_def by (simp add: unat_ucast_down)
qed

text \<open>A divisor of at most 32 bits: long division in base \<open>2 ^ 32\<close>.\<close>

lemma long_division:
  fixes n d :: nat
  assumes "0 < d"
  shows "n div d = (2 ^ 32 * (n div 2 ^ 32 mod d) + n mod 2 ^ 32) div d + 2 ^ 32 * (n div 2 ^ 32 div d)"
    "(2 ^ 32 * (n div 2 ^ 32 mod d) + n mod 2 ^ 32) div d < 2 ^ 32"
proof -
  define b :: nat where "b = 2 ^ 32"
  let ?m = "b * (n div b mod d) + n mod b"
  have "?m + d * (b * (n div b div d)) = b * (d * (n div b div d) + n div b mod d) + n mod b"
    by (simp only: distrib_left ac_simps)
  also have "\<dots> = n" by (simp only: mult_div_mod_eq)
  finally have "n = ?m + d * (b * (n div b div d))" by (rule sym)
  then have "n div d = ?m div d + b * (n div b div d)" using assms by (metis add.commute div_mult_self2 not_gr_zero)
  then show "n div d = (2 ^ 32 * (n div 2 ^ 32 mod d) + n mod 2 ^ 32) div d + 2 ^ 32 * (n div 2 ^ 32 div d)" by (simp only: b_def)
  have "n mod b < b" by (simp add: b_def)
  moreover have "b * (n div b mod d) \<le> b * (d - 1)" using assms by (intro mult_le_mono) (simp_all add: Suc_leI less_Suc_eq_le [symmetric])
  moreover have "b * (d - 1) + b = b * d" using assms by (cases d) simp_all
  ultimately have "?m < b * d" by linarith
  then show "(2 ^ 32 * (n div 2 ^ 32 mod d) + n mod 2 ^ 32) div d < 2 ^ 32" unfolding b_def [symmetric] by (rule less_mult_imp_div_less)
qed

lemma udiv64_small:
  assumes "d \<noteq> 0" "unat d < 2 ^ 32"
  shows "udiv64 n d = Some (n div d)"
proof -
  let ?n1 = "ucast (drop_bit 32 n) :: 32 word" and ?n0 = "ucast n :: 32 word" and ?d0 = "ucast d :: 32 word"
  have D: "0 < unat d" "unat ?d0 = unat d" using assms by (simp_all add: unat_ucast_down unat_gt_0)
  have "unat n div 2 ^ 32 < 2 ^ 32" using unat_less_2p64 [of n] by (intro less_mult_imp_div_less) simp
  then have n1: "unat ?n1 = unat n div 2 ^ 32" and n0: "unat ?n0 = unat n mod 2 ^ 32" by (simp_all add: unat_ucast_down unat_drop_bit64)
  let ?r = "unat n div 2 ^ 32 mod unat d"
  have m: "unat ((2 ^ 32 :: 64 word) * ucast (?n1 mod ?d0) + ucast ?n0) = 2 ^ 32 * ?r + unat n mod 2 ^ 32"
  proof -
    have r: "unat (?n1 mod ?d0) = ?r" by (simp add: unat_mod n1 D(2))
    have "?r < 2 ^ 32" using assms(2) D(1) mod_less_divisor less_trans by blast
    then have "2 ^ 32 * ?r + unat n mod 2 ^ 32 < 2 ^ 64" using mod_less_divisor [of "2 ^ 32" "unat n"] by simp
    then show ?thesis using r n0 by (subst unat_add_64; subst unat_mult_64) simp_all
  qed
  have fit: "unat ((2 ^ 32 :: 64 word) * ucast (?n1 mod ?d0) + ucast ?n0) div unat ?d0 < 2 ^ 32"
    unfolding m D(2) by (rule long_division(2) [OF D(1)])
  have "?d0 \<noteq> 0" using D by (metis unat_0 not_gr_zero)
  then obtain q where q: "divl (2 ^ 32 * ucast (?n1 mod ?d0) + ucast ?n0) ?d0 = Some q"
      "unat q = (2 ^ 32 * ?r + unat n mod 2 ^ 32) div unat d"
    using divl_correct [OF _ fit] m D(2) by auto
  have "unat n div unat d < 2 ^ 64" using div_le_dividend [of "unat n" "unat d"] unat_less_2p64 [of n] by linarith
  then have sum: "unat q + 2 ^ 32 * (unat n div 2 ^ 32 div unat d) = unat n div unat d" "unat q + 2 ^ 32 * (unat n div 2 ^ 32 div unat d) < 2 ^ 64"
    using long_division(1) [OF D(1), of "unat n"] q(2) by simp_all
  have "unat (ucast q + 2 ^ 32 * ucast (?n1 div ?d0) :: 64 word) = unat n div unat d"
    using sum by (subst unat_add_64; subst unat_mult_64) (simp_all add: unat_div n1 D(2))
  then have "(ucast q + 2 ^ 32 * ucast (?n1 div ?d0) :: 64 word) = n div d" by (simp add: word_unat_eq_iff unat_div)
  moreover have "drop_bit 32 d = 0" using assms(2) by (simp add: word_unat_eq_iff unat_drop_bit64)
  ultimately show ?thesis using q(1) \<open>?d0 \<noteq> 0\<close> by (simp add: udiv64_def)
qed

text \<open>A larger divisor: the estimate, corrected by at most one.\<close>

lemma unat_push_bit64:
  assumes "unat (x :: 64 word) * 2 ^ k < 2 ^ 64"
  shows "unat (push_bit k x) = unat x * 2 ^ k"
proof -
  have "unat (push_bit k x) = take_bit 64 (push_bit k (unat x))" by (simp add: unsigned_push_bit_eq)
  then show ?thesis using assms by (simp add: push_bit_eq_mult [of k "unat x"] take_bit_nat_eq_self)
qed

lemma unat_drop_bit32: "unat (drop_bit k (x :: 32 word)) = unat x div 2 ^ k"
proof -
  have "take_bit 32 (unat x) = unat x" using unat_less_2p [of x] by (simp add: take_bit_nat_eq_self)
  then have "unat (drop_bit k x) = drop_bit k (unat x)" by (simp add: unsigned_drop_bit_eq)
  then show ?thesis by (simp add: drop_bit_eq_div [of k "unat x"])
qed

text \<open>The scale factor: the number of leading zeros of the upper half is that of the divisor.\<close>

lemma scale:
  assumes "2 ^ 32 \<le> unat (d :: 64 word)"
  defines "s \<equiv> nlz (ucast (drop_bit 32 d))"
  shows "s \<le> 31" "2 ^ (63 - s) \<le> unat d" "unat d < 2 ^ (64 - s)"
proof -
  let ?d1 = "ucast (drop_bit 32 d) :: 32 word"
  have "unat d div 2 ^ 32 < 2 ^ 32" using unat_less_2p64 [of d] by (intro less_mult_imp_div_less) simp
  then have d1: "unat ?d1 = unat d div 2 ^ 32" by (simp add: unat_ucast_down unat_drop_bit64)
  moreover have "0 < unat d div 2 ^ 32" using assms(1) by (simp add: div_greater_zero_iff)
  ultimately have "?d1 \<noteq> 0" by (metis unat_0 less_irrefl)
  from nlz_correct [OF this] have n: "s \<le> 31" "2 ^ (31 - s) \<le> unat d div 2 ^ 32" "unat d div 2 ^ 32 < 2 ^ (32 - s)"
    unfolding s_def d1 by simp_all
  show "s \<le> 31" by (rule n(1))
  have e: "31 - s + 32 = 63 - s" "32 - s + 32 = 64 - s" using n(1) by simp_all
  have "2 ^ (31 - s) * 2 ^ 32 \<le> unat d" using n(2) by (simp add: less_eq_div_iff_mult_less_eq)
  then show "2 ^ (63 - s) \<le> unat d" unfolding power_add [symmetric] e .
  have "unat d < 2 ^ (32 - s) * 2 ^ 32" using n(3) by (simp add: div_less_iff_less_mult)
  then show "unat d < 2 ^ (64 - s)" unfolding power_add [symmetric] e .
qed

lemma correct_by_one:
  fixes n d q :: "64 word"
  assumes "0 < unat d" "unat d \<le> unat n" "unat n div unat d \<le> unat q" "unat q \<le> unat n div unat d + 1"
  shows "(if n - (q - 1) * d < d then q - 1 else q) = n div d"
proof -
  let ?Q = "unat n div unat d"
  have "1 \<le> ?Q" using assms(1,2) by (simp add: Suc_le_eq div_greater_zero_iff)
  then have "1 \<le> q" using assms(3) by (simp add: word_le_nat_alt)
  then have q1: "unat (q - 1) = unat q - 1" by (simp add: unat_sub)
  have le: "(unat q - 1) * unat d \<le> unat n"
  proof -
    have "(unat q - 1) * unat d \<le> ?Q * unat d" using assms(4) by (intro mult_le_mono) linarith+
    then show ?thesis using div_times_less_eq_dividend [of "unat n" "unat d"] by linarith
  qed
  then have m: "unat ((q - 1) * d) = (unat q - 1) * unat d" using unat_mult_64 [of "q - 1" d] q1 unat_less_2p64 [of n] by simp
  then have r: "unat (n - (q - 1) * d) = unat n - (unat q - 1) * unat d" using le by (simp add: unat_sub word_le_nat_alt)
  have n: "unat n = ?Q * unat d + unat n mod unat d" "unat n mod unat d < unat d" using assms(1) by simp_all
  consider "unat q = ?Q" | "unat q = ?Q + 1" using assms(3,4) by linarith
  then have "unat (if n - (q - 1) * d < d then q - 1 else q) = ?Q"
  proof cases
    case 1
    have "?Q * unat d = (?Q - 1) * unat d + unat d" using \<open>1 \<le> ?Q\<close> by (cases ?Q) simp_all
    then have "(?Q - 1) * unat d + unat d \<le> unat n" using n(1) by linarith
    then have "unat d \<le> unat n - (unat q - 1) * unat d" using 1 by simp
    then show ?thesis using r 1 by (simp add: word_less_nat_alt)
  next
    case 2
    then have "unat n - (unat q - 1) * unat d < unat d" using n(2) minus_div_mult_eq_mod [of "unat n" "unat d"] by simp
    then show ?thesis using r 2 q1 by (simp add: word_less_nat_alt)
  qed
  then show ?thesis by (simp add: word_unat_eq_iff unat_div)
qed

lemma udiv64_big:
  assumes "2 ^ 32 \<le> unat d" "unat d \<le> unat n"
  shows "udiv64 n d = Some (n div d)"
proof -
  define s where "s = nlz (ucast (drop_bit 32 d))"
  note sc = scale [OF assms(1), folded s_def]
  note est = estimate [OF sc(2,3) unat_less_2p64 [of n] sc(1)]
  let ?v = "unat d * 2 ^ s div 2 ^ 32" and ?w = "ucast (drop_bit 32 (push_bit s d)) :: 32 word"
  have "unat d * 2 ^ s < 2 ^ (64 - s) * 2 ^ s" using sc(3) by simp
  then have "unat d * 2 ^ s < 2 ^ 64" unfolding power_add [symmetric] using sc(1) by simp
  then have w: "unat ?w = ?v" using est(2) by (simp add: unat_ucast_down unat_drop_bit64 unat_push_bit64)
  then have "?w \<noteq> 0" using est(1) by (metis unat_0 not_one_le_zero one_le_numeral one_le_power order_trans)
  moreover have "unat n div 2 < 2 ^ 32 * ?v"
  proof -
    have "unat n div 2 < 2 ^ 63" using unat_less_2p64 [of n] by (intro less_mult_imp_div_less) simp
    also have "(2 :: nat) ^ 63 = 2 ^ 32 * 2 ^ 31" by simp
    also have "\<dots> \<le> 2 ^ 32 * ?v" using est(1) by simp
    finally show ?thesis .
  qed
  then have "unat (drop_bit 1 n) div unat ?w < 2 ^ 32" using w by (simp add: unat_drop_bit64 less_mult_imp_div_less)
  ultimately obtain q where q: "divl (drop_bit 1 n) ?w = Some q" "unat q = unat n div 2 div ?v"
    using divl_correct [of ?w "drop_bit 1 n"] w by (auto simp: unat_drop_bit64)
  let ?q = "ucast (drop_bit (31 - s) q) :: 64 word"
  have uq: "unat ?q = unat n div 2 div ?v div 2 ^ (31 - s)" using q(2) by (simp add: unat_drop_bit32)
  have pos: "0 < unat d" using assms(1) by (metis gr_zeroI not_numeral_le_zero zero_less_numeral zero_less_power less_le_trans)
  have "(if n - (?q - 1) * d < d then ?q - 1 else ?q) = n div d"
    by (rule correct_by_one [OF pos assms(2)]) (use est(3,4) uq in simp_all)
  moreover have "drop_bit 32 d \<noteq> 0" using assms(1) by (auto simp: word_unat_eq_iff unat_drop_bit64 div_eq_0_iff)
  moreover have "\<not> n < d" using assms(2) by (simp add: word_less_nat_alt)
  ultimately show ?thesis using q(1) by (auto simp: udiv64_def s_def [symmetric] Let_def split: if_splits)
qed

lemma udiv64_ok: "udiv64 n d = (if d = 0 then None else Some (n div d))"
proof -
  consider "d = 0" | "d \<noteq> 0" "unat d < 2 ^ 32" | "2 ^ 32 \<le> unat d" "unat d \<le> unat n" | "2 ^ 32 \<le> unat d" "unat n < unat d" by linarith
  then show ?thesis
  proof cases
    case 1
    then show ?thesis by (simp add: udiv64_def)
  next
    case 2
    then show ?thesis by (simp add: udiv64_small)
  next
    case 3
    then show ?thesis using udiv64_big [OF 3] by auto
  next
    case 4
    then have "drop_bit 32 d \<noteq> 0" "n < d" "n div d = 0"
      by (auto simp: word_unat_eq_iff unat_drop_bit64 div_eq_0_iff word_less_nat_alt unat_div)
    then show ?thesis using 4 by (auto simp: udiv64_def)
  qed
qed

section \<open>Signed division\<close>

lemma uint_abs:
  fixes n :: "64 word"
  shows "uint (if sint n \<ge> 0 then n else - n) = \<bar>sint n\<bar>"
proof -
  have "(if sint n \<ge> 0 then n else - n) = word_of_int \<bar>sint n\<bar>" by (simp add: abs_if)
  moreover have "- (2 ^ 63) \<le> sint n" "sint n < 2 ^ 63" using sint_ge [of n] sint_less [of n] by simp_all
  then have "\<bar>sint n\<bar> < 2 ^ 64" by simp
  ultimately show ?thesis by (simp add: uint_word_of_int)
qed

lemma sdiv_abs: "(if (a < 0) = (b < 0) then \<bar>a\<bar> div \<bar>b\<bar> else - (\<bar>a\<bar> div \<bar>b\<bar>)) = (a :: int) sdiv b"
  by (auto simp: signed_divide_int_def sgn_if)

lemma sdiv64_ok:
  assumes "d \<noteq> 0"
  shows "sdiv64 n d = Some (word_of_int (sint n sdiv sint d))"
proof -
  let ?n = "if sint n \<ge> 0 then n else - n" and ?d = "if sint d \<ge> 0 then d else - d"
  have "?d \<noteq> 0" using assms by simp
  moreover have "?n div ?d = word_of_int (\<bar>sint n\<bar> div \<bar>sint d\<bar>)"
    unfolding word_div_def uint_abs ..
  ultimately have "sdiv64 n d = Some (if (sint n < 0) = (sint d < 0) then word_of_int (\<bar>sint n\<bar> div \<bar>sint d\<bar>)
      else - word_of_int (\<bar>sint n\<bar> div \<bar>sint d\<bar>))"
    by (simp only: sdiv64_def udiv64_ok Let_def if_False bind.bind_lunit)
  also have "\<dots> = Some (word_of_int (if (sint n < 0) = (sint d < 0) then \<bar>sint n\<bar> div \<bar>sint d\<bar> else - (\<bar>sint n\<bar> div \<bar>sint d\<bar>)))"
    by simp
  finally show ?thesis unfolding sdiv_abs .
qed

section \<open>Properties\<close>

text \<open>C11. The 64-bit unsigned division computes the quotient for every dividend and every divisor but zero, on which it traps; in
  particular no \<^verbatim>\<open>DIVL\<close> instruction it executes overflows, and the estimated quotient is corrected exactly.\<close>

theorem udivdi3_correct:
  "udivdi3 n d = (if d = 0 then None else Some (n div d))"
  by (simp add: udivdi3_def udiv64_ok)

text \<open>C34. The 64-bit signed division truncates toward zero for all arguments with a divisor that is not zero; the one quotient that
  does not fit, the least number divided by -1, wraps around.\<close>

theorem divdi3_correct:
  assumes "d \<noteq> 0"
  shows "divdi3 n d = Some (word_of_int (sint n sdiv sint d))"
  by (simp add: divdi3_def sdiv64_ok [OF assms])

text \<open>C35. The 64-bit unsigned remainder is cut to 32 bits by the return type of \<^verbatim>\<open>umod64\<close>: it is the remainder modulo
  \<open>2 ^ 32\<close>, so it is wrong exactly when the true remainder has more than 32 bits.\<close>

theorem umoddi3_truncates:
  assumes "d \<noteq> 0"
  shows "\<exists>r. umoddi3 n d = Some r \<and> unat r = (unat n mod unat d) mod 2 ^ 32 \<and> (r = n mod d \<longleftrightarrow> unat n mod unat d < 2 ^ 32)"
proof -
  have "n - d * (n div d) = n mod d" by (simp add: minus_mult_div_eq_mod)
  then have r: "umoddi3 n d = Some (ucast (ucast (n mod d) :: 32 word))"
    using assms by (simp add: umoddi3_def umod64_def udiv64_ok)
  moreover have "unat (ucast (ucast (n mod d) :: 32 word) :: 64 word) = (unat n mod unat d) mod 2 ^ 32"
    by (simp only: unat_ucast_up unat_ucast_down unat_mod)
  moreover from this have "ucast (ucast (n mod d) :: 32 word) = n mod d \<longleftrightarrow> unat n mod unat d < 2 ^ 32"
    by (simp only: word_unat_eq_iff unat_mod mod_eq_self_iff_div_eq_0 div_eq_0_iff) auto
  ultimately show ?thesis by blast
qed

section \<open>Concrete instances\<close>

theorem divdi3_correct_witness: "divdi3 (- 7) 2 = Some (- 3)"
proof -
  have "divdi3 (- 7) 2 = Some (word_of_int (sint (- 7 :: 64 word) sdiv sint (2 :: 64 word)))"
    by (rule divdi3_correct) simp
  then show ?thesis by (simp add: signed_divide_int_def)
qed

theorem umoddi3_truncates_witness: "umoddi3 (2 ^ 33) (2 ^ 34) = Some 0"
proof -
  obtain r where "umoddi3 (2 ^ 33) (2 ^ 34) = Some r" "unat r = (unat (2 ^ 33 :: 64 word) mod unat (2 ^ 34 :: 64 word)) mod 2 ^ 32"
    using umoddi3_truncates [of "2 ^ 34" "2 ^ 33"] by auto
  then show ?thesis by (simp add: unat_eq_0)
qed

end
