(* ===== verification/CString.thy ===== *)
theory CString
  imports Prelude
begin

text \<open>
  Strings and blocks of memory (\<^verbatim>\<open>src/src/lib/string.c\<close>) on a flat memory of bytes.  A null pointer where the code asserts
  otherwise, and a search that never meets the terminator it looks for, are the outcome \<open>None\<close>.  The size of a block is
  a 32-bit word and addresses wrap around.
\<close>

type_synonym memory = "32 word \<Rightarrow> byte"

section \<open>Blocks\<close>

fun copy_up :: "memory \<Rightarrow> 32 word \<Rightarrow> 32 word \<Rightarrow> nat \<Rightarrow> memory" where
  "copy_up m dst src 0 = m"
| "copy_up m dst src (Suc n) = copy_up (m(dst := m src)) (dst + 1) (src + 1) n"

fun copy_down :: "memory \<Rightarrow> 32 word \<Rightarrow> 32 word \<Rightarrow> nat \<Rightarrow> memory" where
  "copy_down m dst src 0 = m"
| "copy_down m dst src (Suc n) = copy_down (m(dst - 1 := m (src - 1))) (dst - 1) (src - 1) n"

definition memcpy :: "memory \<Rightarrow> 32 word \<Rightarrow> 32 word \<Rightarrow> 32 word \<Rightarrow> (memory \<times> 32 word) option" where
  "memcpy m dst src n = do {
     ASSERT (dst \<noteq> 0 \<or> n = 0);
     ASSERT (src \<noteq> 0 \<or> n = 0);
     Some (copy_up m dst src (unat n), dst)
   }"

text \<open>\<^verbatim>\<open>memmove\<close> returns its moving pointer \<^verbatim>\<open>dst\<close>, not the argument \<^verbatim>\<open>dst_\<close>.\<close>

definition memmove :: "memory \<Rightarrow> 32 word \<Rightarrow> 32 word \<Rightarrow> 32 word \<Rightarrow> (memory \<times> 32 word) option" where
  "memmove m dst src n = do {
     ASSERT (dst \<noteq> 0 \<or> n = 0);
     ASSERT (src \<noteq> 0 \<or> n = 0);
     if dst < src then Some (copy_up m dst src (unat n), dst + n)
     else Some (copy_down m (dst + n) (src + n) (unat n), dst + n - n)
   }"

fun memcmp_loop :: "memory \<Rightarrow> 32 word \<Rightarrow> 32 word \<Rightarrow> nat \<Rightarrow> int" where
  "memcmp_loop m a b 0 = 0"
| "memcmp_loop m a b (Suc n) = (if m a \<noteq> m b then (if m a > m b then 1 else -1) else memcmp_loop m (a + 1) (b + 1) n)"

definition memcmp :: "memory \<Rightarrow> 32 word \<Rightarrow> 32 word \<Rightarrow> 32 word \<Rightarrow> int option" where
  "memcmp m a b n = do {
     ASSERT (a \<noteq> 0 \<or> n = 0);
     ASSERT (b \<noteq> 0 \<or> n = 0);
     Some (memcmp_loop m a b (unat n))
   }"

fun memchr_loop :: "memory \<Rightarrow> 32 word \<Rightarrow> byte \<Rightarrow> nat \<Rightarrow> 32 word" where
  "memchr_loop m block ch 0 = 0"
| "memchr_loop m block ch (Suc n) = (if m block = ch then block else memchr_loop m (block + 1) ch n)"

definition memchr :: "memory \<Rightarrow> 32 word \<Rightarrow> 32 word \<Rightarrow> 32 word \<Rightarrow> 32 word option" where
  "memchr m block ch n = do {
     ASSERT (block \<noteq> 0 \<or> n = 0);
     Some (memchr_loop m block (ucast ch) (unat n))
   }"

fun set_up :: "memory \<Rightarrow> 32 word \<Rightarrow> byte \<Rightarrow> nat \<Rightarrow> memory" where
  "set_up m dst v 0 = m"
| "set_up m dst v (Suc n) = set_up (m(dst := v)) (dst + 1) v n"

definition memset :: "memory \<Rightarrow> 32 word \<Rightarrow> 32 word \<Rightarrow> 32 word \<Rightarrow> (memory \<times> 32 word) option" where
  "memset m dst v n = do {
     ASSERT (dst \<noteq> 0 \<or> n = 0);
     Some (set_up m dst (ucast v) (unat n), dst)
   }"

section \<open>Strings\<close>

partial_function (option) strcmp_loop :: "memory \<Rightarrow> 32 word \<Rightarrow> 32 word \<Rightarrow> int option" where
  "strcmp_loop m a b =
     (if m a \<noteq> 0 \<and> m a = m b then strcmp_loop m (a + 1) (b + 1)
      else Some (if m a < m b then -1 else of_bool (m a > m b)))"

definition strcmp :: "memory \<Rightarrow> 32 word \<Rightarrow> 32 word \<Rightarrow> int option" where
  "strcmp m a b = do { ASSERT (a \<noteq> 0); ASSERT (b \<noteq> 0); strcmp_loop m a b }"

partial_function (option) strchr_loop :: "memory \<Rightarrow> 32 word \<Rightarrow> byte \<Rightarrow> 32 word option" where
  "strchr_loop m p c = (if m p = c then Some p else if m p = 0 then Some 0 else strchr_loop m (p + 1) c)"

definition strchr :: "memory \<Rightarrow> 32 word \<Rightarrow> byte \<Rightarrow> 32 word option" where
  "strchr m p c = do { ASSERT (p \<noteq> 0); strchr_loop m p c }"

partial_function (option) strcspn_loop :: "memory \<Rightarrow> 32 word \<Rightarrow> 32 word \<Rightarrow> 32 word \<Rightarrow> 32 word option" where
  "strcspn_loop m p stop len =
     (if m (p + len) \<noteq> 0 then do {
        q \<leftarrow> strchr m stop (m (p + len));
        if q \<noteq> 0 then Some len else strcspn_loop m p stop (len + 1)
      }
      else Some len)"

definition strcspn :: "memory \<Rightarrow> 32 word \<Rightarrow> 32 word \<Rightarrow> 32 word option" where
  "strcspn m p stop = strcspn_loop m p stop 0"

partial_function (option) strpbrk :: "memory \<Rightarrow> 32 word \<Rightarrow> 32 word \<Rightarrow> 32 word option" where
  "strpbrk m p stop =
     (if m p \<noteq> 0 then do {
        q \<leftarrow> strchr m stop (m p);
        if q \<noteq> 0 then Some p else strpbrk m (p + 1) stop
      }
      else Some 0)"

partial_function (option) strrchr_loop :: "memory \<Rightarrow> 32 word \<Rightarrow> byte \<Rightarrow> 32 word \<Rightarrow> 32 word option" where
  "strrchr_loop m s c p = (if m s \<noteq> 0 then strrchr_loop m (s + 1) c (if m s = c then s else p) else Some p)"

definition strrchr :: "memory \<Rightarrow> 32 word \<Rightarrow> byte \<Rightarrow> 32 word option" where
  "strrchr m s c = strrchr_loop m s c 0"

partial_function (option) strspn_loop :: "memory \<Rightarrow> 32 word \<Rightarrow> 32 word \<Rightarrow> 32 word \<Rightarrow> 32 word option" where
  "strspn_loop m p skip len =
     (if m (p + len) \<noteq> 0 then do {
        q \<leftarrow> strchr m skip (m (p + len));
        if q = 0 then Some len else strspn_loop m p skip (len + 1)
      }
      else Some len)"

definition strspn :: "memory \<Rightarrow> 32 word \<Rightarrow> 32 word \<Rightarrow> 32 word option" where
  "strspn m p skip = strspn_loop m p skip 0"

partial_function (option) strlen_loop :: "memory \<Rightarrow> 32 word \<Rightarrow> 32 word option" where
  "strlen_loop m p = (if m p \<noteq> 0 then strlen_loop m (p + 1) else Some p)"

definition strlen :: "memory \<Rightarrow> 32 word \<Rightarrow> 32 word option" where
  "strlen m s = do { ASSERT (s \<noteq> 0); p \<leftarrow> strlen_loop m s; Some (p - s) }"

partial_function (option) strnlen_loop :: "memory \<Rightarrow> 32 word \<Rightarrow> 32 word \<Rightarrow> 32 word \<Rightarrow> 32 word option" where
  "strnlen_loop m p maxlen len = (if m (p + len) \<noteq> 0 \<and> len < maxlen then strnlen_loop m p maxlen (len + 1) else Some len)"

definition strnlen :: "memory \<Rightarrow> 32 word \<Rightarrow> 32 word \<Rightarrow> 32 word option" where
  "strnlen m p maxlen = strnlen_loop m p maxlen 0"

partial_function (option) strstr_loop :: "memory \<Rightarrow> 32 word \<Rightarrow> 32 word \<Rightarrow> 32 word \<Rightarrow> 32 word \<Rightarrow> 32 word \<Rightarrow> 32 word option" where
  "strstr_loop m hay needle hay_len needle_len i =
     (if i \<le> hay_len - needle_len then do {
        r \<leftarrow> memcmp m (hay + i) needle needle_len;
        if r = 0 then Some (hay + i) else strstr_loop m hay needle hay_len needle_len (i + 1)
      }
      else Some 0)"

definition strstr :: "memory \<Rightarrow> 32 word \<Rightarrow> 32 word \<Rightarrow> 32 word option" where
  "strstr m hay needle = do {
     hay_len \<leftarrow> strlen m hay;
     needle_len \<leftarrow> strlen m needle;
     if hay_len \<ge> needle_len then strstr_loop m hay needle hay_len needle_len 0 else Some 0
   }"

text \<open>The two loops of \<^verbatim>\<open>strtok_r\<close>: the first skips delimiters and stops at the end of the string or at the token (with
  \<open>True\<close>), the second runs to the end of the token.\<close>

partial_function (option) skip_delims :: "memory \<Rightarrow> 32 word \<Rightarrow> 32 word \<Rightarrow> (32 word \<times> bool) option" where
  "skip_delims m s delims = do {
     q \<leftarrow> strchr m delims (m s);
     if q \<noteq> 0 then (if m s = 0 then Some (s, False) else skip_delims m (s + 1) delims) else Some (s, True)
   }"

partial_function (option) token_end :: "memory \<Rightarrow> 32 word \<Rightarrow> 32 word \<Rightarrow> 32 word option" where
  "token_end m s delims = do {
     q \<leftarrow> strchr m delims (m s);
     if q = 0 then token_end m (s + 1) delims else Some s
   }"

text \<open>The result is the memory, the new \<^verbatim>\<open>*save_ptr\<close> and the token.\<close>

definition strtok_r :: "memory \<Rightarrow> 32 word \<Rightarrow> 32 word \<Rightarrow> 32 word \<Rightarrow> (memory \<times> 32 word \<times> 32 word) option" where
  "strtok_r m s delims save = do {
     ASSERT (delims \<noteq> 0);
     let s = (if s = 0 then save else s);
     ASSERT (s \<noteq> 0);
     (s, tok) \<leftarrow> skip_delims m s delims;
     if \<not> tok then Some (m, s, 0)
     else do {
       let token = s;
       s \<leftarrow> token_end m s delims;
       if m s \<noteq> 0 then Some (m(s := 0), s + 1, token) else Some (m, s, token)
     }
   }"

definition strlcpy :: "memory \<Rightarrow> 32 word \<Rightarrow> 32 word \<Rightarrow> 32 word \<Rightarrow> (memory \<times> 32 word) option" where
  "strlcpy m dst src n = do {
     ASSERT (dst \<noteq> 0);
     ASSERT (src \<noteq> 0);
     src_len \<leftarrow> strlen m src;
     if n > 0 then do {
       let dst_len = (if src_len < n - 1 then src_len else n - 1);
       (m, _) \<leftarrow> memcpy m dst src dst_len;
       Some (m(dst + dst_len := 0), src_len)
     }
     else Some (m, src_len)
   }"

definition strlcat :: "memory \<Rightarrow> 32 word \<Rightarrow> 32 word \<Rightarrow> 32 word \<Rightarrow> (memory \<times> 32 word) option" where
  "strlcat m dst src n = do {
     ASSERT (dst \<noteq> 0);
     ASSERT (src \<noteq> 0);
     src_len \<leftarrow> strlen m src;
     dst_len \<leftarrow> strlen m dst;
     if n > 0 \<and> dst_len < n then do {
       let copy_cnt = (if src_len < n - dst_len - 1 then src_len else n - dst_len - 1);
       (m, _) \<leftarrow> memcpy m (dst + dst_len) src copy_cnt;
       Some (m(dst + dst_len + copy_cnt := 0), src_len + dst_len)
     }
     else Some (m, src_len + dst_len)
   }"

section \<open>Moving blocks\<close>

lemma copy_up_other: "(\<And>k. k < n \<Longrightarrow> a \<noteq> dst + word_of_nat k) \<Longrightarrow> copy_up m dst src n a = m a"
proof (induction n arbitrary: m dst src)
  case (Suc n)
  have "a \<noteq> dst + 1 + word_of_nat k" if "k < n" for k using Suc.prems [of "Suc k"] that by (simp add: algebra_simps)
  then show ?case using Suc.IH [of "dst + 1"] Suc.prems [of 0] by simp
qed simp

text \<open>Offsets inside a block that does not wrap around are distinct.\<close>

lemma offset_eq:
  assumes "unat (p :: 32 word) + n \<le> 2 ^ 32" "j < n" "k < n"
  shows "p + word_of_nat j = p + word_of_nat k \<longleftrightarrow> j = k"
proof -
  have "j < 2 ^ 32" "k < 2 ^ 32" using assms by simp_all
  then have "unat (word_of_nat j :: 32 word) = j" "unat (word_of_nat k :: 32 word) = k" by (simp_all add: unat_of_nat)
  then show ?thesis by (metis add_left_cancel)
qed

lemma unat_offset: "unat (p :: 32 word) + n \<le> 2 ^ 32 \<Longrightarrow> k < n \<Longrightarrow> unat (p + word_of_nat k) = unat p + k"
  by (simp add: unat_word_ariths unat_of_nat)

lemma copy_up_block:
  assumes "unat dst + n \<le> 2 ^ 32" "unat src + n \<le> 2 ^ 32" "dst < src \<or> unat src + n \<le> unat dst" "k < n"
  shows "copy_up m dst src n (dst + word_of_nat k) = m (src + word_of_nat k)"
  using assms
proof (induction n arbitrary: m dst src k)
  case (Suc n)
  have d1: "n \<noteq> 0 \<Longrightarrow> unat (dst + 1) = unat dst + 1" "n \<noteq> 0 \<Longrightarrow> unat (src + 1) = unat src + 1"
    using unat_offset [OF Suc.prems(1), of 1] unat_offset [OF Suc.prems(2), of 1] by simp_all
  show ?case
  proof (cases k)
    case 0
    have "dst \<noteq> dst + 1 + word_of_nat j" if "j < n" for j
      using offset_eq [OF Suc.prems(1), of 0 "Suc j"] that by (simp add: algebra_simps)
    then show ?thesis using 0 copy_up_other [of n dst "dst + 1"] by simp
  next
    case (Suc j)
    then have j: "j < n" using Suc.prems(4) by simp
    then have "copy_up (m(dst := m src)) (dst + 1) (src + 1) n (dst + 1 + word_of_nat j) = (m(dst := m src)) (src + 1 + word_of_nat j)"
      using Suc.prems d1 by (intro Suc.IH) (auto simp: word_less_nat_alt)
    moreover have "src + 1 + word_of_nat j \<noteq> dst"
      using unat_offset [OF Suc.prems(2), of "Suc j"] j Suc.prems(3) by (auto simp: word_less_nat_alt algebra_simps)
    ultimately show ?thesis using \<open>k = Suc j\<close> by (simp add: algebra_simps)
  qed
qed simp

lemma copy_down_other: "(\<And>k. k < n \<Longrightarrow> a \<noteq> dst - word_of_nat (Suc k)) \<Longrightarrow> copy_down m dst src n a = m a"
proof (induction n arbitrary: m dst src)
  case (Suc n)
  have "a \<noteq> dst - 1 - word_of_nat (Suc k)" if "k < n" for k using Suc.prems [of "Suc k"] that by (simp add: algebra_simps)
  then show ?case using Suc.IH [of "dst - 1"] Suc.prems [of 0] by simp
qed simp

lemma copy_down_block:
  assumes "unat dst + n \<le> 2 ^ 32" "unat src + n \<le> 2 ^ 32" "src \<le> dst \<or> unat dst + n \<le> unat src" "k < n"
  shows "copy_down m (dst + word_of_nat n) (src + word_of_nat n) n (dst + word_of_nat k) = m (src + word_of_nat k)"
  using assms
proof (induction n arbitrary: m k)
  case (Suc n)
  have last: "dst + word_of_nat (Suc n) - 1 = dst + word_of_nat n" "src + word_of_nat (Suc n) - 1 = src + word_of_nat n" by simp_all
  let ?m = "m(dst + word_of_nat n := m (src + word_of_nat n))"
  show ?case
  proof (cases "k = n")
    case True
    have "dst + word_of_nat n \<noteq> dst + word_of_nat n - word_of_nat (Suc j)" if "j < n" for j
    proof -
      have "Suc j < 2 ^ 32" using that Suc.prems(1) by simp
      then have "unat (word_of_nat (Suc j) :: 32 word) = Suc j" by (simp add: unat_of_nat del: of_nat_Suc)
      then have "(word_of_nat (Suc j) :: 32 word) \<noteq> 0" by (metis unat_0 nat.distinct(1))
      then show ?thesis by (simp del: of_nat_Suc)
    qed
    then have "copy_down ?m (dst + word_of_nat n) (src + word_of_nat n) n (dst + word_of_nat n) = ?m (dst + word_of_nat n)"
      by (rule copy_down_other)
    then show ?thesis using True by (simp only: copy_down.simps last fun_upd_same)
  next
    case False
    then have k: "k < n" using Suc.prems(4) by simp
    have "copy_down ?m (dst + word_of_nat n) (src + word_of_nat n) n (dst + word_of_nat k) = ?m (src + word_of_nat k)"
      using Suc.prems k by (intro Suc.IH) auto
    moreover have "src + word_of_nat k \<noteq> dst + word_of_nat n"
      using unat_offset [OF Suc.prems(2), of k] unat_offset [OF Suc.prems(1), of n] k Suc.prems(3) by (auto simp: word_le_nat_alt)
    ultimately show ?thesis by (simp only: copy_down.simps last fun_upd_apply if_False)
  qed
qed simp

section \<open>Strings in memory\<close>

fun str_at :: "memory \<Rightarrow> 32 word \<Rightarrow> byte list \<Rightarrow> bool" where
  "str_at m p [] \<longleftrightarrow> m p = 0"
| "str_at m p (c # cs) \<longleftrightarrow> c \<noteq> 0 \<and> m p = c \<and> str_at m (p + 1) cs"

text \<open>A string that does not run over the end of the address space.\<close>

definition in_space :: "32 word \<Rightarrow> 'a list \<Rightarrow> bool" where
  "in_space p cs \<longleftrightarrow> p \<noteq> 0 \<and> unat p + length cs < 2 ^ 32"

lemma in_space_Cons:
  assumes "in_space p (c # cs)"
  shows "in_space (p + 1) cs" "unat (p + 1) = unat p + 1"
proof -
  show u: "unat (p + 1) = unat p + 1" using assms unat_offset [of p 2 1] by (simp add: in_space_def)
  then have "p + 1 \<noteq> 0" by (metis add_is_0 unat_0 zero_neq_one)
  then show "in_space (p + 1) cs" using u assms by (simp add: in_space_def)
qed

lemma str_at_iff: "str_at m p cs \<longleftrightarrow> (\<forall>k < length cs. m (p + word_of_nat k) = cs ! k) \<and> 0 \<notin> set cs \<and> m (p + word_of_nat (length cs)) = 0"
proof (induction cs arbitrary: p)
  case (Cons c cs)
  have "(\<forall>k < length (c # cs). m (p + word_of_nat k) = (c # cs) ! k) \<longleftrightarrow> m p = c \<and> (\<forall>k < length cs. m (p + 1 + word_of_nat k) = cs ! k)"
    by (auto simp: All_less_Suc2 algebra_simps)
  then show ?case using Cons by (auto simp: algebra_simps)
qed simp

lemma str_at_append: "str_at m p (xs @ ys) \<Longrightarrow> str_at m (p + word_of_nat (length xs)) ys"
  by (induction xs arbitrary: p) (simp, force simp: algebra_simps)

lemma in_space_append:
  assumes "in_space p (xs @ ys)"
  shows "in_space (p + word_of_nat (length xs)) ys" "unat (p + word_of_nat (length xs)) = unat p + length xs"
proof -
  show u: "unat (p + word_of_nat (length xs)) = unat p + length xs"
    using assms unat_offset [of p "length xs + 1" "length xs"] by (simp add: in_space_def)
  have "0 < unat p" using assms by (simp add: in_space_def unat_gt_0)
  then have "p + word_of_nat (length xs) \<noteq> 0" using u by (metis add_is_0 less_irrefl unat_0)
  then show "in_space (p + word_of_nat (length xs)) ys" using assms u by (simp add: in_space_def)
qed

lemma strchr_ok:
  assumes "str_at m p ds" "in_space p ds"
  shows "\<exists>q. strchr m p c = Some q \<and> (q \<noteq> 0 \<longleftrightarrow> c = 0 \<or> c \<in> set ds)"
proof -
  have "\<exists>q. strchr_loop m p c = Some q \<and> (q \<noteq> 0 \<longleftrightarrow> c = 0 \<or> c \<in> set ds)"
    using assms
  proof (induction ds arbitrary: p)
    case Nil
    then show ?case by (subst strchr_loop.simps) (auto simp: in_space_def)
  next
    case (Cons d ds)
    then show ?case using Cons.IH [of "p + 1"] in_space_Cons [OF Cons.prems(2)]
      by (subst strchr_loop.simps) (auto simp: in_space_def)
  qed
  then show ?thesis using assms(2) by (simp add: strchr_def in_space_def)
qed

lemma skip_delims_ok:
  assumes "str_at m d ds" "in_space d ds" "str_at m s cs"
  shows "skip_delims m s d = Some (s + word_of_nat (length (takeWhile (\<lambda>c. c \<in> set ds) cs)), dropWhile (\<lambda>c. c \<in> set ds) cs \<noteq> [])"
  using assms(3)
proof (induction cs arbitrary: s)
  case Nil
  then show ?case using strchr_ok [OF assms(1,2), of "m s"] by (subst skip_delims.simps) auto
next
  case (Cons c cs)
  then show ?case using strchr_ok [OF assms(1,2), of "m s"] Cons.IH [of "s + 1"]
    by (subst skip_delims.simps) (auto simp: algebra_simps)
qed

lemma token_end_ok:
  assumes "str_at m d ds" "in_space d ds" "str_at m s cs"
  shows "token_end m s d = Some (s + word_of_nat (length (takeWhile (\<lambda>c. c \<notin> set ds) cs)))"
  using assms(3)
proof (induction cs arbitrary: s)
  case Nil
  then show ?case using strchr_ok [OF assms(1,2), of "m s"] by (subst token_end.simps) auto
next
  case (Cons c cs)
  then show ?case using strchr_ok [OF assms(1,2), of "m s"] Cons.IH [of "s + 1"]
    by (subst token_end.simps) (auto simp: algebra_simps)
qed

text \<open>Overwriting a character by a terminator cuts a string in two.\<close>

lemma str_at_cut:
  assumes "str_at m p (xs @ c # ys)" "in_space p (xs @ c # ys)"
  defines "q \<equiv> p + word_of_nat (length xs)"
  shows "str_at (m(q := 0)) p xs" "str_at (m(q := 0)) (q + 1) ys"
proof -
  have ne: "p + word_of_nat k \<noteq> q" if "k \<le> length (xs @ c # ys)" "k \<noteq> length xs" for k
    unfolding q_def using that assms(2) offset_eq [of p "length (xs @ c # ys) + 1" k "length xs"] by (simp add: in_space_def)
  have pos: "q + 1 + word_of_nat k = p + word_of_nat (length xs + 1 + k)" for k by (simp add: q_def algebra_simps)
  have old: "m (p + word_of_nat k) = (xs @ c # ys) ! k" if "k < length (xs @ c # ys)" for k using assms(1) that unfolding str_at_iff by blast
  show "str_at (m(q := 0)) p xs"
    unfolding str_at_iff using assms(1) ne old by (auto simp: str_at_iff q_def nth_append)
  have "(m(q := 0)) (q + 1 + word_of_nat k) = ys ! k" if "k < length ys" for k
    unfolding pos using ne [of "length xs + 1 + k"] old [of "length xs + 1 + k"] that by (simp add: nth_append)
  moreover have "(m(q := 0)) (q + 1 + word_of_nat (length ys)) = 0"
    unfolding pos using ne [of "length xs + 1 + length ys"] assms(1) by (simp add: str_at_iff)
  ultimately show "str_at (m(q := 0)) (q + 1) ys" unfolding str_at_iff using assms(1) by (auto simp: str_at_iff)
qed

lemma str_at_other:
  assumes "str_at m d ds" "\<And>k. k \<le> length ds \<Longrightarrow> q \<noteq> d + word_of_nat k"
  shows "str_at (m(q := v)) d ds"
proof -
  have "(m(q := v)) (d + word_of_nat k) = m (d + word_of_nat k)" if "k \<le> length ds" for k using assms(2) [OF that] by auto
  then show ?thesis using assms(1) unfolding str_at_iff by auto
qed

section \<open>Tokens\<close>

text \<open>The way callers use \<^verbatim>\<open>strtok_r\<close>: on the string, then on a null pointer until no token is left.\<close>

partial_function (option) strtok_all :: "memory \<Rightarrow> 32 word \<Rightarrow> 32 word \<Rightarrow> 32 word \<Rightarrow> (memory \<times> 32 word list) option" where
  "strtok_all m s delims save = do {
     (m, save, token) \<leftarrow> strtok_r m s delims save;
     if token = 0 then Some (m, [])
     else do {
       (m, ps) \<leftarrow> strtok_all m 0 delims save;
       Some (m, token # ps)
     }
   }"

text \<open>The maximal runs of characters that are not delimiters.\<close>

function split_tokens :: "byte set \<Rightarrow> byte list \<Rightarrow> byte list list" where
  "split_tokens D cs =
     (let rest = dropWhile (\<lambda>c. c \<in> D) cs
      in if rest = [] then [] else takeWhile (\<lambda>c. c \<notin> D) rest # split_tokens D (tl (dropWhile (\<lambda>c. c \<notin> D) rest)))"
  by auto
termination
proof (relation "measure (length \<circ> snd)")
  fix D :: "byte set" and cs rest
  assume rest: "rest = dropWhile (\<lambda>c. c \<in> D) cs" "rest \<noteq> []"
  have "length (dropWhile (\<lambda>c. c \<notin> D) rest) \<le> length rest" by (rule length_dropWhile_le)
  moreover have "0 < length rest" using rest(2) by simp
  ultimately have "length (tl (dropWhile (\<lambda>c. c \<notin> D) rest)) < length rest" unfolding length_tl by linarith
  moreover have "length rest \<le> length cs" using rest(1) length_dropWhile_le by blast
  ultimately show "((D, tl (dropWhile (\<lambda>c. c \<notin> D) rest)), D, cs) \<in> measure (length \<circ> snd)" by simp
qed simp

declare split_tokens.simps [simp del]

text \<open>A block that the string occupies, its terminator included.\<close>

definition apart :: "32 word \<Rightarrow> 'a list \<Rightarrow> 32 word \<Rightarrow> 'b list \<Rightarrow> bool" where
  "apart p cs q ds \<longleftrightarrow> unat p + length cs < unat q \<or> unat q + length ds < unat p"

lemma apart_addr:
  assumes "apart p cs q ds" "in_space p cs" "in_space q ds" "j \<le> length cs" "k \<le> length ds"
  shows "p + word_of_nat j \<noteq> q + word_of_nat k"
proof -
  have "unat (p + word_of_nat j) = unat p + j" "unat (q + word_of_nat k) = unat q + k"
    using assms(2-5) unat_offset [of p "length cs + 1" j] unat_offset [of q "length ds + 1" k] by (simp_all add: in_space_def)
  then show ?thesis using assms(1,4,5) by (auto simp: apart_def)
qed

lemma strtok_r_ok:
  assumes d: "str_at m d ds" "in_space d ds" and s: "str_at m s cs" "in_space s cs" and start: "s0 = s \<or> s0 = 0 \<and> save = s"
  defines "pre \<equiv> takeWhile (\<lambda>c. c \<in> set ds) cs" and "rest \<equiv> dropWhile (\<lambda>c. c \<in> set ds) cs"
  defines "tok \<equiv> takeWhile (\<lambda>c. c \<notin> set ds) rest" and "rem \<equiv> dropWhile (\<lambda>c. c \<notin> set ds) rest"
  shows "strtok_r m s0 d save =
    (if rest = [] then Some (m, s + word_of_nat (length pre), 0)
     else if rem = [] then Some (m, s + word_of_nat (length pre) + word_of_nat (length tok), s + word_of_nat (length pre))
     else Some (m(s + word_of_nat (length pre) + word_of_nat (length tok) := 0),
                s + word_of_nat (length pre) + word_of_nat (length tok) + 1, s + word_of_nat (length pre)))"
proof -
  have cs: "cs = pre @ rest" and rest: "rest = tok @ rem" by (simp_all add: pre_def rest_def tok_def rem_def)
  let ?t = "s + word_of_nat (length pre)"
  have t: "str_at m ?t rest" using str_at_append [of m s pre rest] s(1) cs by simp
  have e: "str_at m (?t + word_of_nat (length tok)) rem" using str_at_append [of m ?t tok rem] t rest by simp
  then have "m (?t + word_of_nat (length tok)) = 0 \<longleftrightarrow> rem = []" by (cases rem) auto
  then show ?thesis
    using skip_delims_ok [OF d s(1)] token_end_ok [OF d t] start d(2) s(2)
    unfolding strtok_r_def in_space_def pre_def [symmetric] rest_def [symmetric] tok_def [symmetric] by auto
qed

text \<open>The state after a token has been cut off.\<close>

lemma strtok_cut:
  assumes d: "str_at m d ds" "in_space d ds" and s: "str_at m s (pre @ tok @ c # rem)" "in_space s (pre @ tok @ c # rem)"
    and ap: "apart s (pre @ tok @ c # rem) d ds"
  defines "t \<equiv> s + word_of_nat (length pre)" and "e \<equiv> s + word_of_nat (length pre) + word_of_nat (length tok)"
  shows "str_at (m(e := 0)) t tok" "str_at (m(e := 0)) (e + 1) rem" "in_space (e + 1) rem"
    "unat (e + 1) = unat s + length pre + length tok + 1" "str_at (m(e := 0)) d ds" "apart (e + 1) rem d ds"
proof -
  have t: "str_at m t (tok @ c # rem)" "in_space t (tok @ c # rem)" "unat t = unat s + length pre"
    using str_at_append [OF s(1)] in_space_append [OF s(2)] by (simp_all add: t_def)
  have e: "e = t + word_of_nat (length tok)" "in_space e (c # rem)" "unat e = unat t + length tok"
    using in_space_append [OF t(2)] by (simp_all add: t_def e_def)
  show "str_at (m(e := 0)) t tok" "str_at (m(e := 0)) (e + 1) rem"
    using str_at_cut [OF t(1,2)] e(1) by simp_all
  note e1 = in_space_Cons [OF e(2)]
  show "in_space (e + 1) rem" by (rule e1(1))
  show u: "unat (e + 1) = unat s + length pre + length tok + 1" using e1(2) e(3) t(3) by simp
  have "e \<noteq> d + word_of_nat k" if "k \<le> length ds" for k
    using apart_addr [OF ap s(2) d(2) _ that, of "length pre + length tok"] by (simp add: e_def add.assoc)
  then show "str_at (m(e := 0)) d ds" by (rule str_at_other [OF d(1)])
  show "apart (e + 1) rem d ds" using ap u by (auto simp: apart_def)
qed

lemma str_at_agree: "str_at m p cs \<Longrightarrow> (\<And>k. k \<le> length cs \<Longrightarrow> m' (p + word_of_nat k) = m (p + word_of_nat k)) \<Longrightarrow> str_at m' p cs"
  unfolding str_at_iff by auto

text \<open>All pointers returned so far keep pointing to their tokens, and nothing outside the string is written.\<close>

lemma strtok_all_ok:
  assumes "str_at m d ds" "in_space d ds" "str_at m s cs" "in_space s cs" "apart s cs d ds" "s0 = s \<or> s0 = 0 \<and> save = s"
  shows "\<exists>m' ps. strtok_all m s0 d save = Some (m', ps) \<and> list_all2 (str_at m') ps (split_tokens (set ds) cs)
    \<and> (\<forall>a. m' a \<noteq> m a \<longrightarrow> unat s \<le> unat a \<and> unat a \<le> unat s + length cs)"
  using assms
proof (induction "set ds" cs arbitrary: m s s0 save rule: split_tokens.induct)
  case (1 cs)
  define pre rest where "pre = takeWhile (\<lambda>c. c \<in> set ds) cs" and "rest = dropWhile (\<lambda>c. c \<in> set ds) cs"
  define tok rem where "tok = takeWhile (\<lambda>c. c \<notin> set ds) rest" and "rem = dropWhile (\<lambda>c. c \<notin> set ds) rest"
  have cs: "cs = pre @ rest" and rest: "rest = tok @ rem" by (simp_all add: pre_def rest_def tok_def rem_def)
  let ?t = "s + word_of_nat (length pre)" and ?e = "s + word_of_nat (length pre) + word_of_nat (length tok)"
  note step = strtok_r_ok [OF "1.prems"(1-4,6), folded pre_def rest_def, folded tok_def rem_def]
  note IH = "1.hyps" [OF rest_def, folded rem_def]
  have t: "in_space ?t rest" "unat ?t = unat s + length pre" "str_at m ?t rest"
    using in_space_append "1.prems"(4) str_at_append [of m s pre rest] "1.prems"(3) cs by auto
  then have e: "in_space ?e rem" "unat ?e = unat ?t + length tok" "str_at m ?e rem"
    using in_space_append [of ?t tok rem] str_at_append [of m ?t tok rem] rest by auto
  have nonnull: "?t \<noteq> 0" "?e \<noteq> 0" using t(1) e(1) by (simp_all add: in_space_def)
  have split: "split_tokens (set ds) cs = (if rest = [] then [] else tok # split_tokens (set ds) (tl rem))"
    by (subst split_tokens.simps) (simp add: Let_def rest_def tok_def rem_def)
  consider "rest = []" | "rest \<noteq> []" "rem = []" | c rem' where "rest \<noteq> []" "rem = c # rem'" by (cases rem) auto
  then show ?case
  proof cases
    case 1
    then show ?thesis using step split by (subst strtok_all.simps) simp
  next
    case 2
    have "strtok_all m 0 d ?e = Some (m, [])"
      using strtok_r_ok [OF "1.prems"(1,2), of ?e "[]" 0 ?e] e(1,3) 2 by (subst strtok_all.simps) simp
    moreover have "split_tokens (set ds) [] = []" by (subst split_tokens.simps) simp
    ultimately show ?thesis using step split 2 t(3) rest nonnull by (subst strtok_all.simps) simp
  next
    case (3 c rem')
    let ?m = "m(?e := 0)"
    have whole: "cs = pre @ tok @ c # rem'" using cs rest 3(2) by simp
    note cut = strtok_cut [OF "1.prems"(1,2) "1.prems"(3-5) [unfolded whole]]
    obtain m' ps where r: "strtok_all ?m 0 d (?e + 1) = Some (m', ps)" "list_all2 (str_at m') ps (split_tokens (set ds) rem')"
        "\<forall>a. m' a \<noteq> ?m a \<longrightarrow> unat (?e + 1) \<le> unat a \<and> unat a \<le> unat (?e + 1) + length rem'"
      using IH [of ?m "?e + 1" 0 "?e + 1"] 3 cut(2,3,5,6) "1.prems"(2) by auto
    have "m' (?t + word_of_nat k) = ?m (?t + word_of_nat k)" if "k \<le> length tok" for k
    proof -
      have "unat (?t + word_of_nat k) = unat ?t + k" using unat_offset [of ?t "length tok + 1" k] that t(1) rest by (simp add: in_space_def)
      then have "unat (?t + word_of_nat k) < unat (?e + 1)" using cut(4) t(2) that by simp
      then show ?thesis using r(3) by (meson not_le)
    qed
    then have "str_at m' ?t tok" by (rule str_at_agree [OF cut(1)])
    moreover have "unat s \<le> unat a \<and> unat a \<le> unat s + length cs" if "m' a \<noteq> m a" for a
      using that r(3) [rule_format, of a] cut(4) e(2) t(2) whole by (cases "a = ?e") auto
    ultimately show ?thesis using step split 3 r(1,2) nonnull by (subst strtok_all.simps) simp
  qed
qed

section \<open>Properties\<close>

text \<open>C20. Calling \<^verbatim>\<open>strtok_r\<close> until it returns a null pointer ends, and yields pointers to exactly the maximal runs of
  characters that are not delimiters, in order, each terminated in place; every earlier token is still intact at the
  end, and no byte outside the string has been written.\<close>

theorem strtok_r_tokens:
  assumes "str_at m d ds" "in_space d ds" "str_at m s cs" "in_space s cs" "apart s cs d ds"
  shows "\<exists>m' ps. strtok_all m s d save = Some (m', ps) \<and> list_all2 (str_at m') ps (split_tokens (set ds) cs)
    \<and> (\<forall>a. m' a \<noteq> m a \<longrightarrow> unat s \<le> unat a \<and> unat a \<le> unat s + length cs)"
  by (rule strtok_all_ok [OF assms]) simp

text \<open>C28. \<^verbatim>\<open>memmove\<close> copies a block even onto one that overlaps it, and changes nothing else.  It does not return the
  destination, though, when that is below the source: it returns the end of the block.\<close>

theorem memmove_correct:
  assumes "dst \<noteq> 0" "src \<noteq> 0" "unat dst + unat n \<le> 2 ^ 32" "unat src + unat n \<le> 2 ^ 32"
  shows "\<exists>m'. memmove m dst src n = Some (m', if dst < src then dst + n else dst)
    \<and> (\<forall>k < unat n. m' (dst + word_of_nat k) = m (src + word_of_nat k))
    \<and> (\<forall>a. (\<forall>k < unat n. a \<noteq> dst + word_of_nat k) \<longrightarrow> m' a = m a)"
proof (cases "dst < src")
  case True
  then show ?thesis
    using assms copy_up_block [OF assms(3,4)] copy_up_other [of "unat n" _ dst] by (simp add: memmove_def)
next
  case False
  let ?m = "copy_down m (dst + n) (src + n) (unat n)"
  have "?m (dst + word_of_nat k) = m (src + word_of_nat k)" if "k < unat n" for k
    using copy_down_block [OF assms(3,4) _ that, of m] False by (simp add: not_less)
  moreover have "?m a = m a" if a: "\<forall>k < unat n. a \<noteq> dst + word_of_nat k" for a
  proof (rule copy_down_other)
    fix k
    assume k: "k < unat n"
    have "(word_of_nat (Suc k) :: 32 word) + word_of_nat (unat n - Suc k) = n"
      unfolding of_nat_add [symmetric] using k by simp
    moreover have "dst + (w + r) - w = dst + r" for w r :: "32 word" by simp
    ultimately have "dst + n - word_of_nat (Suc k) = dst + word_of_nat (unat n - Suc k)" by metis
    moreover have "unat n - Suc k < unat n" using k by simp
    then have "a \<noteq> dst + word_of_nat (unat n - Suc k)" using a by blast
    ultimately show "a \<noteq> dst + n - word_of_nat (Suc k)" by metis
  qed
  ultimately show ?thesis using assms False by (simp add: memmove_def)
qed

section \<open>Concrete instances\<close>

text \<open>The string "ab  c" at 1000 and the delimiter " " at 2000.\<close>

definition ex_mem :: memory where
  "ex_mem = (\<lambda>_. 0)(1000 := 97, 1001 := 98, 1002 := 32, 1003 := 32, 1004 := 99, 2000 := 32)"

theorem strtok_r_tokens_witness:
  "\<exists>m' p q. strtok_all ex_mem 1000 2000 0 = Some (m', [p, q]) \<and> str_at m' p [97, 98] \<and> str_at m' q [99]"
proof -
  have "str_at ex_mem 2000 [32]" "str_at ex_mem 1000 [97, 98, 32, 32, 99]" by (simp_all add: ex_mem_def)
  moreover have "in_space 2000 [32 :: byte]" "in_space 1000 [97, 98, 32, 32, 99 :: byte]" "apart 1000 [97, 98, 32, 32, 99 :: byte] 2000 [32 :: byte]"
    by (simp_all add: in_space_def apart_def)
  moreover have "split_tokens (set [32]) [97, 98, 32, 32, 99] = [[97, 98], [99]]" by (simp add: split_tokens.simps Let_def)
  ultimately show ?thesis
    using strtok_r_tokens [of ex_mem 2000 "[32]" 1000 "[97, 98, 32, 32, 99]" 0] by (auto simp: list_all2_Cons2)
qed

theorem memmove_correct_witness:
  "\<exists>m'. memmove ex_mem 1000 1001 4 = Some (m', 1004) \<and> m' 1000 = 98 \<and> m' 1003 = 99"
proof -
  obtain m' where m': "memmove ex_mem 1000 1001 4 = Some (m', if (1000 :: 32 word) < 1001 then 1000 + 4 else 1000)"
      "\<forall>k < unat (4 :: 32 word). m' (1000 + word_of_nat k) = ex_mem (1001 + word_of_nat k)"
    using memmove_correct [of 1000 1001 4 ex_mem] by auto
  have "m' 1000 = ex_mem 1001" "m' 1003 = ex_mem 1004" using m'(2) [rule_format, of 0] m'(2) [rule_format, of 3] by simp_all
  then show ?thesis using m'(1) by (simp add: ex_mem_def)
qed

end
