(* ===== verification/Stdlib.thy ===== *)
theory Stdlib
  imports Prelude "HOL-Library.Multiset"
begin

text \<open>
  Conversion, sorting and searching (\<^verbatim>\<open>src/src/lib/stdlib.c\<close>): \<^verbatim>\<open>atoi\<close>, heap sort and binary search.  An array is the list of
  its elements; the elements are numbered from 1 in the heap, as in the code, in 32 bits.  The comparison function the caller
  passes is a parameter.
\<close>

section \<open>Conversion\<close>

definition isspace :: "byte \<Rightarrow> bool" where
  "isspace c \<longleftrightarrow> c = 32 \<or> c = 12 \<or> c = 10 \<or> c = 13 \<or> c = 9 \<or> c = 11"

definition isdigit :: "byte \<Rightarrow> bool" where
  "isdigit c \<longleftrightarrow> 48 \<le> c \<and> c \<le> 57"

text \<open>The loop over the digits; the value is kept negative, in 32 bits.\<close>

fun digits_loop :: "byte list \<Rightarrow> 32 word \<Rightarrow> 32 word" where
  "digits_loop [] v = v"
| "digits_loop (c # cs) v = (if isdigit c then digits_loop cs (v * 10 - (ucast c - 48)) else v)"

definition atoi :: "byte list \<Rightarrow> 32 word" where
  "atoi s =
     (let s = dropWhile isspace s;
          (negative, s) = (case s of c # cs \<Rightarrow> if c = 43 then (False, cs) else if c = 45 then (True, cs) else (False, s) | [] \<Rightarrow> (False, s));
          v = digits_loop s 0
      in if negative then v else - v)"

section \<open>Sorting\<close>

text \<open>Element numbers are of type \<^verbatim>\<open>size_t\<close>, 32 bits wide, and start at 1; an access to an element the array does not have is
  \<open>None\<close>.\<close>

definition element :: "'a list \<Rightarrow> nat \<Rightarrow> 'a option" where
  "element xs a = (if 1 \<le> a \<and> a \<le> length xs then Some (xs ! (a - 1)) else None)"

definition do_swap :: "'a list \<Rightarrow> nat \<Rightarrow> nat \<Rightarrow> 'a list option" where
  "do_swap xs a b = do {
     x \<leftarrow> element xs a;
     y \<leftarrow> element xs b;
     Some (xs[a - 1 := y, b - 1 := x])
   }"

definition do_compare :: "('a \<Rightarrow> 'a \<Rightarrow> int) \<Rightarrow> 'a list \<Rightarrow> nat \<Rightarrow> nat \<Rightarrow> int option" where
  "do_compare compare xs a b = do {
     x \<leftarrow> element xs a;
     y \<leftarrow> element xs b;
     Some (compare x y)
   }"

text \<open>The largest among element \<open>i\<close> and its children, whose numbers wrap around.\<close>

definition max_child :: "('a \<Rightarrow> 'a \<Rightarrow> int) \<Rightarrow> 'a list \<Rightarrow> nat \<Rightarrow> nat \<Rightarrow> nat option" where
  "max_child compare xs i cnt = do {
     let left = 2 * i mod 2 ^ 32;
     let right = (2 * i + 1) mod 2 ^ 32;
     m \<leftarrow> (if left \<le> cnt then do {
         c \<leftarrow> do_compare compare xs left i;
         Some (if c > 0 then left else i)
       } else Some i);
     if right \<le> cnt then do {
       c \<leftarrow> do_compare compare xs right m;
       Some (if c > 0 then right else m)
     } else Some m
   }"

partial_function (option) heapify :: "('a \<Rightarrow> 'a \<Rightarrow> int) \<Rightarrow> 'a list \<Rightarrow> nat \<Rightarrow> nat \<Rightarrow> 'a list option" where
  "heapify compare xs i cnt = do {
     m \<leftarrow> max_child compare xs i cnt;
     if m = i then Some xs
     else do {
       xs \<leftarrow> do_swap xs i m;
       heapify compare xs m cnt
     }
   }"

fun build_heap :: "('a \<Rightarrow> 'a \<Rightarrow> int) \<Rightarrow> 'a list \<Rightarrow> nat \<Rightarrow> nat \<Rightarrow> 'a list option" where
  "build_heap compare xs cnt 0 = Some xs"
| "build_heap compare xs cnt (Suc i) = do {
     xs \<leftarrow> heapify compare xs (Suc i) cnt;
     build_heap compare xs cnt i
   }"

fun sort_heap :: "('a \<Rightarrow> 'a \<Rightarrow> int) \<Rightarrow> 'a list \<Rightarrow> nat \<Rightarrow> 'a list option" where
  "sort_heap compare xs i =
     (if i > 1 then do {
        xs \<leftarrow> do_swap xs 1 i;
        xs \<leftarrow> heapify compare xs 1 (i - 1);
        sort_heap compare xs (i - 1)
      } else Some xs)"

declare sort_heap.simps [simp del]

definition sort_array :: "('a \<Rightarrow> 'a \<Rightarrow> int) \<Rightarrow> 'a list \<Rightarrow> 'a list option" where
  "sort_array compare xs = do {
     xs \<leftarrow> build_heap compare xs (length xs) (length xs div 2);
     sort_heap compare xs (length xs)
   }"

definition qsort :: "('a \<Rightarrow> 'a \<Rightarrow> int) \<Rightarrow> 'a list \<Rightarrow> 'a list option" where
  "qsort compare xs = sort_array compare xs"

section \<open>Searching\<close>

text \<open>\<open>lo\<close> and \<open>hi\<close> are the pointers \<^verbatim>\<open>first\<close> and \<^verbatim>\<open>last\<close> as element numbers from 0; the result is the number of a matching element.\<close>

function bsearch_loop :: "('k \<Rightarrow> 'a \<Rightarrow> int) \<Rightarrow> 'k \<Rightarrow> 'a list \<Rightarrow> nat \<Rightarrow> nat \<Rightarrow> nat option" where
  "bsearch_loop compare key xs lo hi =
     (if lo < hi then
        (let range = hi - lo;
             middle = lo + range div 2;
             cmp = compare key (xs ! middle)
         in if cmp < 0 then bsearch_loop compare key xs lo middle
            else if cmp > 0 then bsearch_loop compare key xs (middle + 1) hi
            else Some middle)
      else None)"
  by auto
termination
  by (relation "measure (\<lambda>(_, _, _, lo, hi). hi - lo)") auto

declare bsearch_loop.simps [simp del]

definition binary_search :: "('k \<Rightarrow> 'a \<Rightarrow> int) \<Rightarrow> 'k \<Rightarrow> 'a list \<Rightarrow> nat option" where
  "binary_search compare key xs = bsearch_loop compare key xs 0 (length xs)"

definition bsearch :: "('k \<Rightarrow> 'a \<Rightarrow> int) \<Rightarrow> 'k \<Rightarrow> 'a list \<Rightarrow> nat option" where
  "bsearch compare key xs = binary_search compare key xs"

section \<open>Sifting without a machine\<close>

text \<open>What one pass of \<^verbatim>\<open>heapify\<close> does while the numbers of the children fit in 32 bits.\<close>

definition exchange :: "'a list \<Rightarrow> nat \<Rightarrow> nat \<Rightarrow> 'a list" where
  "exchange xs a b = xs[a - 1 := xs ! (b - 1), b - 1 := xs ! (a - 1)]"

definition largest :: "('a \<Rightarrow> 'a \<Rightarrow> int) \<Rightarrow> 'a list \<Rightarrow> nat \<Rightarrow> nat \<Rightarrow> nat" where
  "largest compare xs i cnt =
     (let m = (if 2 * i \<le> cnt \<and> compare (xs ! (2 * i - 1)) (xs ! (i - 1)) > 0 then 2 * i else i)
      in if 2 * i + 1 \<le> cnt \<and> compare (xs ! (2 * i)) (xs ! (m - 1)) > 0 then 2 * i + 1 else m)"

lemma largest_cases: "largest compare xs i cnt = i \<or> largest compare xs i cnt \<in> {2 * i, 2 * i + 1} \<and> largest compare xs i cnt \<le> cnt"
  by (auto simp: largest_def Let_def)

lemma do_swap_exchange:
  "1 \<le> a \<Longrightarrow> a \<le> length xs \<Longrightarrow> 1 \<le> b \<Longrightarrow> b \<le> length xs \<Longrightarrow> do_swap xs a b = Some (exchange xs a b)"
  by (simp add: do_swap_def element_def exchange_def)

lemma max_child_largest:
  assumes "1 \<le> i" "i \<le> cnt" "cnt \<le> length xs" "length xs < 2 ^ 31"
  shows "max_child compare xs i cnt = Some (largest compare xs i cnt)"
proof -
  have "2 * i mod 2 ^ 32 = 2 * i" "(2 * i + 1) mod 2 ^ 32 = 2 * i + 1" using assms by simp_all
  then show ?thesis
    unfolding max_child_def Let_def using assms by (simp add: do_compare_def element_def largest_def Let_def)
qed

lemma heapify_step:
  assumes "1 \<le> i" "i \<le> cnt" "cnt \<le> length xs" "length xs < 2 ^ 31"
  shows "heapify compare xs i cnt = (let m = largest compare xs i cnt in
    if m = i then Some xs else heapify compare (exchange xs i m) m cnt)"
proof -
  have "1 \<le> largest compare xs i cnt" "largest compare xs i cnt \<le> cnt"
    using largest_cases [of compare xs i cnt] assms by auto
  then have "do_swap xs i (largest compare xs i cnt) = Some (exchange xs i (largest compare xs i cnt))"
    using assms by (intro do_swap_exchange) auto
  then show ?thesis
    by (subst heapify.simps) (simp add: max_child_largest [OF assms] Let_def)
qed

section \<open>Heaps\<close>

text \<open>The value of element \<open>i\<close>, counted from 1, under the key \<open>f\<close> that the comparison orders by.\<close>

definition val :: "('a \<Rightarrow> 'b) \<Rightarrow> 'a list \<Rightarrow> nat \<Rightarrow> 'b" where
  "val f xs i = f (xs ! (i - 1))"

definition dominates :: "('a \<Rightarrow> 'b :: linorder) \<Rightarrow> 'a list \<Rightarrow> nat \<Rightarrow> nat \<Rightarrow> nat \<Rightarrow> bool" where
  "dominates f xs cnt p j \<longleftrightarrow> (\<forall>c \<in> {2 * j, 2 * j + 1}. c \<le> cnt \<longrightarrow> val f xs c \<le> val f xs p)"

text \<open>Every element from \<open>lo\<close> on is at least as large as its children.\<close>

definition heap_from :: "('a \<Rightarrow> 'b :: linorder) \<Rightarrow> 'a list \<Rightarrow> nat \<Rightarrow> nat \<Rightarrow> bool" where
  "heap_from f xs lo cnt \<longleftrightarrow> (\<forall>j \<ge> lo. dominates f xs cnt j j)"

text \<open>\dots{} except for element \<open>i\<close>, whose children are still below its parent.\<close>

definition heap_except :: "('a \<Rightarrow> 'b :: linorder) \<Rightarrow> 'a list \<Rightarrow> nat \<Rightarrow> nat \<Rightarrow> nat \<Rightarrow> bool" where
  "heap_except f xs lo i cnt \<longleftrightarrow> (\<forall>j \<ge> lo. j \<noteq> i \<longrightarrow> dominates f xs cnt j j) \<and> (lo \<le> i div 2 \<longrightarrow> dominates f xs cnt (i div 2) i)"

definition orders :: "('a \<Rightarrow> 'a \<Rightarrow> int) \<Rightarrow> ('a \<Rightarrow> 'b :: linorder) \<Rightarrow> bool" where
  "orders compare f \<longleftrightarrow> (\<forall>a b. (compare a b > 0) = (f b < f a))"

lemma val_swap:
  assumes "1 \<le> a" "a \<le> length xs" "1 \<le> b" "b \<le> length xs" "1 \<le> i"
  shows "val f (exchange xs a b) i = (if i = a then val f xs b else if i = b then val f xs a else val f xs i)"
  using assms by (auto simp: val_def exchange_def nth_list_update)

lemma length_exchange [simp]: "length (exchange xs a b) = length xs"
  by (simp add: exchange_def)

lemma swap_perm:
  assumes "1 \<le> a" "a \<le> cnt" "1 \<le> b" "b \<le> cnt" "cnt \<le> length xs"
  shows "mset (take cnt (exchange xs a b)) = mset (take cnt xs)" "drop cnt (exchange xs a b) = drop cnt xs"
proof -
  have "take cnt (exchange xs a b) = (take cnt xs)[a - 1 := take cnt xs ! (b - 1), b - 1 := take cnt xs ! (a - 1)]"
    using assms by (simp add: exchange_def take_update_swap)
  moreover have "a - 1 < length (take cnt xs)" "b - 1 < length (take cnt xs)" using assms by simp_all
  ultimately show "mset (take cnt (exchange xs a b)) = mset (take cnt xs)" by (simp only: mset_swap)
  show "drop cnt (exchange xs a b) = drop cnt xs" using assms by (simp add: exchange_def drop_update_cancel)
qed

lemma largest_max:
  assumes "orders compare f"
  shows "val f xs i \<le> val f xs (largest compare xs i cnt)" "dominates f xs cnt (largest compare xs i cnt) i"
  using assms by (auto simp: orders_def largest_def val_def dominates_def Let_def)

lemma heap_except_swap:
  assumes h: "heap_except f xs lo i cnt" and ord: "orders compare f" and i: "1 \<le> lo" "lo \<le> i" "cnt \<le> length xs"
    and m: "m = largest compare xs i cnt" "m \<noteq> i"
  shows "heap_except f (exchange xs i m) lo m cnt"
proof -
  have mc: "m = 2 * i \<or> m = 2 * i + 1" "m \<le> cnt" using largest_cases [of compare xs i cnt] m by auto
  have v: "val f (exchange xs i m) j = (if j = i then val f xs m else if j = m then val f xs i else val f xs j)" if "1 \<le> j" for j
    using that i mc by (intro val_swap) auto
  have top: "val f xs i \<le> val f xs m" "dominates f xs cnt m i" unfolding m(1) by (rule largest_max [OF ord])+
  have "dominates f (exchange xs i m) cnt j j" if j: "lo \<le> j" "j \<noteq> m" for j
  proof (cases "j = i")
    case True
    then show ?thesis using top i mc v unfolding dominates_def by auto
  next
    case False
    then have d: "dominates f xs cnt j j" using h j by (simp add: heap_except_def)
    have j1: "1 \<le> j" using i j by simp
    show ?thesis
    proof (cases "i = 2 * j \<or> i = 2 * j + 1")
      case True
      then have "i div 2 = j" by auto
      then have "dominates f xs cnt j i" using h j(1) by (auto simp: heap_except_def)
      then have "val f xs m \<le> val f xs j" using mc by (auto simp: dominates_def)
      moreover have "m \<noteq> 2 * j" "m \<noteq> 2 * j + 1" using mc(1) False by auto
      ultimately show ?thesis using d False j j1 i v unfolding dominates_def by auto
    next
      case other: False
      moreover have "m \<noteq> 2 * j" "m \<noteq> 2 * j + 1" using mc(1) False by auto
      ultimately show ?thesis using d False j j1 v unfolding dominates_def by auto
    qed
  qed
  moreover have "dominates f (exchange xs i m) cnt (m div 2) m"
  proof -
    have "m div 2 = i" using mc(1) by auto
    moreover have "dominates f xs cnt m m" using h m(2) i mc(1) by (auto simp: heap_except_def)
    moreover have "m \<noteq> 2 * m" "m \<noteq> 2 * m + 1" "i \<noteq> 2 * m" "i \<noteq> 2 * m + 1" using mc(1) i by auto
    ultimately show ?thesis using v i unfolding dominates_def by auto
  qed
  ultimately show ?thesis by (simp add: heap_except_def)
qed

text \<open>The first \<open>cnt\<close> elements of two arrays are rearrangements of each other and the rest is the same.\<close>

definition rearranged :: "nat \<Rightarrow> 'a list \<Rightarrow> 'a list \<Rightarrow> bool" where
  "rearranged cnt xs ys \<longleftrightarrow> length ys = length xs \<and> mset (take cnt ys) = mset (take cnt xs) \<and> drop cnt ys = drop cnt xs"

lemma rearranged_refl [simp]: "rearranged cnt xs xs"
  by (simp add: rearranged_def)

lemma rearranged_trans: "rearranged cnt xs ys \<Longrightarrow> rearranged cnt ys zs \<Longrightarrow> rearranged cnt xs zs"
  by (simp add: rearranged_def)

lemma rearranged_exchange:
  "1 \<le> a \<Longrightarrow> a \<le> cnt \<Longrightarrow> 1 \<le> b \<Longrightarrow> b \<le> cnt \<Longrightarrow> cnt \<le> length xs \<Longrightarrow> rearranged cnt xs (exchange xs a b)"
  using swap_perm [of a cnt b xs] by (simp add: rearranged_def)

lemma heapify_ok:
  assumes "heap_except f xs lo i cnt" "orders compare f" "1 \<le> lo" "lo \<le> i" "i \<le> cnt" "cnt \<le> length xs" "length xs < 2 ^ 31"
  shows "\<exists>ys. heapify compare xs i cnt = Some ys \<and> heap_from f ys lo cnt \<and> rearranged cnt xs ys"
  using assms
proof (induction "cnt - i" arbitrary: xs i rule: less_induct)
  case less
  let ?m = "largest compare xs i cnt"
  have i1: "1 \<le> i" using less.prems(3,4) by simp
  note run = heapify_step [OF i1 less.prems(5-7), of compare]
  show ?case
  proof (cases "?m = i")
    case True
    then have "dominates f xs cnt i i" using largest_max(2) [OF less.prems(2), of xs cnt i] by simp
    then have "heap_from f xs lo cnt" using less.prems(1) by (auto simp: heap_from_def heap_except_def)
    then show ?thesis using True run by (simp add: Let_def)
  next
    case False
    then have m: "?m = 2 * i \<or> ?m = 2 * i + 1" "?m \<le> cnt" using largest_cases [of compare xs i cnt] by auto
    have "heap_except f (exchange xs i ?m) lo ?m cnt" by (rule heap_except_swap [OF less.prems(1-4,6) refl False])
    then have "\<exists>ys. heapify compare (exchange xs i ?m) ?m cnt = Some ys \<and> heap_from f ys lo cnt
        \<and> rearranged cnt (exchange xs i ?m) ys"
      using less.prems(2-7) m i1 by (intro less.hyps) auto
    moreover have "rearranged cnt xs (exchange xs i ?m)"
      using m i1 less.prems(5,6) by (intro rearranged_exchange) auto
    ultimately show ?thesis using run False rearranged_trans by (fastforce simp: Let_def)
  qed
qed

lemma build_heap_ok:
  assumes "heap_from f xs (Suc i) cnt" "orders compare f" "cnt \<le> length xs" "i \<le> cnt" "length xs < 2 ^ 31"
  shows "\<exists>ys. build_heap compare xs cnt i = Some ys \<and> heap_from f ys 1 cnt \<and> rearranged cnt xs ys"
  using assms
proof (induction i arbitrary: xs)
  case (Suc i)
  have "heap_except f xs (Suc i) (Suc i) cnt"
    using Suc.prems(1) unfolding heap_from_def heap_except_def by (auto simp: Suc_le_eq)
  then obtain ys where ys: "heapify compare xs (Suc i) cnt = Some ys" "heap_from f ys (Suc i) cnt" "rearranged cnt xs ys"
    using heapify_ok [OF _ Suc.prems(2)] Suc.prems(3-5) by (metis le_refl One_nat_def Suc_le_mono le0)
  then obtain zs where "build_heap compare ys cnt i = Some zs" "heap_from f zs 1 cnt" "rearranged cnt ys zs"
    using Suc.IH [OF ys(2) Suc.prems(2)] Suc.prems(3-5) by (auto simp: rearranged_def)
  then show ?case using ys rearranged_trans by auto
qed simp

text \<open>The first element of a heap is the largest.\<close>

lemma heap_max: "heap_from f xs 1 cnt \<Longrightarrow> 1 \<le> j \<Longrightarrow> j \<le> cnt \<Longrightarrow> val f xs j \<le> val f xs 1"
proof (induction j rule: less_induct)
  case (less j)
  show ?case
  proof (cases "j = 1")
    case False
    then have p: "1 \<le> j div 2" "j div 2 < j" "j div 2 \<le> cnt" using less.prems(2,3) by linarith+
    have "dominates f xs cnt (j div 2) (j div 2)" using less.prems(1) p(1) by (simp add: heap_from_def)
    moreover have "j = 2 * (j div 2) \<or> j = 2 * (j div 2) + 1" by linarith
    ultimately have "val f xs j \<le> val f xs (j div 2)" using less.prems(3) by (auto simp: dominates_def)
    then show ?thesis using less.IH [OF p(2) less.prems(1) p(1,3)] by simp
  qed simp
qed

text \<open>The part beyond \<open>i\<close> is sorted and at least as large as the heap before it.\<close>

definition sorted_beyond :: "('a \<Rightarrow> 'b :: linorder) \<Rightarrow> 'a list \<Rightarrow> nat \<Rightarrow> bool" where
  "sorted_beyond f xs i \<longleftrightarrow> sorted (map f (drop i xs)) \<and> (\<forall>x \<in> set (take i xs). \<forall>y \<in> set (drop i xs). f x \<le> f y)"

lemma heap_max_set:
  assumes "heap_from f xs 1 i" "i \<le> length xs" "1 \<le> i" "x \<in> set (take i xs)"
  shows "f x \<le> f (xs ! 0)"
proof -
  obtain k where "k < i" "x = xs ! k" using assms(2,4) by (auto simp: in_set_conv_nth)
  then show ?thesis using heap_max [OF assms(1), of "Suc k"] by (simp add: val_def)
qed

lemma sorted_beyond_step:
  assumes h: "heap_from f xs 1 (Suc i)" and s: "sorted_beyond f xs (Suc i)" and len: "Suc i \<le> length xs" and i: "1 \<le> i"
  shows "sorted_beyond f (exchange xs 1 (Suc i)) i" "heap_except f (exchange xs 1 (Suc i)) 1 1 i"
proof -
  define ys where "ys = exchange xs 1 (Suc i)"
  have ys: "ys = xs[0 := xs ! i, i := xs ! 0]" by (simp add: ys_def exchange_def)
  have "drop i ys = ys ! i # drop (Suc i) ys" using len by (intro Cons_nth_drop_Suc [symmetric]) (simp add: ys)
  moreover have "ys ! i = xs ! 0" "drop (Suc i) ys = drop (Suc i) xs" using len by (simp_all add: ys drop_update_cancel)
  ultimately have dr: "drop i ys = xs ! 0 # drop (Suc i) xs" by simp
  have perm: "mset (take (Suc i) ys) = mset (take (Suc i) xs)" unfolding ys_def using len i by (intro swap_perm(1)) auto
  have "set (take i ys) \<subseteq> set (take (Suc i) ys)" by (simp add: set_take_subset_set_take)
  then have tk: "set (take i ys) \<subseteq> set (take (Suc i) xs)" using mset_eq_setD [OF perm] by simp
  have max: "f x \<le> f (xs ! 0)" if "x \<in> set (take (Suc i) xs)" for x by (rule heap_max_set [OF h len _ that]) simp
  have "xs ! 0 \<in> set (take (Suc i) xs)" using len by (simp add: in_set_conv_nth) (rule exI [of _ 0], simp)
  then have "f (xs ! 0) \<le> f y" if "y \<in> set (drop (Suc i) xs)" for y using s that by (simp add: sorted_beyond_def)
  then show "sorted_beyond f (exchange xs 1 (Suc i)) i"
    unfolding ys_def [symmetric] sorted_beyond_def dr using s tk max by (auto simp: sorted_beyond_def)
  have v: "val f ys j = val f xs j" if "2 \<le> j" "j \<le> i" for j using that len by (simp add: val_def ys nth_list_update)
  show "heap_except f (exchange xs 1 (Suc i)) 1 1 i"
    unfolding heap_except_def ys_def [symmetric]
  proof (intro conjI allI impI)
    fix j :: nat
    assume j: "1 \<le> j" "j \<noteq> 1"
    then have "dominates f xs (Suc i) j j" using h by (simp add: heap_from_def)
    then show "dominates f ys i j j" using v j unfolding dominates_def by (auto simp: le_Suc_eq)
  qed simp
qed

lemma sort_heap_ok:
  assumes "heap_from f xs 1 i" "sorted_beyond f xs i" "orders compare f" "i \<le> length xs" "length xs < 2 ^ 31"
  shows "\<exists>ys. sort_heap compare xs i = Some ys \<and> sorted (map f ys) \<and> mset ys = mset xs"
  using assms
proof (induction i arbitrary: xs)
  case 0
  then show ?case by (simp add: sort_heap.simps sorted_beyond_def)
next
  case (Suc i)
  show ?case
  proof (cases "1 \<le> i")
    case True
    let ?ys = "exchange xs 1 (Suc i)"
    note step = sorted_beyond_step [OF Suc.prems(1,2,4) True]
    obtain zs where z: "heapify compare ?ys 1 i = Some zs" "heap_from f zs 1 i" "rearranged i ?ys zs"
      using heapify_ok [OF step(2) Suc.prems(3)] True Suc.prems(4,5) by auto
    have "sorted_beyond f zs i"
      using step(1) z(3) mset_eq_setD [of "take i zs" "take i ?ys"] by (simp add: sorted_beyond_def rearranged_def)
    moreover have "i \<le> length zs" "length zs < 2 ^ 31" using z(3) Suc.prems(4,5) by (simp_all add: rearranged_def)
    ultimately obtain us where us: "sort_heap compare zs i = Some us" "sorted (map f us)" "mset us = mset zs"
      using Suc.IH [OF z(2) _ Suc.prems(3)] by blast
    have "mset zs = mset ?ys" using z(3) by (metis append_take_drop_id mset_append rearranged_def)
    moreover have "mset ?ys = mset xs" using swap_perm(1) [of 1 "length xs" "Suc i" xs] Suc.prems(4) by simp
    moreover have "sort_heap compare xs (Suc i) = Some us"
      using True z(1) us(1) do_swap_exchange [of 1 xs "Suc i"] Suc.prems(4) by (simp add: sort_heap.simps [of compare xs "Suc i"])
    ultimately show ?thesis using us by simp
  next
    case False
    then have i: "i = 0" by simp
    then have "sorted (map f xs)" using Suc.prems(2,4) by (cases xs) (auto simp: sorted_beyond_def)
    then show ?thesis using i by (simp add: sort_heap.simps)
  qed
qed

lemma sort_array_ok:
  assumes "orders compare f" "length xs < 2 ^ 31"
  shows "\<exists>ys. sort_array compare xs = Some ys \<and> sorted (map f ys) \<and> mset ys = mset xs"
proof -
  let ?n = "length xs"
  have "heap_from f xs (Suc (?n div 2)) ?n" by (auto simp: heap_from_def dominates_def)
  then obtain ys where h: "build_heap compare xs ?n (?n div 2) = Some ys" "heap_from f ys 1 ?n" "rearranged ?n xs ys"
    using build_heap_ok [OF _ assms(1), of xs "?n div 2" ?n] assms(2) by auto
  have len: "length ys = ?n" "mset ys = mset xs" using h(3) by (auto simp: rearranged_def)
  then have "sorted_beyond f ys ?n" by (simp add: sorted_beyond_def)
  then show ?thesis using sort_heap_ok [OF h(2) _ assms(1)] h(1) len assms(2) by (simp add: sort_array_def)
qed

section \<open>Binary search\<close>

lemma range_split:
  fixes lo m hi :: nat
  assumes "lo \<le> m" "m \<le> hi"
  shows "(\<forall>j. lo \<le> j \<longrightarrow> j < hi \<longrightarrow> P j) \<longleftrightarrow> (\<forall>j. lo \<le> j \<longrightarrow> j < m \<longrightarrow> P j) \<and> (\<forall>j. m \<le> j \<longrightarrow> j < hi \<longrightarrow> P j)"
  using assms by (meson le_trans less_le_trans not_le)

lemma bsearch_loop_ok:
  assumes "\<And>j. lo \<le> j \<Longrightarrow> j < hi \<Longrightarrow> (compare key (xs ! j) = 0) = (k = g (xs ! j)) \<and> (compare key (xs ! j) < 0) = (k < g (xs ! j))"
    and "sorted (map g xs)" "hi \<le> length xs"
  shows "case bsearch_loop compare (key :: 'k) xs lo hi of
      Some i \<Rightarrow> lo \<le> i \<and> i < hi \<and> g (xs ! i) = k
    | None \<Rightarrow> \<forall>j. lo \<le> j \<longrightarrow> j < hi \<longrightarrow> g (xs ! j) \<noteq> (k :: 'b :: linorder)"
  using assms
proof (induction compare key xs lo hi rule: bsearch_loop.induct)
  case (1 compare key xs lo hi)
  show ?case
  proof (cases "lo < hi")
    case False
    then show ?thesis by (subst bsearch_loop.simps) simp
  next
    case True
    let ?mid = "lo + (hi - lo) div 2"
    have mid: "lo \<le> ?mid" "?mid < hi" using True by auto
    note cmp = "1.prems"(1) [OF mid]
    have mono: "g (xs ! i) \<le> g (xs ! j)" if "i \<le> j" "j < length xs" for i j
      using sorted_nth_mono [OF "1.prems"(2), of i j] that by simp
    consider "compare key (xs ! ?mid) < 0" | "compare key (xs ! ?mid) > 0" | "compare key (xs ! ?mid) = 0" by linarith
    then show ?thesis
    proof cases
      case 1
      have "k < g (xs ! ?mid)" using cmp 1 by simp
      then have "\<forall>j. ?mid \<le> j \<longrightarrow> j < hi \<longrightarrow> g (xs ! j) \<noteq> k"
        using mono [of ?mid] "1.prems"(3) by (auto dest: less_le_trans)
      moreover have "case bsearch_loop compare key xs lo ?mid of Some i \<Rightarrow> lo \<le> i \<and> i < ?mid \<and> g (xs ! i) = k
          | None \<Rightarrow> \<forall>j. lo \<le> j \<longrightarrow> j < ?mid \<longrightarrow> g (xs ! j) \<noteq> k"
        using "1.prems" mid 1 True by (intro "1.IH"(1)) auto
      moreover have "bsearch_loop compare key xs lo hi = bsearch_loop compare key xs lo ?mid"
        using True 1 by (subst bsearch_loop.simps) (simp add: Let_def)
      ultimately show ?thesis using mid range_split [of lo ?mid hi "\<lambda>j. g (xs ! j) \<noteq> k"] by (auto split: option.splits)
    next
      case 2
      have gt: "k \<noteq> g (xs ! ?mid)" "\<not> k < g (xs ! ?mid)" using cmp 2 by simp_all
      then have "g (xs ! ?mid) < k" by (simp add: not_less order.strict_iff_order)
      moreover have "?mid < length xs" using mid "1.prems"(3) by linarith
      ultimately have "\<forall>j. lo \<le> j \<longrightarrow> j \<le> ?mid \<longrightarrow> g (xs ! j) \<noteq> k"
        using mono [of _ ?mid] by (auto dest: le_less_trans)
      moreover have "case bsearch_loop compare key xs (?mid + 1) hi of Some i \<Rightarrow> ?mid + 1 \<le> i \<and> i < hi \<and> g (xs ! i) = k
          | None \<Rightarrow> \<forall>j. ?mid + 1 \<le> j \<longrightarrow> j < hi \<longrightarrow> g (xs ! j) \<noteq> k"
        using "1.prems" gt(2) mid 2 True by (intro "1.IH"(2)) auto
      moreover have "bsearch_loop compare key xs lo hi = bsearch_loop compare key xs (?mid + 1) hi"
        using True 2 by (subst bsearch_loop.simps) (simp add: Let_def)
      ultimately show ?thesis
        using mid range_split [of lo "?mid + 1" hi "\<lambda>j. g (xs ! j) \<noteq> k"] by (auto split: option.splits simp: less_Suc_eq_le)
    next
      case 3
      then show ?thesis using True cmp mid by (subst bsearch_loop.simps) (simp add: Let_def)
    qed
  qed
qed

section \<open>Properties\<close>

text \<open>C21. The heap sort of the library sorts: for every comparison function that orders elements by some key and every array of
  fewer than \<open>2 ^ 31\<close> elements, for which the numbers of the children of an element do not wrap around, it ends without
  an access outside the array, and the result is in order and a rearrangement of the array.\<close>

theorem sort_correct:
  assumes "\<forall>a b. (compare a b > 0) = (f b < f a)" and "length xs < 2 ^ 31"
  shows "\<exists>ys. qsort compare xs = Some ys \<and> sorted (map f ys) \<and> mset ys = mset xs"
  unfolding qsort_def by (rule sort_array_ok) (use assms in \<open>simp_all add: orders_def\<close>)

text \<open>C36. Binary search in an array sorted by the key ends, returns the number of an element equal to the key when there is one,
  and a null pointer only when there is none.\<close>

theorem binary_search_correct:
  assumes "\<forall>x \<in> set xs. (compare key x = 0) = (k = g x) \<and> (compare key x < 0) = (k < g x)" "sorted (map g xs)"
  shows "case bsearch compare key xs of Some i \<Rightarrow> i < length xs \<and> g (xs ! i) = k | None \<Rightarrow> \<forall>x \<in> set xs. g x \<noteq> k"
proof -
  have "case bsearch_loop compare key xs 0 (length xs) of Some i \<Rightarrow> 0 \<le> i \<and> i < length xs \<and> g (xs ! i) = k
      | None \<Rightarrow> \<forall>j. 0 \<le> j \<longrightarrow> j < length xs \<longrightarrow> g (xs ! j) \<noteq> k"
    by (rule bsearch_loop_ok) (use assms in auto)
  then show ?thesis
    by (cases "bsearch_loop compare key xs 0 (length xs)") (auto simp: bsearch_def binary_search_def in_set_conv_nth)
qed

section \<open>Concrete instances\<close>

theorem sort_correct_witness:
  "\<exists>ys. qsort (\<lambda>a b :: int. a - b) [3, 1, 2, 1] = Some ys \<and> sorted (map id ys) \<and> mset ys = mset [3, 1, 2, 1]"
  by (rule sort_correct) simp_all

theorem binary_search_correct_witness:
  "case bsearch (\<lambda>k x :: int. k - x) 7 [1, 7, 9] of Some i \<Rightarrow> i < length [1, 7, 9 :: int] \<and> id ([1, 7, 9 :: int] ! i) = 7
     | None \<Rightarrow> False"
proof -
  have "case bsearch (\<lambda>k x :: int. k - x) 7 [1, 7, 9] of Some i \<Rightarrow> i < length [1, 7, 9 :: int] \<and> id ([1, 7, 9 :: int] ! i) = 7
      | None \<Rightarrow> \<forall>x \<in> set [1, 7, 9 :: int]. id x \<noteq> 7"
    by (rule binary_search_correct) (simp, simp)
  then show ?thesis by (cases "bsearch (\<lambda>k x :: int. k - x) 7 [1, 7, 9]") simp_all
qed

end
