(* ===== verification/Rc4.thy ===== *)
theory Rc4
  imports Bytes "HOL-Library.Multiset"
begin

text \<open>
  The pseudo-random number generator of \<^verbatim>\<open>src/src/lib/random.c\<close>: the RC4 stream cipher on the static
  state \<^verbatim>\<open>s\<close>, \<^verbatim>\<open>s_i\<close>, \<^verbatim>\<open>s_j\<close>.  The state is a permutation of the 256 byte values at every moment, so every
  index is in range and no value is lost.
\<close>

section \<open>State and operations\<close>

record rc4 =
  rs :: "byte list"
  s_i :: byte
  s_j :: byte
  inited :: bool

definition swap_byte :: "byte list \<Rightarrow> nat \<Rightarrow> nat \<Rightarrow> byte list" where
  "swap_byte s a b = (let t = s ! a; s' = s[a := s ! b] in s'[b := t])"

definition seed_byte :: "32 word \<Rightarrow> nat \<Rightarrow> byte" where
  "seed_byte seed i = ucast (drop_bit (8 * (i mod 4)) seed)"

fun key_loop :: "32 word \<Rightarrow> nat \<Rightarrow> nat \<Rightarrow> byte list \<Rightarrow> byte \<Rightarrow> byte list" where
  "key_loop seed 0 i s j = s"
| "key_loop seed (Suc n) i s j =
     (let j = j + (s ! i + seed_byte seed i) in key_loop seed n (Suc i) (swap_byte s i (unat j)) j)"

definition init_bytes :: "byte list" where
  "init_bytes = map of_nat [0..<256]"

definition random_init :: "rc4 \<Rightarrow> 32 word \<Rightarrow> rc4" where
  "random_init r seed =
     r\<lparr>rs := key_loop seed 256 0 init_bytes 0, s_i := 0, s_j := 0, inited := True\<rparr>"

definition random_byte :: "rc4 \<Rightarrow> rc4 \<times> byte" where
  "random_byte r =
     (let r = r\<lparr>s_i := s_i r + 1\<rparr>;
          r = r\<lparr>s_j := s_j r + rs r ! unat (s_i r)\<rparr>;
          r = r\<lparr>rs := swap_byte (rs r) (unat (s_i r)) (unat (s_j r))\<rparr>;
          s_k = rs r ! unat (s_i r) + rs r ! unat (s_j r)
      in (r, rs r ! unat s_k))"

fun bytes_loop :: "rc4 \<Rightarrow> nat \<Rightarrow> rc4 \<times> byte list" where
  "bytes_loop r 0 = (r, [])"
| "bytes_loop r (Suc n) =
     (let (r, b) = random_byte r; (r, bs) = bytes_loop r n in (r, b # bs))"

definition random_bytes :: "rc4 \<Rightarrow> nat \<Rightarrow> rc4 \<times> byte list" where
  "random_bytes r sz = bytes_loop (if \<not> inited r then random_init r 0 else r) sz"

definition random_ulong :: "rc4 \<Rightarrow> rc4 \<times> 32 word" where
  "random_ulong r = (let (r, bs) = random_bytes r 4 in (r, of_le32 bs))"

section \<open>The state is a permutation\<close>

definition rc4_perm :: "byte list \<Rightarrow> bool" where
  "rc4_perm s \<longleftrightarrow> length s = 256 \<and> distinct s \<and> set s = UNIV"

definition rc4_ok :: "rc4 \<Rightarrow> bool" where
  "rc4_ok r \<longleftrightarrow> (inited r \<longrightarrow> rc4_perm (rs r))"

lemma swap_byte_perm:
  assumes "rc4_perm s" and "a < 256" and "b < 256"
  shows "rc4_perm (swap_byte s a b)"
proof -
  have "mset (swap_byte s a b) = mset s"
    using assms by (simp add: swap_byte_def rc4_perm_def Let_def mset_swap)
  then have "set (swap_byte s a b) = set s" "length (swap_byte s a b) = length s" "distinct (swap_byte s a b) = distinct s"
    by (metis set_mset_mset, metis size_mset, metis mset_eq_imp_distinct_iff)
  then show ?thesis using assms(1) by (simp add: rc4_perm_def)
qed

lemma unat_byte: "unat (x :: byte) < 256"
  using unat_less_2p [of x] by simp

lemma key_loop_perm: "rc4_perm s \<Longrightarrow> i + n \<le> 256 \<Longrightarrow> rc4_perm (key_loop seed n i s j)"
proof (induction n arbitrary: i s j)
  case (Suc n)
  then show ?case
    by (simp only: key_loop.simps Let_def) (intro Suc.IH swap_byte_perm, auto simp: unat_byte)
qed simp

lemma init_bytes_perm: "rc4_perm init_bytes"
proof -
  have inj: "inj_on (of_nat :: nat \<Rightarrow> byte) {0..<256}"
  proof (rule inj_onI)
    fix x y :: nat
    assume "x \<in> {0..<256}" "y \<in> {0..<256}" "(of_nat x :: byte) = of_nat y"
    then have "unat (of_nat x :: byte) = unat (of_nat y :: byte)" "x < 256" "y < 256" by simp_all
    then show "x = y" by (simp add: unat_of_nat)
  qed
  have "x \<in> of_nat ` {0..<256}" for x :: byte
    using unat_byte [of x] by (intro image_eqI [of _ _ "unat x"]) auto
  then have "set init_bytes = UNIV" unfolding init_bytes_def set_map set_upt by blast
  moreover have "distinct init_bytes" "length init_bytes = 256"
    unfolding init_bytes_def distinct_map length_map length_upt set_upt using inj by simp_all
  ultimately show ?thesis by (simp add: rc4_perm_def)
qed

lemma random_init_ok: "rc4_perm (rs (random_init r seed)) \<and> inited (random_init r seed)"
  by (simp add: random_init_def key_loop_perm init_bytes_perm)

lemma random_byte_perm: "rc4_perm (rs r) \<Longrightarrow> random_byte r = (r', b) \<Longrightarrow> rc4_perm (rs r') \<and> inited r' = inited r"
  by (auto simp: random_byte_def Let_def intro!: swap_byte_perm unat_byte)

lemma bytes_loop_perm:
  "rc4_perm (rs r) \<Longrightarrow> bytes_loop r n = (r', bs) \<Longrightarrow> rc4_perm (rs r') \<and> inited r' = inited r \<and> length bs = n"
proof (induction n arbitrary: r r' bs)
  case (Suc n)
  obtain r1 b where b: "random_byte r = (r1, b)" by fastforce
  obtain r2 bs2 where l: "bytes_loop r1 n = (r2, bs2)" by fastforce
  have "r' = r2" "bs = b # bs2" using Suc.prems(2) b l by simp_all
  with Suc.IH [OF _ l] random_byte_perm [OF Suc.prems(1) b] show ?case by simp
qed simp

text \<open>C38. The state of the generator is a permutation of the 256 byte values after seeding with any
  seed, and stays one however many bytes are drawn; every request is answered with the number of
  bytes asked for, and a generator that was never seeded is seeded first.\<close>

theorem random_state_permutation:
  assumes "rc4_ok r" and "random_bytes r n = (r', bs)"
  shows "length bs = n \<and> inited r' \<and> rc4_perm (rs r') \<and> rc4_perm (rs (random_init r seed))
    \<and> rc4_perm (rs (fst (random_ulong r')))"
proof -
  define r0 where "r0 = (if \<not> inited r then random_init r 0 else r)"
  have "rc4_perm (rs r0)" "inited r0" using assms(1) random_init_ok [of r 0] by (auto simp: r0_def rc4_ok_def)
  with bytes_loop_perm [of r0 n r' bs] assms(2)
  have ok: "length bs = n" "inited r'" "rc4_perm (rs r')" by (auto simp: random_bytes_def r0_def)
  obtain r2 bs2 where "bytes_loop r' 4 = (r2, bs2)" by fastforce
  with bytes_loop_perm [of r' 4 r2 bs2] ok have "rc4_perm (rs (fst (random_ulong r')))"
    by (simp add: random_ulong_def random_bytes_def)
  with ok random_init_ok show ?thesis by blast
qed

definition ex_rc4 :: rc4 where
  "ex_rc4 = \<lparr>rs = replicate 256 0, s_i = 0, s_j = 0, inited = False\<rparr>"

lemma ex_rc4_fresh: "\<not> inited ex_rc4"
  by (simp add: ex_rc4_def)

theorem random_state_permutation_witness:
  "\<not> inited ex_rc4 \<and> rc4_perm (rs (fst (random_bytes ex_rc4 3))) \<and> length (snd (random_bytes ex_rc4 3)) = 3"
  using random_state_permutation [of ex_rc4 3 "fst (random_bytes ex_rc4 3)" "snd (random_bytes ex_rc4 3)"]
  by (simp add: rc4_ok_def ex_rc4_fresh)

end
