(* ===== verification/Sched.thy ===== *)
theory Sched
  imports Bytes
begin

text \<open>
  The thread scheduler and the synchronisation primitives: \<^verbatim>\<open>src/src/threads/thread.c\<close>,
  \<^verbatim>\<open>src/src/threads/synch.c\<close> and the interrupt level of \<^verbatim>\<open>src/src/threads/interrupt.c\<close>.

  A thread is the address of its page; \<open>threads\<close> maps it to its \<^verbatim>\<open>struct thread\<close>.  Embedded
  semaphores are named after the object they are part of.  A wait inside \<^verbatim>\<open>sema_down\<close> is a switch to
  another thread, so an operation that may wait returns whether it completed: the thread that
  went to sleep repeats the loop test, which is the whole operation again, when it next runs.
\<close>

section \<open>State\<close>

datatype thread_status = THREAD_RUNNING | THREAD_READY | THREAD_BLOCKED | THREAD_DYING

definition THREAD_MAGIC :: "32 word" where "THREAD_MAGIC = 0xcd6abf4b"
definition TIME_SLICE :: "32 word" where "TIME_SLICE = 4"
definition PRI_MIN :: int where "PRI_MIN = 0"
definition PRI_DEFAULT :: int where "PRI_DEFAULT = 31"
definition PRI_MAX :: int where "PRI_MAX = 63"
definition MAX_FILES :: nat where "MAX_FILES = 128"
definition TID_ERROR :: int where "TID_ERROR = - 1"

record thread =
  tid :: int
  status :: thread_status
  tname :: "byte list"
  stack :: addr
  kframes :: "32 word list"
  priority :: int
  childExecSuccess :: bool
  stat_holder :: addr
  status_number :: int
  list_of_children :: "addr list"
  parent :: addr
  open_files :: "addr list"
  code_file :: addr
  index_fd :: int
  personal_esp :: addr
  pagedir :: addr
  magic :: "32 word"

record status_holder =
  sh_tid :: int
  sh_status :: int
  owner_thread :: addr

record semaphore =
  sema_value :: "32 word"
  waiters :: "addr list"

datatype sema_id = Sema nat | LockSema nat | WaiterSema nat | ExecSema addr | WaitSema addr

record kern =
  threads :: "addr \<Rightarrow> thread option"
  ready_list :: "addr list"
  all_list :: "addr list"
  running :: addr
  idle_thread :: addr
  initial_thread :: addr
  next_tid :: int
  thread_ticks :: "32 word"
  idle_ticks :: int
  kernel_ticks :: int
  user_ticks :: int
  intr_level :: bool
  in_external_intr :: bool
  yield_on_return :: bool
  semas :: "sema_id \<Rightarrow> semaphore option"
  holder :: "nat \<Rightarrow> addr"
  conds :: "nat \<Rightarrow> nat list"
  status_holders :: "addr \<Rightarrow> status_holder option"

section \<open>Interrupt level\<close>

definition intr_enable :: "kern \<Rightarrow> (kern \<times> bool) option" where
  "intr_enable k = do { ASSERT (\<not> in_external_intr k); Some (k\<lparr>intr_level := True\<rparr>, intr_level k) }"

definition intr_disable :: "kern \<Rightarrow> kern \<times> bool" where
  "intr_disable k = (k\<lparr>intr_level := False\<rparr>, intr_level k)"

definition intr_set_level :: "kern \<Rightarrow> bool \<Rightarrow> (kern \<times> bool) option" where
  "intr_set_level k level = (if level then intr_enable k else Some (intr_disable k))"

definition intr_context :: "kern \<Rightarrow> bool" where
  "intr_context k = in_external_intr k"

definition intr_yield_on_return :: "kern \<Rightarrow> kern option" where
  "intr_yield_on_return k = do { ASSERT (intr_context k); Some (k\<lparr>yield_on_return := True\<rparr>) }"

section \<open>Threads\<close>

text \<open>A store to a field of a \<^verbatim>\<open>struct thread\<close>.\<close>

definition upd_thread :: "kern \<Rightarrow> addr \<Rightarrow> (thread \<Rightarrow> thread) \<Rightarrow> kern" where
  "upd_thread k t g = k\<lparr>threads := (threads k)(t := map_option g (threads k t))\<rparr>"

abbreviation set_status :: "kern \<Rightarrow> addr \<Rightarrow> thread_status \<Rightarrow> kern" where
  "set_status k t st \<equiv> upd_thread k t (status_update (\<lambda>_. st))"

definition is_thread :: "kern \<Rightarrow> addr \<Rightarrow> bool" where
  "is_thread k t = (t \<noteq> NULL \<and> (case threads k t of None \<Rightarrow> False | Some c \<Rightarrow> magic c = THREAD_MAGIC))"

definition thread_current :: "kern \<Rightarrow> (addr \<times> thread) option" where
  "thread_current k = do {
     let t = running k;
     ASSERT (is_thread k t);
     c \<leftarrow> threads k t;
     ASSERT (status c = THREAD_RUNNING);
     Some (t, c)
   }"

definition thread_name :: "kern \<Rightarrow> byte list option" where
  "thread_name k = do { (t, c) \<leftarrow> thread_current k; Some (tname c) }"

definition thread_tid :: "kern \<Rightarrow> int option" where
  "thread_tid k = do { (t, c) \<leftarrow> thread_current k; Some (tid c) }"

definition thread_set_priority :: "kern \<Rightarrow> int \<Rightarrow> kern option" where
  "thread_set_priority k new_priority = do {
     (t, c) \<leftarrow> thread_current k;
     Some (upd_thread k t (priority_update (\<lambda>_. new_priority)))
   }"

definition thread_get_priority :: "kern \<Rightarrow> int option" where
  "thread_get_priority k = do { (t, c) \<leftarrow> thread_current k; Some (priority c) }"

section \<open>Scheduling\<close>

definition next_thread_to_run :: "kern \<Rightarrow> kern \<times> addr" where
  "next_thread_to_run k =
     (case ready_list k of
        [] \<Rightarrow> (k, idle_thread k)
      | t # ts \<Rightarrow> (k\<lparr>ready_list := ts\<rparr>, t))"

definition thread_schedule_tail :: "kern \<Rightarrow> addr \<Rightarrow> kern option" where
  "thread_schedule_tail k prev = do {
     let cur = running k;
     ASSERT (\<not> intr_level k);
     let k = set_status k cur THREAD_RUNNING;
     let k = k\<lparr>thread_ticks := 0\<rparr>;
     if prev \<noteq> NULL \<and> map_option status (threads k prev) = Some THREAD_DYING \<and> prev \<noteq> initial_thread k
     then do {
       ASSERT (prev \<noteq> cur);
       Some (k\<lparr>threads := (threads k)(prev := None)\<rparr>)
     }
     else Some k
   }"

definition schedule :: "kern \<Rightarrow> kern option" where
  "schedule k = do {
     let cur = running k;
     let (k, next) = next_thread_to_run k;
     ASSERT (\<not> intr_level k);
     c \<leftarrow> threads k cur;
     ASSERT (status c \<noteq> THREAD_RUNNING);
     ASSERT (is_thread k next);
     if cur \<noteq> next
     then thread_schedule_tail (k\<lparr>running := next\<rparr>) cur
     else thread_schedule_tail k NULL
   }"

definition thread_block :: "kern \<Rightarrow> kern option" where
  "thread_block k = do {
     ASSERT (\<not> intr_context k);
     ASSERT (\<not> intr_level k);
     (t, c) \<leftarrow> thread_current k;
     schedule (set_status k t THREAD_BLOCKED)
   }"

definition thread_unblock :: "kern \<Rightarrow> addr \<Rightarrow> kern option" where
  "thread_unblock k t = do {
     ASSERT (is_thread k t);
     let (k, old_level) = intr_disable k;
     c \<leftarrow> threads k t;
     ASSERT (status c = THREAD_BLOCKED);
     let k = k\<lparr>ready_list := ready_list k @ [t]\<rparr>;
     let k = set_status k t THREAD_READY;
     (k, _) \<leftarrow> intr_set_level k old_level;
     Some k
   }"

text \<open>\<^verbatim>\<open>thread_yield\<close> up to the switch.  The thread that gets the processor returns from its own
  call, and sets the interrupt level it had saved there (\<^verbatim>\<open>intr_set_level (old_level)\<close>).\<close>

definition thread_yield :: "kern \<Rightarrow> kern option" where
  "thread_yield k = do {
     (cur, c) \<leftarrow> thread_current k;
     ASSERT (\<not> intr_context k);
     let (k, old_level) = intr_disable k;
     let k = (if cur \<noteq> idle_thread k then k\<lparr>ready_list := ready_list k @ [cur]\<rparr> else k);
     schedule (set_status k cur THREAD_READY)
   }"

definition thread_tick :: "kern \<Rightarrow> kern option" where
  "thread_tick k = do {
     (t, c) \<leftarrow> thread_current k;
     let k = (if t = idle_thread k then k\<lparr>idle_ticks := idle_ticks k + 1\<rparr>
              else if pagedir c \<noteq> NULL then k\<lparr>user_ticks := user_ticks k + 1\<rparr>
              else k\<lparr>kernel_ticks := kernel_ticks k + 1\<rparr>);
     let k = k\<lparr>thread_ticks := thread_ticks k + 1\<rparr>;
     if TIME_SLICE \<le> thread_ticks k then intr_yield_on_return k else Some k
   }"

text \<open>\<^verbatim>\<open>thread_foreach\<close>: the action may change the kernel state.\<close>

definition thread_foreach :: "kern \<Rightarrow> (kern \<Rightarrow> addr \<Rightarrow> kern option) \<Rightarrow> kern option" where
  "thread_foreach k func = do {
     ASSERT (\<not> intr_level k);
     foldl (\<lambda>r t. Option.bind r (\<lambda>k. func k t)) (Some k) (all_list k)
   }"

section \<open>Semaphores\<close>

definition sema_init :: "kern \<Rightarrow> sema_id \<Rightarrow> 32 word \<Rightarrow> kern" where
  "sema_init k x v = k\<lparr>semas := (semas k)(x \<mapsto> \<lparr>sema_value = v, waiters = []\<rparr>)\<rparr>"

definition sema_down :: "kern \<Rightarrow> sema_id \<Rightarrow> (kern \<times> bool) option" where
  "sema_down k x = do {
     s \<leftarrow> semas k x;
     ASSERT (\<not> intr_context k);
     let (k, old_level) = intr_disable k;
     if sema_value s = 0
     then do {
       (t, c) \<leftarrow> thread_current k;
       let k = k\<lparr>semas := (semas k)(x \<mapsto> s\<lparr>waiters := waiters s @ [t]\<rparr>)\<rparr>;
       k \<leftarrow> thread_block k;
       Some (k, False)
     }
     else do {
       let k = k\<lparr>semas := (semas k)(x \<mapsto> s\<lparr>sema_value := sema_value s - 1\<rparr>)\<rparr>;
       (k, _) \<leftarrow> intr_set_level k old_level;
       Some (k, True)
     }
   }"

definition sema_try_down :: "kern \<Rightarrow> sema_id \<Rightarrow> (kern \<times> bool) option" where
  "sema_try_down k x = do {
     s \<leftarrow> semas k x;
     let (k, old_level) = intr_disable k;
     let (k, success) =
       (if 0 < sema_value s
        then (k\<lparr>semas := (semas k)(x \<mapsto> s\<lparr>sema_value := sema_value s - 1\<rparr>)\<rparr>, True)
        else (k, False));
     (k, _) \<leftarrow> intr_set_level k old_level;
     Some (k, success)
   }"

definition sema_up :: "kern \<Rightarrow> sema_id \<Rightarrow> kern option" where
  "sema_up k x = do {
     s \<leftarrow> semas k x;
     let (k, old_level) = intr_disable k;
     (k, s) \<leftarrow> (case waiters s of
                   [] \<Rightarrow> Some (k, s)
                 | t # ts \<Rightarrow> do {
                     let s = s\<lparr>waiters := ts\<rparr>;
                     k \<leftarrow> thread_unblock (k\<lparr>semas := (semas k)(x \<mapsto> s)\<rparr>) t;
                     Some (k, s)
                   });
     let k = k\<lparr>semas := (semas k)(x \<mapsto> s\<lparr>sema_value := sema_value s + 1\<rparr>)\<rparr>;
     (k, _) \<leftarrow> intr_set_level k old_level;
     Some k
   }"

section \<open>Locks\<close>

definition lock_init :: "kern \<Rightarrow> nat \<Rightarrow> kern" where
  "lock_init k l = sema_init (k\<lparr>holder := (holder k)(l := NULL)\<rparr>) (LockSema l) 1"

definition lock_held_by_current_thread :: "kern \<Rightarrow> nat \<Rightarrow> bool option" where
  "lock_held_by_current_thread k l = do { (t, c) \<leftarrow> thread_current k; Some (holder k l = t) }"

definition lock_acquire :: "kern \<Rightarrow> nat \<Rightarrow> (kern \<times> bool) option" where
  "lock_acquire k l = do {
     ASSERT (\<not> intr_context k);
     held \<leftarrow> lock_held_by_current_thread k l;
     ASSERT (\<not> held);
     (k, done) \<leftarrow> sema_down k (LockSema l);
     if done
     then do {
       (t, c) \<leftarrow> thread_current k;
       Some (k\<lparr>holder := (holder k)(l := t)\<rparr>, True)
     }
     else Some (k, False)
   }"

definition lock_try_acquire :: "kern \<Rightarrow> nat \<Rightarrow> (kern \<times> bool) option" where
  "lock_try_acquire k l = do {
     held \<leftarrow> lock_held_by_current_thread k l;
     ASSERT (\<not> held);
     (k, success) \<leftarrow> sema_try_down k (LockSema l);
     if success
     then do {
       (t, c) \<leftarrow> thread_current k;
       Some (k\<lparr>holder := (holder k)(l := t)\<rparr>, True)
     }
     else Some (k, False)
   }"

definition lock_release :: "kern \<Rightarrow> nat \<Rightarrow> kern option" where
  "lock_release k l = do {
     held \<leftarrow> lock_held_by_current_thread k l;
     ASSERT held;
     sema_up (k\<lparr>holder := (holder k)(l := NULL)\<rparr>) (LockSema l)
   }"

section \<open>Condition variables\<close>

text \<open>\<^verbatim>\<open>cond_wait\<close> has two waits in it.  Its first part runs up to the wait on the private semaphore
  \<open>w\<close> of the waiter; the second is \<^verbatim>\<open>lock_acquire\<close>.  \<open>cond_enter\<close> is the code before the waits.\<close>

definition cond_init :: "kern \<Rightarrow> nat \<Rightarrow> kern" where
  "cond_init k cv = k\<lparr>conds := (conds k)(cv := [])\<rparr>"

definition cond_enter :: "kern \<Rightarrow> nat \<Rightarrow> nat \<Rightarrow> nat \<Rightarrow> kern option" where
  "cond_enter k cv l w = do {
     ASSERT (\<not> intr_context k);
     held \<leftarrow> lock_held_by_current_thread k l;
     ASSERT held;
     let k = sema_init k (WaiterSema w) 0;
     let k = k\<lparr>conds := (conds k)(cv := conds k cv @ [w])\<rparr>;
     lock_release k l
   }"

definition cond_wait :: "kern \<Rightarrow> nat \<Rightarrow> nat \<Rightarrow> nat \<Rightarrow> (kern \<times> bool) option" where
  "cond_wait k cv l w = do {
     k \<leftarrow> cond_enter k cv l w;
     (k, done) \<leftarrow> sema_down k (WaiterSema w);
     if done then lock_acquire k l else Some (k, False)
   }"

definition cond_signal :: "kern \<Rightarrow> nat \<Rightarrow> nat \<Rightarrow> kern option" where
  "cond_signal k cv l = do {
     ASSERT (\<not> intr_context k);
     held \<leftarrow> lock_held_by_current_thread k l;
     ASSERT held;
     case conds k cv of
       [] \<Rightarrow> Some k
     | w # ws \<Rightarrow> sema_up (k\<lparr>conds := (conds k)(cv := ws)\<rparr>) (WaiterSema w)
   }"

text \<open>The loop of \<^verbatim>\<open>cond_broadcast\<close> removes one waiter in each turn.\<close>

fun broadcast_loop :: "nat \<Rightarrow> kern \<Rightarrow> nat \<Rightarrow> nat \<Rightarrow> kern option" where
  "broadcast_loop 0 k cv l = (if conds k cv = [] then Some k else None)"
| "broadcast_loop (Suc n) k cv l =
     (if conds k cv = [] then Some k else do { k \<leftarrow> cond_signal k cv l; broadcast_loop n k cv l })"

definition cond_broadcast :: "kern \<Rightarrow> nat \<Rightarrow> nat \<Rightarrow> kern option" where
  "cond_broadcast k cv l = broadcast_loop (length (conds k cv)) k cv l"

section \<open>Creation and exit of threads\<close>

definition tid_lock :: nat where "tid_lock = 0"
definition memory_master_lock :: nat where "memory_master_lock = 1"

definition init_thread :: "kern \<Rightarrow> addr \<Rightarrow> byte list \<Rightarrow> int \<Rightarrow> kern option" where
  "init_thread k t nm pri = do {
     ASSERT (t \<noteq> NULL);
     ASSERT (PRI_MIN \<le> pri \<and> pri \<le> PRI_MAX);
     let c = \<lparr>tid = 0, status = THREAD_BLOCKED, tname = strlcpy_field nm (replicate 16 0),
              stack = t + 0x1000, kframes = [], priority = pri, childExecSuccess = False,
              stat_holder = NULL, status_number = 0, list_of_children = [], parent = NULL,
              open_files = replicate MAX_FILES NULL, code_file = NULL, index_fd = 2,
              personal_esp = NULL, pagedir = NULL, magic = THREAD_MAGIC\<rparr>;
     let k = k\<lparr>threads := (threads k)(t \<mapsto> c)\<rparr>;
     let k = sema_init (sema_init k (ExecSema t) 0) (WaitSema t) 0;
     Some (k\<lparr>all_list := all_list k @ [t]\<rparr>)
   }"

text \<open>\<open>kframes\<close> are the words from the saved stack pointer to the top of the thread's page.\<close>

definition alloc_frame :: "kern \<Rightarrow> addr \<Rightarrow> nat \<Rightarrow> kern option" where
  "alloc_frame k t sz = do {
     ASSERT (is_thread k t);
     ASSERT (sz mod 4 = 0);
     Some (upd_thread k t (\<lambda>c. c\<lparr>stack := stack c - of_nat sz,
                                kframes := replicate (sz div 4) 0 @ kframes c\<rparr>))
   }"

definition put_frame :: "kern \<Rightarrow> addr \<Rightarrow> nat \<Rightarrow> 32 word \<Rightarrow> kern" where
  "put_frame k t i v = upd_thread k t (\<lambda>c. c\<lparr>kframes := (kframes c)[i := v]\<rparr>)"

definition allocate_tid :: "kern \<Rightarrow> (kern \<times> int option) option" where
  "allocate_tid k = do {
     (k, got) \<leftarrow> lock_acquire k tid_lock;
     if got
     then do {
       let tid = next_tid k;
       let k = k\<lparr>next_tid := s32 (tid + 1)\<rparr>;
       k \<leftarrow> lock_release k tid_lock;
       Some (k, Some tid)
     }
     else Some (k, None)
   }"

text \<open>The two pages that \<^verbatim>\<open>thread_create\<close> gets from the page allocator, \<open>t\<close> and \<open>sh\<close>, are arguments, \<open>NULL\<close>
  when none is left; so are the addresses of \<^verbatim>\<open>kernel_thread\<close> and \<^verbatim>\<open>switch_entry\<close>.  The second page is
  passed to \<^verbatim>\<open>memset\<close>, which panics on a null pointer.  The result is \<open>None\<close> while the caller waits
  for \<^verbatim>\<open>tid_lock\<close>.\<close>

definition thread_create ::
  "kern \<Rightarrow> addr \<Rightarrow> addr \<Rightarrow> addr \<Rightarrow> addr \<Rightarrow> byte list \<Rightarrow> int \<Rightarrow> addr \<Rightarrow> addr \<Rightarrow> (kern \<times> int option) option" where
  "thread_create k t sh kernel_thread switch_entry nm pri function aux = do {
     ASSERT (function \<noteq> NULL);
     if t = NULL then Some (k, Some TID_ERROR)
     else do {
       k \<leftarrow> init_thread k t nm pri;
       (k, r) \<leftarrow> allocate_tid k;
       case r of
         None \<Rightarrow> Some (k, None)
       | Some new_tid \<Rightarrow> do {
           let k = upd_thread k t (tid_update (\<lambda>_. new_tid));
           (cur, _) \<leftarrow> thread_current k;
           let k = upd_thread k t (parent_update (\<lambda>_. cur));
           ASSERT (sh \<noteq> NULL);
           let k = k\<lparr>status_holders := (status_holders k)
                      (sh \<mapsto> \<lparr>sh_tid = new_tid, sh_status = - 1, owner_thread = t\<rparr>)\<rparr>;
           let k = upd_thread k t (stat_holder_update (\<lambda>_. sh));
           let k = upd_thread k t (status_number_update (\<lambda>_. - 1));
           let k = upd_thread k cur (list_of_children_update (\<lambda>cs. cs @ [sh]));
           let k = upd_thread k t (personal_esp_update (\<lambda>_. NULL));
           let (k, old_level) = intr_disable k;
           k \<leftarrow> alloc_frame k t 12;
           let k = put_frame (put_frame (put_frame k t 0 NULL) t 1 function) t 2 aux;
           k \<leftarrow> alloc_frame k t 4;
           let k = put_frame k t 0 kernel_thread;
           k \<leftarrow> alloc_frame k t 28;
           let k = put_frame (put_frame k t 4 switch_entry) t 2 0;
           (k, _) \<leftarrow> intr_set_level k old_level;
           k \<leftarrow> thread_unblock k t;
           Some (k, Some new_tid)
         }
     }
   }"

definition thread_init :: "kern \<Rightarrow> kern option" where
  "thread_init k = do {
     ASSERT (\<not> intr_level k);
     let k = lock_init (lock_init k tid_lock) memory_master_lock;
     let k = k\<lparr>ready_list := [], all_list := [], initial_thread := running k\<rparr>;
     let t = initial_thread k;
     k \<leftarrow> init_thread k t [0x6d, 0x61, 0x69, 0x6e] PRI_DEFAULT;
     let k = set_status k t THREAD_RUNNING;
     (k, r) \<leftarrow> allocate_tid k;
     new_tid \<leftarrow> r;
     Some (upd_thread k t (tid_update (\<lambda>_. new_tid)))
   }"

text \<open>The idle thread before its loop, and one turn of the loop up to the switch.\<close>

definition idle_enter :: "kern \<Rightarrow> sema_id \<Rightarrow> kern option" where
  "idle_enter k idle_started = do {
     (t, _) \<leftarrow> thread_current k;
     sema_up (k\<lparr>idle_thread := t\<rparr>) idle_started
   }"

definition idle_turn :: "kern \<Rightarrow> kern option" where
  "idle_turn k = thread_block (fst (intr_disable k))"

text \<open>The end of \<^verbatim>\<open>thread_exit\<close>: turn interrupts off, leave the list of all threads, die.  The wake-up of the parent before
  it, \<^verbatim>\<open>sema_up (&thread_current ()->wait_sema)\<close>, is a step of its own, as the files are closed in between.\<close>

definition thread_exit_final :: "kern \<Rightarrow> kern option" where
  "thread_exit_final k = do {
     let (k, _) = intr_disable k;
     (t, _) \<leftarrow> thread_current k;
     let k = k\<lparr>all_list := remove1 t (all_list k)\<rparr>;
     schedule (set_status k t THREAD_DYING)
   }"

section \<open>Where a thread is\<close>

text \<open>The status of each thread, and the threads on each wait list.\<close>

definition st :: "kern \<Rightarrow> addr \<Rightarrow> thread_status option" where
  "st k t = map_option status (threads k t)"

definition wl :: "kern \<Rightarrow> sema_id \<Rightarrow> addr list" where
  "wl k x = (case semas k x of None \<Rightarrow> [] | Some s \<Rightarrow> waiters s)"

text \<open>The abstract view: statuses \<open>f\<close>, run queue \<open>r\<close>, idle thread \<open>i\<close>, wait lists \<open>w\<close>.  The \<^verbatim>\<open>elem\<close> member of a
  thread is on the run queue exactly when the thread is ready, and only threads that are blocked
  are on a wait list, each on one and once.\<close>

definition queues_ok ::
  "(addr \<Rightarrow> thread_status option) \<Rightarrow> addr list \<Rightarrow> addr \<Rightarrow> (sema_id \<Rightarrow> addr list) \<Rightarrow> bool" where
  "queues_ok f r i w \<longleftrightarrow>
     distinct r \<and> i \<notin> set r
     \<and> (\<forall>t. t \<noteq> i \<longrightarrow> (t \<in> set r \<longleftrightarrow> f t = Some THREAD_READY))
     \<and> (\<forall>x. distinct (w x) \<and> i \<notin> set (w x) \<and> (\<forall>t \<in> set (w x). f t = Some THREAD_BLOCKED))
     \<and> (\<forall>x y. x \<noteq> y \<longrightarrow> set (w x) \<inter> set (w y) = {})"

lemma queues_ok_dispatch: "queues_ok f (t # r) i w \<Longrightarrow> queues_ok (f(t \<mapsto> THREAD_RUNNING)) r i w"
  unfolding queues_ok_def by auto

lemma queues_ok_head: "queues_ok f (t # r) i w \<Longrightarrow> f t = Some THREAD_READY"
  unfolding queues_ok_def by (metis list.set_intros(1))

lemma queues_ok_idle: "queues_ok f r i w \<Longrightarrow> queues_ok (f(i := z)) r i w"
  unfolding queues_ok_def by auto

lemma queues_ok_leave:
  "queues_ok f r i w \<Longrightarrow> f t = Some THREAD_RUNNING \<or> f t = Some THREAD_DYING \<or> f t = None
     \<Longrightarrow> z \<noteq> Some THREAD_READY \<Longrightarrow> queues_ok (f(t := z)) r i w"
  unfolding queues_ok_def by auto

lemma queues_ok_wait:
  "queues_ok f r i w \<Longrightarrow> f t = Some THREAD_RUNNING \<Longrightarrow> t \<noteq> i
     \<Longrightarrow> queues_ok (f(t \<mapsto> THREAD_BLOCKED)) r i (w(x := w x @ [t]))"
  unfolding queues_ok_def by auto

lemma queues_ok_ready:
  "queues_ok f r i w \<Longrightarrow> f t \<noteq> Some THREAD_READY \<Longrightarrow> t \<noteq> i \<Longrightarrow> (\<And>x. t \<notin> set (w x))
     \<Longrightarrow> queues_ok (f(t \<mapsto> THREAD_READY)) (r @ [t]) i w"
  unfolding queues_ok_def by auto

lemma queues_ok_pop:
  assumes "queues_ok f r i w" and "w x = t # ts"
  shows "queues_ok f r i (w(x := ts))" and "t \<noteq> i" and "f t = Some THREAD_BLOCKED"
    and "t \<notin> set ((w(x := ts)) y)"
proof -
  have x: "distinct (t # ts)" "i \<notin> set (t # ts)" "\<forall>u \<in> set (t # ts). f u = Some THREAD_BLOCKED"
    using assms unfolding queues_ok_def by metis+
  have y: "set (t # ts) \<inter> set (w y) = {}" if "x \<noteq> y" for y
    using assms that unfolding queues_ok_def by metis
  show "t \<noteq> i" "f t = Some THREAD_BLOCKED" using x by auto
  show "t \<notin> set ((w(x := ts)) y)" using x y [of y] by (cases "x = y") auto
  have sub: "set ((w(x := ts)) z) \<subseteq> set (w z)" "distinct ((w(x := ts)) z)" for z
    using assms x by (auto simp: queues_ok_def)
  then have "set ((w(x := ts)) a) \<inter> set ((w(x := ts)) b) = {}" if "a \<noteq> b" for a b
    using assms(1) that unfolding queues_ok_def by blast
  then show "queues_ok f r i (w(x := ts))"
    using assms(1) sub unfolding queues_ok_def by (meson subsetD)
qed

lemma queues_ok_running:
  "queues_ok f r i w \<Longrightarrow> f t = Some THREAD_RUNNING \<Longrightarrow> t \<notin> set (w x)"
  unfolding queues_ok_def by auto

section \<open>The scheduler invariant\<close>

definition magic_ok :: "kern \<Rightarrow> bool" where
  "magic_ok k \<longleftrightarrow> threads k NULL = None \<and> (\<forall>t c. threads k t = Some c \<longrightarrow> magic c = THREAD_MAGIC)"

definition lists_ok :: "kern \<Rightarrow> bool" where
  "lists_ok k \<longleftrightarrow> magic_ok k \<and> queues_ok (st k) (ready_list k) (idle_thread k) (wl k)"

text \<open>Exactly the current thread has status \<^verbatim>\<open>THREAD_RUNNING\<close>.\<close>

definition sched_ok :: "kern \<Rightarrow> bool" where
  "sched_ok k \<longleftrightarrow> lists_ok k \<and> (\<forall>t. st k t = Some THREAD_RUNNING \<longleftrightarrow> t = running k)"

lemma st_simps [simp]:
  "st (k\<lparr>ready_list := r\<rparr>) = st k" "st (k\<lparr>running := t\<rparr>) = st k" "st (k\<lparr>intr_level := b\<rparr>) = st k"
  "st (k\<lparr>semas := m\<rparr>) = st k" "st (k\<lparr>thread_ticks := n\<rparr>) = st k" "st (k\<lparr>holder := h\<rparr>) = st k"
  "st (k\<lparr>conds := c\<rparr>) = st k" "st (k\<lparr>all_list := r\<rparr>) = st k" "st (k\<lparr>next_tid := i\<rparr>) = st k"
  "st (k\<lparr>idle_ticks := i\<rparr>) = st k" "st (k\<lparr>user_ticks := i\<rparr>) = st k" "st (k\<lparr>kernel_ticks := i\<rparr>) = st k"
  "st (k\<lparr>yield_on_return := b\<rparr>) = st k" "st (k\<lparr>in_external_intr := b\<rparr>) = st k"
  "st (k\<lparr>status_holders := hs\<rparr>) = st k" "st (k\<lparr>idle_thread := t\<rparr>) = st k"
  by (simp_all add: st_def fun_eq_iff)

lemma wl_simps [simp]:
  "wl (k\<lparr>ready_list := r\<rparr>) = wl k" "wl (k\<lparr>running := t\<rparr>) = wl k" "wl (k\<lparr>intr_level := b\<rparr>) = wl k"
  "wl (k\<lparr>threads := ts\<rparr>) = wl k" "wl (k\<lparr>thread_ticks := n\<rparr>) = wl k" "wl (k\<lparr>holder := h\<rparr>) = wl k"
  "wl (k\<lparr>conds := c\<rparr>) = wl k" "wl (k\<lparr>all_list := r\<rparr>) = wl k" "wl (k\<lparr>next_tid := i\<rparr>) = wl k"
  "wl (k\<lparr>idle_ticks := i\<rparr>) = wl k" "wl (k\<lparr>user_ticks := i\<rparr>) = wl k" "wl (k\<lparr>kernel_ticks := i\<rparr>) = wl k"
  "wl (k\<lparr>yield_on_return := b\<rparr>) = wl k" "wl (k\<lparr>in_external_intr := b\<rparr>) = wl k"
  "wl (k\<lparr>status_holders := hs\<rparr>) = wl k" "wl (k\<lparr>idle_thread := t\<rparr>) = wl k"
  by (simp_all add: wl_def fun_eq_iff)

lemma magic_simps [simp]:
  "magic_ok (k\<lparr>ready_list := r\<rparr>) = magic_ok k" "magic_ok (k\<lparr>running := t\<rparr>) = magic_ok k"
  "magic_ok (k\<lparr>intr_level := b\<rparr>) = magic_ok k" "magic_ok (k\<lparr>semas := m\<rparr>) = magic_ok k"
  "magic_ok (k\<lparr>thread_ticks := n\<rparr>) = magic_ok k" "magic_ok (k\<lparr>holder := h\<rparr>) = magic_ok k"
  "magic_ok (k\<lparr>conds := c\<rparr>) = magic_ok k" "magic_ok (k\<lparr>all_list := r\<rparr>) = magic_ok k"
  "magic_ok (k\<lparr>next_tid := i\<rparr>) = magic_ok k" "magic_ok (k\<lparr>idle_ticks := i\<rparr>) = magic_ok k"
  "magic_ok (k\<lparr>user_ticks := i\<rparr>) = magic_ok k" "magic_ok (k\<lparr>kernel_ticks := i\<rparr>) = magic_ok k"
  "magic_ok (k\<lparr>yield_on_return := b\<rparr>) = magic_ok k" "magic_ok (k\<lparr>in_external_intr := b\<rparr>) = magic_ok k"
  "magic_ok (k\<lparr>status_holders := hs\<rparr>) = magic_ok k" "magic_ok (k\<lparr>idle_thread := t\<rparr>) = magic_ok k"
  by (simp_all add: magic_ok_def)

lemma upd_thread_simps [simp]:
  "wl (upd_thread k t g) = wl k" "ready_list (upd_thread k t g) = ready_list k"
  "running (upd_thread k t g) = running k" "idle_thread (upd_thread k t g) = idle_thread k"
  "intr_level (upd_thread k t g) = intr_level k" "in_external_intr (upd_thread k t g) = in_external_intr k"
  "initial_thread (upd_thread k t g) = initial_thread k" "semas (upd_thread k t g) = semas k"
  "holder (upd_thread k t g) = holder k" "all_list (upd_thread k t g) = all_list k"
  "conds (upd_thread k t g) = conds k"
  "is_thread (upd_thread k u (status_update h)) t = is_thread k t"
  by (auto simp: upd_thread_def is_thread_def split: option.splits)

lemma st_set_status [simp]: "threads k t = Some c \<Longrightarrow> st (set_status k t z) = (st k)(t \<mapsto> z)"
  by (auto simp: st_def upd_thread_def fun_eq_iff)

lemma st_upd_thread [simp]: "(\<And>c. status (g c) = status c) \<Longrightarrow> st (upd_thread k t g) = st k"
  by (auto simp: st_def upd_thread_def fun_eq_iff option.map_comp comp_def)

lemma magic_upd_thread [simp]:
  "(\<And>c. magic (g c) = magic c) \<Longrightarrow> magic_ok (upd_thread k t g) = magic_ok k"
  by (auto simp: magic_ok_def upd_thread_def)

lemma st_Some: "st k t = Some z \<longleftrightarrow> (\<exists>c. threads k t = Some c \<and> status c = z)"
  by (auto simp: st_def)

lemma wl_semas: "semas k x = Some s \<Longrightarrow> wl (k\<lparr>semas := (semas k)(x \<mapsto> s')\<rparr>) = (wl k)(x := waiters s')"
  by (auto simp: wl_def fun_eq_iff)

lemma magic_is_thread: "magic_ok k \<Longrightarrow> threads k t = Some c \<Longrightarrow> is_thread k t"
  by (cases "t = NULL") (auto simp: magic_ok_def is_thread_def)

text \<open>What a step leaves alone.\<close>

definition same_sync :: "kern \<Rightarrow> kern \<Rightarrow> bool" where
  "same_sync k k' \<longleftrightarrow> semas k' = semas k \<and> holder k' = holder k \<and> conds k' = conds k
     \<and> idle_thread k' = idle_thread k \<and> in_external_intr k' = in_external_intr k"

lemma st_remove [simp]: "st (k\<lparr>threads := (threads k)(t := None)\<rparr>) = (st k)(t := None)"
  by (simp add: st_def fun_eq_iff)

lemma magic_remove [simp]: "magic_ok k \<Longrightarrow> magic_ok (k\<lparr>threads := (threads k)(t := None)\<rparr>)"
  by (auto simp: magic_ok_def)

lemma schedule_tail_ok:
  assumes "thread_schedule_tail k prev = Some k'" and "magic_ok k" and "threads k (running k) = Some c"
    and "queues_ok ((st k)(running k \<mapsto> THREAD_RUNNING)) (ready_list k) (idle_thread k) (wl k)"
    and "\<And>t. st k t \<noteq> Some THREAD_RUNNING"
  shows "sched_ok k' \<and> running k' = running k \<and> ready_list k' = ready_list k \<and> same_sync k k' \<and> \<not> intr_level k'"
proof -
  define k1 where "k1 = (set_status k (running k) THREAD_RUNNING)\<lparr>thread_ticks := 0\<rparr>"
  have st1: "st k1 = (st k)(running k \<mapsto> THREAD_RUNNING)"
    using assms(3) by (simp add: k1_def)
  have f1: "magic_ok k1" "ready_list k1 = ready_list k" "idle_thread k1 = idle_thread k" "wl k1 = wl k"
    "running k1 = running k" "same_sync k k1" "intr_level k1 = intr_level k" "initial_thread k1 = initial_thread k"
    using assms(2) by (simp_all add: k1_def same_sync_def)
  have ok1: "sched_ok k1"
    using assms(4,5) f1 st1 by (simp add: sched_ok_def lists_ok_def)
  have k': "\<not> intr_level k" "k' = k1 \<or> (prev \<noteq> running k \<and> st k1 prev = Some THREAD_DYING
       \<and> k' = k1\<lparr>threads := (threads k1)(prev := None)\<rparr>)"
    using assms(1) by (auto simp: thread_schedule_tail_def Let_def k1_def st_def split: if_splits)
  have "sched_ok (k1\<lparr>threads := (threads k1)(prev := None)\<rparr>)"
    if "prev \<noteq> running k" "st k1 prev = Some THREAD_DYING"
    using ok1 that f1 queues_ok_leave [of "st k1" "ready_list k" "idle_thread k" "wl k" prev None]
    by (auto simp: sched_ok_def lists_ok_def)
  with ok1 k' f1 show ?thesis by (auto simp: same_sync_def)
qed

lemma schedule_ok:
  assumes "schedule k = Some k'" and "lists_ok k" and "\<And>t. st k t \<noteq> Some THREAD_RUNNING"
  shows "sched_ok k' \<and> same_sync k k' \<and> \<not> intr_level k'"
    and "ready_list k = t # ts \<Longrightarrow> running k' = t \<and> ready_list k' = ts"
proof -
  obtain k1 nxt where n: "next_thread_to_run k = (k1, nxt)" by fastforce
  have q: "queues_ok (st k) (ready_list k) (idle_thread k) (wl k)" "magic_ok k"
    using assms(2) by (auto simp: lists_ok_def)
  have k1: "magic_ok k1" "same_sync k k1" "wl k1 = wl k" "st k1 = st k" "running k1 = running k"
    using n q(2) by (auto simp: next_thread_to_run_def same_sync_def split: list.splits)
  have q1: "queues_ok ((st k1)(nxt \<mapsto> THREAD_RUNNING)) (ready_list k1) (idle_thread k1) (wl k1)"
    using n q(1) queues_ok_dispatch queues_ok_idle
    by (auto simp: next_thread_to_run_def split: list.splits)
  have run: "is_thread k1 nxt"
    "thread_schedule_tail (k1\<lparr>running := nxt\<rparr>) (if running k \<noteq> nxt then running k else NULL) = Some k'"
    using assms(1) n k1(5) by (auto simp: schedule_def Let_def elim!: bind_SomeE split: if_splits)
  then obtain c where "threads k1 nxt = Some c" by (auto simp: is_thread_def split: option.splits)
  with schedule_tail_ok [OF run(2)] q1 k1 assms(3)
  have r: "sched_ok k' \<and> running k' = nxt \<and> ready_list k' = ready_list k1 \<and> same_sync (k1\<lparr>running := nxt\<rparr>) k'
    \<and> \<not> intr_level k'"
    by simp
  then show "sched_ok k' \<and> same_sync k k' \<and> \<not> intr_level k'" using k1(2) by (simp add: same_sync_def)
  show "running k' = t \<and> ready_list k' = ts" if "ready_list k = t # ts"
    using that n r by (auto simp: next_thread_to_run_def)
qed

text \<open>With a thread on the run queue the scheduler always finds somewhere to go.\<close>

lemma schedule_runs:
  assumes "lists_ok k" and "st k (running k) = Some z" and "z \<noteq> THREAD_RUNNING"
    and "\<not> intr_level k" and "ready_list k \<noteq> []"
  shows "\<exists>k'. schedule k = Some k'"
proof -
  obtain t ts where r: "ready_list k = t # ts" using assms(5) by (cases "ready_list k") auto
  then have "st k t = Some THREAD_READY"
    using assms(1) queues_ok_head by (auto simp: lists_ok_def)
  then obtain c where c: "threads k t = Some c" "is_thread k t"
    using assms(1) magic_is_thread by (auto simp: st_Some lists_ok_def)
  obtain d where d: "threads k (running k) = Some d" "status d = z"
    using assms(2) by (auto simp: st_Some)
  show ?thesis
    using assms r c d
    by (auto simp: schedule_def next_thread_to_run_def Let_def is_thread_def thread_schedule_tail_def)
qed

lemma thread_current_ok: "thread_current k = Some (t, c) \<Longrightarrow> t = running k \<and> threads k t = Some c \<and> status c = THREAD_RUNNING"
  by (auto simp: thread_current_def Let_def elim!: bind_SomeE split: if_splits)

lemma sched_ok_current:
  assumes "sched_ok k"
  shows "\<exists>c. thread_current k = Some (running k, c) \<and> threads k (running k) = Some c"
proof -
  have "st k (running k) = Some THREAD_RUNNING" using assms by (simp add: sched_ok_def)
  then obtain c where "threads k (running k) = Some c" "status c = THREAD_RUNNING" by (auto simp: st_Some)
  then show ?thesis
    using assms magic_is_thread [of k] by (simp add: thread_current_def Let_def sched_ok_def lists_ok_def)
qed

lemma sched_ok_fields:
  assumes "sched_ok k"
  shows "magic_ok k" "queues_ok (st k) (ready_list k) (idle_thread k) (wl k)"
    "st k t = Some THREAD_RUNNING \<longleftrightarrow> t = running k" "\<exists>c. threads k (running k) = Some c"
  using assms sched_ok_current [OF assms] by (auto simp: sched_ok_def lists_ok_def)

text \<open>The current thread gives up the processor with a new status and, perhaps, a new place.\<close>

lemma switch_ok:
  assumes "sched_ok k" and "z \<noteq> THREAD_RUNNING" and "schedule k2 = Some k'"
    and "k2 = set_status k1 (running k) z" and "threads k1 = threads k"
    and "queues_ok ((st k)(running k \<mapsto> z)) (ready_list k1) (idle_thread k1) (wl k1)"
  shows "sched_ok k' \<and> same_sync k2 k' \<and> \<not> intr_level k'"
proof -
  have "st k1 = st k" "magic_ok k1" using assms(5) sched_ok_fields(1) [OF assms(1)]
    by (auto simp: st_def fun_eq_iff magic_ok_def)
  moreover have "st k2 = (st k)(running k \<mapsto> z)"
    using sched_ok_fields(4) [OF assms(1)] calculation assms(4,5) by auto
  ultimately have "lists_ok k2" "\<And>t. st k2 t \<noteq> Some THREAD_RUNNING"
    using assms(2,4,6) sched_ok_fields(3) [OF assms(1)] by (auto simp: lists_ok_def)
  with schedule_ok(1) [OF assms(3)] show ?thesis by blast
qed

lemma thread_block_ok:
  assumes "sched_ok k" and "thread_block k = Some k'"
  shows "sched_ok k' \<and> same_sync k k'"
proof -
  have "schedule (set_status k (running k) THREAD_BLOCKED) = Some k'"
    using assms sched_ok_current [OF assms(1)]
    by (auto simp: thread_block_def elim!: bind_SomeE split: if_splits)
  moreover have "queues_ok ((st k)(running k \<mapsto> THREAD_BLOCKED)) (ready_list k) (idle_thread k) (wl k)"
    using queues_ok_leave [OF sched_ok_fields(2) [OF assms(1)]] sched_ok_fields(3) [OF assms(1)] by simp
  ultimately show ?thesis
    using switch_ok [OF assms(1)] by (fastforce simp: same_sync_def)
qed

lemma thread_yield_ok:
  assumes "sched_ok k" and "thread_yield k = Some k'"
  shows "sched_ok k' \<and> same_sync k k'"
proof -
  define k1 where "k1 = (if running k \<noteq> idle_thread k then k\<lparr>intr_level := False, ready_list := ready_list k @ [running k]\<rparr>
    else k\<lparr>intr_level := False\<rparr>)"
  have "schedule (set_status k1 (running k) THREAD_READY) = Some k'"
    using assms sched_ok_current [OF assms(1)]
    by (auto simp: thread_yield_def k1_def intr_disable_def Let_def elim!: bind_SomeE split: if_splits)
  moreover have "queues_ok ((st k)(running k \<mapsto> THREAD_READY)) (ready_list k1) (idle_thread k1) (wl k1)"
    using queues_ok_ready [OF sched_ok_fields(2) [OF assms(1)], of "running k"]
      queues_ok_running [OF sched_ok_fields(2) [OF assms(1)], of "running k"]
      queues_ok_idle [OF sched_ok_fields(2) [OF assms(1)]] sched_ok_fields(3) [OF assms(1), of "running k"]
    by (auto simp: k1_def)
  moreover have "threads k1 = threads k" "same_sync k k1" by (auto simp: k1_def same_sync_def)
  ultimately show ?thesis
    using switch_ok [OF assms(1), of THREAD_READY] by (fastforce simp: same_sync_def)
qed

lemma intr_set_level_frame:
  "intr_set_level k b = Some (k', b') \<Longrightarrow> k' = k\<lparr>intr_level := b\<rparr>"
  by (auto simp: intr_set_level_def intr_enable_def intr_disable_def split: if_splits)

lemma sched_ok_intr [simp]: "sched_ok (k\<lparr>intr_level := b\<rparr>) = sched_ok k"
  by (simp add: sched_ok_def lists_ok_def)

lemma same_sync_intr [simp]: "same_sync (k\<lparr>intr_level := b\<rparr>) k' = same_sync k k'"
  "same_sync k (k'\<lparr>intr_level := b\<rparr>) = same_sync k k'"
  by (simp_all add: same_sync_def)

lemma thread_unblock_ok:
  assumes "sched_ok k" and "thread_unblock k t = Some k'" and "t \<noteq> idle_thread k" and "\<And>x. t \<notin> set (wl k x)"
  shows "sched_ok k' \<and> same_sync k k' \<and> running k' = running k \<and> ready_list k' = ready_list k @ [t]
     \<and> intr_level k' = intr_level k"
proof -
  obtain c where c: "threads k t = Some c" "status c = THREAD_BLOCKED"
    "k' = (set_status (k\<lparr>intr_level := False, ready_list := ready_list k @ [t]\<rparr>) t THREAD_READY)\<lparr>intr_level := intr_level k\<rparr>"
    using assms(2)
    by (auto simp: thread_unblock_def intr_disable_def Let_def elim!: bind_SomeE split: if_splits dest!: intr_set_level_frame)
  have "queues_ok ((st k)(t \<mapsto> THREAD_READY)) (ready_list k @ [t]) (idle_thread k) (wl k)"
    using queues_ok_ready [OF sched_ok_fields(2) [OF assms(1)]] assms(3,4) c by (simp add: st_Some)
  moreover have "t \<noteq> running k" using c sched_ok_fields(3) [OF assms(1), of t] by (auto simp: st_Some)
  ultimately show ?thesis
    using c sched_ok_fields(1,3) [OF assms(1)] by (auto simp: sched_ok_def lists_ok_def same_sync_def)
qed

lemma sched_ok_sema:
  assumes "sched_ok k" and "semas k x = Some s" and "waiters s' = waiters s"
  shows "sched_ok (k\<lparr>semas := (semas k)(x \<mapsto> s')\<rparr>)"
proof -
  have "(wl k)(x := waiters s') = wl k" using assms(2,3) by (auto simp: wl_def fun_eq_iff)
  then show ?thesis
    using assms(1) wl_semas [OF assms(2), of s'] by (simp add: sched_ok_def lists_ok_def)
qed

text \<open>A wait puts the current thread at the end of the wait list and changes nothing else of the
  semaphores; a completed down takes one from the value.\<close>

lemma sema_down_ok:
  assumes "sched_ok k" and "sema_down k x = Some (k', b)" and "b \<or> running k \<noteq> idle_thread k"
  shows "sched_ok k' \<and> idle_thread k' = idle_thread k \<and> holder k' = holder k
    \<and> (\<exists>s. semas k x = Some s \<and> b = (sema_value s \<noteq> 0)
       \<and> semas k' = (semas k)(x \<mapsto> (if b then s\<lparr>sema_value := sema_value s - 1\<rparr>
                                    else s\<lparr>waiters := waiters s @ [running k]\<rparr>))
       \<and> (b \<longrightarrow> running k' = running k))"
proof -
  obtain s where s: "semas k x = Some s" using assms(2) by (auto simp: sema_down_def elim!: bind_SomeE)
  define k1 where "k1 = k\<lparr>intr_level := False, semas := (semas k)(x \<mapsto> s\<lparr>waiters := waiters s @ [running k]\<rparr>)\<rparr>"
  show ?thesis
  proof (cases "sema_value s = 0")
    case True
    obtain c where c: "threads k (running k) = Some c" "thread_current (k\<lparr>intr_level := False\<rparr>) = Some (running k, c)"
      using sched_ok_current [of "k\<lparr>intr_level := False\<rparr>"] assms(1) by auto
    have "thread_block k1 = Some k'" "\<not> b"
      using assms(2) True s c by (auto simp: sema_down_def intr_disable_def Let_def k1_def elim!: bind_SomeE split: if_splits)
    then have r: "schedule (set_status k1 (running k) THREAD_BLOCKED) = Some k'"
      by (auto simp: thread_block_def k1_def elim!: bind_SomeE dest!: thread_current_ok split: if_splits)
    have "wl k1 = (wl k)(x := wl k x @ [running k])"
      using s by (auto simp: k1_def wl_def fun_eq_iff)
    then have "queues_ok ((st k)(running k \<mapsto> THREAD_BLOCKED)) (ready_list k1) (idle_thread k1) (wl k1)"
      using queues_ok_wait [OF sched_ok_fields(2) [OF assms(1)]] sched_ok_fields(3) [OF assms(1)]
        assms(3) \<open>\<not> b\<close> by (simp add: k1_def)
    then have "sched_ok k' \<and> same_sync (set_status k1 (running k) THREAD_BLOCKED) k'"
      using switch_ok [OF assms(1) _ r refl] by (simp add: k1_def)
    with s True \<open>\<not> b\<close> show ?thesis by (simp add: same_sync_def k1_def)
  next
    case False
    then have "b" "k' = k\<lparr>semas := (semas k)(x \<mapsto> s\<lparr>sema_value := sema_value s - 1\<rparr>)\<rparr>"
      using assms(2) s
      by (auto simp: sema_down_def intr_disable_def Let_def elim!: bind_SomeE split: if_splits dest!: intr_set_level_frame)
    with False s sched_ok_sema [OF assms(1) s] show ?thesis by simp
  qed
qed

lemma sema_try_down_ok:
  assumes "sched_ok k" and "sema_try_down k x = Some (k', b)"
  shows "sched_ok k' \<and> idle_thread k' = idle_thread k \<and> holder k' = holder k
    \<and> (\<exists>s. semas k x = Some s \<and> b = (sema_value s \<noteq> 0)
       \<and> semas k' = (if b then (semas k)(x \<mapsto> s\<lparr>sema_value := sema_value s - 1\<rparr>) else semas k)
       \<and> running k' = running k)"
proof -
  obtain s where s: "semas k x = Some s" using assms(2) by (auto simp: sema_try_down_def elim!: bind_SomeE)
  then have "b = (sema_value s \<noteq> 0)"
    "k' = (if b then k\<lparr>semas := (semas k)(x \<mapsto> s\<lparr>sema_value := sema_value s - 1\<rparr>)\<rparr> else k)"
    using assms(2)
    by (auto simp: sema_try_down_def intr_disable_def Let_def word_neq_0_conv elim!: bind_SomeE
        split: if_splits dest!: intr_set_level_frame)
  then show ?thesis using s assms(1) sched_ok_sema [OF assms(1) s] by simp
qed

lemma sema_up_ok:
  assumes "sched_ok k" and "sema_up k x = Some k'"
  shows "sched_ok k' \<and> idle_thread k' = idle_thread k \<and> holder k' = holder k \<and> running k' = running k
    \<and> (\<exists>s. semas k x = Some s \<and> semas k' = (semas k)(x \<mapsto> \<lparr>sema_value = sema_value s + 1, waiters = tl (waiters s)\<rparr>)
       \<and> ready_list k' = ready_list k @ (case waiters s of [] \<Rightarrow> [] | t # ts \<Rightarrow> [t]))"
proof -
  obtain s where s: "semas k x = Some s" using assms(2) by (auto simp: sema_up_def elim!: bind_SomeE)
  show ?thesis
  proof (cases "waiters s")
    case Nil
    then have "k' = k\<lparr>semas := (semas k)(x \<mapsto> s\<lparr>sema_value := sema_value s + 1\<rparr>)\<rparr>"
      using assms(2) s
      by (auto simp: sema_up_def intr_disable_def Let_def elim!: bind_SomeE dest!: intr_set_level_frame)
    with s Nil sched_ok_sema [OF assms(1) s] show ?thesis by (cases s) simp
  next
    case (Cons t ts)
    define k1 where "k1 = k\<lparr>intr_level := False, semas := (semas k)(x \<mapsto> s\<lparr>waiters := ts\<rparr>)\<rparr>"
    obtain k2 where k2: "thread_unblock k1 t = Some k2"
      "k' = k2\<lparr>semas := (semas k2)(x \<mapsto> s\<lparr>waiters := ts, sema_value := sema_value s + 1\<rparr>), intr_level := intr_level k\<rparr>"
      using assms(2) s Cons
      by (auto simp: sema_up_def intr_disable_def Let_def k1_def elim!: bind_SomeE dest!: intr_set_level_frame)
    have wl: "wl k1 = (wl k)(x := ts)" "wl k x = t # ts"
      using s Cons by (auto simp: k1_def wl_def fun_eq_iff)
    note pop = queues_ok_pop [OF sched_ok_fields(2) [OF assms(1)] wl(2)]
    have "sched_ok k1"
      using assms(1) pop(1) wl(1) by (simp add: sched_ok_def lists_ok_def k1_def)
    then have u: "sched_ok k2 \<and> same_sync k1 k2 \<and> running k2 = running k1 \<and> ready_list k2 = ready_list k1 @ [t]
      \<and> intr_level k2 = intr_level k1"
      using thread_unblock_ok [OF _ k2(1)] pop(2,4) wl(1) by (simp add: k1_def)
    then have "sched_ok (k2\<lparr>semas := (semas k2)(x \<mapsto> \<lparr>sema_value = sema_value s + 1, waiters = ts\<rparr>)\<rparr>)"
      by (intro sched_ok_sema) (auto simp: same_sync_def k1_def)
    with u k2(2) s Cons show ?thesis by (cases s) (simp add: same_sync_def k1_def)
  qed
qed

end
