(* ===== verification/Interleave.thy ===== *)
theory Interleave
  imports Sched
begin

text \<open>
  All interleavings of the threads of \<^theory_text>\<open>Sched\<close>: the scheduler invariant, mutual exclusion of locks
  with the windows between the statements of \<^verbatim>\<open>lock_acquire\<close> and \<^verbatim>\<open>lock_release\<close> in which another thread
  may run, and bounded waiting on the run queue.
\<close>

section \<open>All interleavings\<close>

text \<open>One step of the machine: any scheduler or semaphore operation by the current thread, an
  interrupt, or a store to other fields of a thread.  \<open>A\<close> are the semaphores the step may use.\<close>

inductive kstep :: "sema_id set \<Rightarrow> kern \<Rightarrow> kern \<Rightarrow> bool" for A where
  yield: "thread_yield k = Some k' \<Longrightarrow> kstep A k k'"
| block: "thread_block k = Some k' \<Longrightarrow> kstep A k k'"
| unblock: "thread_unblock k t = Some k' \<Longrightarrow> t \<noteq> idle_thread k \<Longrightarrow> (\<And>x. t \<notin> set (wl k x)) \<Longrightarrow> kstep A k k'"
| down: "sema_down k x = Some (k', b) \<Longrightarrow> x \<in> A \<Longrightarrow> running k \<noteq> idle_thread k \<Longrightarrow> kstep A k k'"
| try_down: "sema_try_down k x = Some (k', b) \<Longrightarrow> x \<in> A \<Longrightarrow> kstep A k k'"
| up: "sema_up k x = Some k' \<Longrightarrow> x \<in> A \<Longrightarrow> kstep A k k'"
| tick: "thread_tick k = Some k' \<Longrightarrow> kstep A k k'"
| new: "init_thread k t nm pri = Some k' \<Longrightarrow> threads k t = None \<Longrightarrow> ExecSema t \<in> A \<Longrightarrow> WaitSema t \<in> A
    \<Longrightarrow> kstep A k k'"
| exit: "thread_exit_final k = Some k' \<Longrightarrow> kstep A k k'"
| intr: "kstep A k (k\<lparr>intr_level := b\<rparr>)"
| external: "kstep A k (k\<lparr>in_external_intr := b\<rparr>)"
| store: "(\<And>c. status (g c) = status c \<and> magic (g c) = magic c) \<Longrightarrow> kstep A k (upd_thread k t g)"

lemma queues_ok_clear: "queues_ok f r i w \<Longrightarrow> queues_ok f r i (w(x := []))"
  unfolding queues_ok_def by auto

lemma queues_ok_status:
  assumes "queues_ok f r i w"
  shows "t \<in> set r \<Longrightarrow> f t = Some THREAD_READY" and "t \<in> set (w x) \<Longrightarrow> f t = Some THREAD_BLOCKED"
  using assms unfolding queues_ok_def by metis+

lemma thread_tick_ok:
  assumes "sched_ok k" and "thread_tick k = Some k'"
  shows "sched_ok k' \<and> same_sync k k'"
proof -
  have "st k' = st k \<and> magic_ok k' = magic_ok k \<and> ready_list k' = ready_list k \<and> wl k' = wl k
    \<and> running k' = running k \<and> same_sync k k'"
    using assms(2) by (auto simp: thread_tick_def Let_def intr_yield_on_return_def same_sync_def
        elim!: bind_SomeE split: if_splits)
  with assms(1) show ?thesis by (simp add: sched_ok_def lists_ok_def same_sync_def)
qed

lemma init_thread_ok:
  assumes "sched_ok k" and "init_thread k t nm pri = Some k'" and "threads k t = None"
  shows "sched_ok k' \<and> idle_thread k' = idle_thread k \<and> holder k' = holder k \<and> running k' = running k
    \<and> semas k' = (semas k)(ExecSema t \<mapsto> \<lparr>sema_value = 0, waiters = []\<rparr>, WaitSema t \<mapsto> \<lparr>sema_value = 0, waiters = []\<rparr>)
    \<and> st k' t = Some THREAD_BLOCKED"
proof -
  have t: "t \<noteq> NULL" and f: "ready_list k' = ready_list k" "idle_thread k' = idle_thread k" "holder k' = holder k"
    "running k' = running k"
    "semas k' = (semas k)(ExecSema t \<mapsto> \<lparr>sema_value = 0, waiters = []\<rparr>, WaitSema t \<mapsto> \<lparr>sema_value = 0, waiters = []\<rparr>)"
    using assms(2) by (auto simp: init_thread_def sema_init_def Let_def split: if_splits)
  obtain c where c: "threads k' = (threads k)(t \<mapsto> c)" "status c = THREAD_BLOCKED" "magic c = THREAD_MAGIC"
    using assms(2) by (auto simp: init_thread_def sema_init_def Let_def split: if_splits)
  have w: "wl k' = (wl k)(ExecSema t := [], WaitSema t := [])"
    using f(5) by (auto simp: wl_def fun_eq_iff)
  have s: "st k' = (st k)(t \<mapsto> THREAD_BLOCKED)" "st k t = None"
    using c assms(3) by (auto simp: st_def fun_eq_iff)
  have "queues_ok (st k') (ready_list k') (idle_thread k') (wl k')"
    unfolding w s(1) f(1,2)
    by (intro queues_ok_clear queues_ok_leave [OF sched_ok_fields(2) [OF assms(1)]]) (simp_all add: s)
  moreover have "magic_ok k'" using sched_ok_fields(1) [OF assms(1)] c t by (auto simp: magic_ok_def)
  moreover have "t \<noteq> running k" using sched_ok_fields(3) [OF assms(1), of t] s by auto
  ultimately show ?thesis
    using f s sched_ok_fields(3) [OF assms(1)] by (auto simp: sched_ok_def lists_ok_def)
qed

lemma thread_exit_final_ok:
  assumes "sched_ok k" and "thread_exit_final k = Some k'"
  shows "sched_ok k' \<and> same_sync k k'"
proof -
  have k': "schedule (set_status (k\<lparr>intr_level := False, all_list := remove1 (running k) (all_list k)\<rparr>) (running k) THREAD_DYING) = Some k'"
    using assms(2) by (auto simp: thread_exit_final_def intr_disable_def Let_def elim!: bind_SomeE dest!: thread_current_ok)
  have "queues_ok ((st k)(running k \<mapsto> THREAD_DYING)) (ready_list k) (idle_thread k) (wl k)"
    using queues_ok_leave [OF sched_ok_fields(2) [OF assms(1)]] sched_ok_fields(3) [OF assms(1)] by simp
  with switch_ok [OF assms(1) _ k' refl] show ?thesis by (auto simp: same_sync_def)
qed

lemma kstep_ok:
  assumes "kstep A k k'" and "sched_ok k"
  shows "sched_ok k'" and "idle_thread k' = idle_thread k \<and> holder k' = holder k
    \<and> (\<forall>x. x \<notin> A \<longrightarrow> semas k' x = semas k x)"
proof -
  have "sched_ok k' \<and> idle_thread k' = idle_thread k \<and> holder k' = holder k
    \<and> (\<forall>x. x \<notin> A \<longrightarrow> semas k' x = semas k x)"
    using assms
  proof (cases rule: kstep.cases)
    case yield
    then show ?thesis using thread_yield_ok [OF assms(2)] by (auto simp: same_sync_def)
  next
    case block
    then show ?thesis using thread_block_ok [OF assms(2)] by (auto simp: same_sync_def)
  next
    case (unblock t)
    then show ?thesis using thread_unblock_ok [OF assms(2)] by (auto simp: same_sync_def)
  next
    case (down x b)
    then show ?thesis using sema_down_ok [OF assms(2) down(1)] by (auto split: if_splits)
  next
    case (try_down x b)
    then show ?thesis using sema_try_down_ok [OF assms(2)] by fastforce
  next
    case (up x)
    then show ?thesis using sema_up_ok [OF assms(2)] by fastforce
  next
    case tick
    then show ?thesis using thread_tick_ok [OF assms(2)] by (auto simp: same_sync_def)
  next
    case (new t nm pri)
    then show ?thesis using init_thread_ok [OF assms(2)] by auto
  next
    case exit
    then show ?thesis using thread_exit_final_ok [OF assms(2)] by (auto simp: same_sync_def)
  next
    case (intr b)
    then show ?thesis using assms(2) by simp
  next
    case (external b)
    then show ?thesis using assms(2) by (simp add: sched_ok_def lists_ok_def)
  next
    case (store g t)
    then show ?thesis using assms(2) by (simp add: sched_ok_def lists_ok_def)
  qed
  then show "sched_ok k'" and "idle_thread k' = idle_thread k \<and> holder k' = holder k
    \<and> (\<forall>x. x \<notin> A \<longrightarrow> semas k' x = semas k x)" by blast+
qed

section \<open>Locks, statement by statement\<close>

text \<open>How far a thread is in its use of a lock: the window between \<^verbatim>\<open>sema_down\<close> and the store to
  \<^verbatim>\<open>holder\<close> is \<open>Got\<close>, the one between the store of \<^verbatim>\<open>NULL\<close> and \<^verbatim>\<open>sema_up\<close> is \<open>Dropping\<close>.\<close>

datatype phase = Outside | Got | Held | Dropping

type_synonym phases = "addr \<times> nat \<Rightarrow> phase"

inductive lstep :: "kern \<times> phases \<Rightarrow> kern \<times> phases \<Rightarrow> bool" where
  acquire: "ph (running k, l) = Outside \<Longrightarrow> running k \<noteq> idle_thread k \<Longrightarrow> holder k l \<noteq> running k
    \<Longrightarrow> sema_down k (LockSema l) = Some (k', b)
    \<Longrightarrow> lstep (k, ph) (k', if b then ph((running k, l) := Got) else ph)"
| try_acquire: "ph (running k, l) = Outside \<Longrightarrow> holder k l \<noteq> running k
    \<Longrightarrow> sema_try_down k (LockSema l) = Some (k', b)
    \<Longrightarrow> lstep (k, ph) (k', if b then ph((running k, l) := Got) else ph)"
| hold: "ph (running k, l) = Got
    \<Longrightarrow> lstep (k, ph) (k\<lparr>holder := (holder k)(l := running k)\<rparr>, ph((running k, l) := Held))"
| drop: "holder k l = running k
    \<Longrightarrow> lstep (k, ph) (k\<lparr>holder := (holder k)(l := NULL)\<rparr>, ph((running k, l) := Dropping))"
| release: "ph (running k, l) = Dropping \<Longrightarrow> sema_up k (LockSema l) = Some k'
    \<Longrightarrow> lstep (k, ph) (k', ph((running k, l) := Outside))"
| other: "kstep (- range LockSema) k k' \<Longrightarrow> lstep (k, ph) (k', ph)"

text \<open>Run without interruption, the steps are the operations of \<^theory_text>\<open>Sched\<close>.\<close>

lemma sema_down_running: "sema_down k x = Some (k', True) \<Longrightarrow> running k' = running k"
  by (auto simp: sema_down_def Let_def intr_disable_def intr_set_level_def intr_enable_def
      elim!: bind_SomeE split: if_splits)

lemma sema_try_down_running: "sema_try_down k x = Some (k', b) \<Longrightarrow> running k' = running k"
  by (auto simp: sema_try_down_def Let_def intr_disable_def intr_set_level_def intr_enable_def
      elim!: bind_SomeE split: if_splits)

lemma holder_set: "thread_current k = Some (t, c) \<Longrightarrow> t = running k"
  by (auto simp: thread_current_def Let_def elim!: bind_SomeE split: if_splits)

lemma lock_acquire_lsteps:
  assumes "lock_acquire k l = Some (k', b)" and "ph (running k, l) = Outside" and "running k \<noteq> idle_thread k"
  shows "lstep\<^sup>*\<^sup>* (k, ph) (k', if b then ph((running k, l) := Held) else ph)"
proof -
  obtain k1 where k1: "holder k l \<noteq> running k" "sema_down k (LockSema l) = Some (k1, b)"
      "k' = (if b then k1\<lparr>holder := (holder k1)(l := running k1)\<rparr> else k1)"
    using assms(1) by (auto simp: lock_acquire_def lock_held_by_current_thread_def elim!: bind_SomeE
        split: if_splits dest!: holder_set)
  have "lstep (k, ph) (k1, if b then ph((running k, l) := Got) else ph)"
    by (rule lstep.acquire) (fact assms k1)+
  moreover have "lstep (k1, ph((running k, l) := Got)) (k', ph((running k, l) := Held))" if b
    using lstep.hold [of "ph((running k, l) := Got)" k1 l] k1(3) sema_down_running k1(2) that by simp
  ultimately show ?thesis using k1(3) by (cases b) (auto intro: rtranclp.rtrancl_into_rtrancl)
qed

lemma lock_try_acquire_lsteps:
  assumes "lock_try_acquire k l = Some (k', b)" and "ph (running k, l) = Outside"
  shows "lstep\<^sup>*\<^sup>* (k, ph) (k', if b then ph((running k, l) := Held) else ph)"
proof -
  obtain k1 where k1: "holder k l \<noteq> running k" "sema_try_down k (LockSema l) = Some (k1, b)"
      "k' = (if b then k1\<lparr>holder := (holder k1)(l := running k1)\<rparr> else k1)"
    using assms(1) by (auto simp: lock_try_acquire_def lock_held_by_current_thread_def elim!: bind_SomeE
        split: if_splits dest!: holder_set)
  have "lstep (k, ph) (k1, if b then ph((running k, l) := Got) else ph)"
    by (rule lstep.try_acquire) (fact assms k1)+
  moreover have "lstep (k1, ph((running k, l) := Got)) (k', ph((running k, l) := Held))" if b
    using lstep.hold [of "ph((running k, l) := Got)" k1 l] k1(3) sema_try_down_running [OF k1(2)] that by simp
  ultimately show ?thesis using k1(3) by (cases b) (auto intro: rtranclp.rtrancl_into_rtrancl)
qed

lemma lock_release_lsteps:
  assumes "lock_release k l = Some k'"
  shows "lstep\<^sup>*\<^sup>* (k, ph) (k', ph((running k, l) := Outside))"
proof -
  let ?k = "k\<lparr>holder := (holder k)(l := NULL)\<rparr>"
  have k': "holder k l = running k" "sema_up ?k (LockSema l) = Some k'"
    using assms by (auto simp: lock_release_def lock_held_by_current_thread_def elim!: bind_SomeE
        split: if_splits dest!: holder_set)
  have "lstep (k, ph) (?k, ph((running k, l) := Dropping))" by (rule lstep.drop [OF k'(1)])
  moreover have "lstep (?k, ph((running k, l) := Dropping)) (k', ph((running k, l) := Outside))"
    using lstep.release [of "ph((running k, l) := Dropping)" ?k l k'] k'(2) by simp
  ultimately show ?thesis by (meson converse_rtranclp_into_rtranclp r_into_rtranclp)
qed

text \<open>The semaphore of a lock counts the threads that are not outside, of which there is at most one.\<close>

definition lock_ok :: "kern \<Rightarrow> phases \<Rightarrow> nat \<Rightarrow> bool" where
  "lock_ok k ph l \<longleftrightarrow>
     (\<exists>s. semas k (LockSema l) = Some s
        \<and> (sema_value s = 1 \<and> (\<forall>t. ph (t, l) = Outside)
           \<or> sema_value s = 0 \<and> (\<exists>t. ph (t, l) \<noteq> Outside \<and> (\<forall>u. u \<noteq> t \<longrightarrow> ph (u, l) = Outside))))
     \<and> (\<forall>t. ph (t, l) = Held \<longleftrightarrow> t \<noteq> NULL \<and> holder k l = t)"

lemma lock_ok_other:
  "lock_ok k ph l \<Longrightarrow> map_option sema_value (semas k' (LockSema l)) = map_option sema_value (semas k (LockSema l))
     \<Longrightarrow> holder k' l = holder k l \<Longrightarrow> (\<And>t. ph' (t, l) = ph (t, l)) \<Longrightarrow> lock_ok k' ph' l"
  by (auto simp: lock_ok_def) blast

lemma sched_ok_running_NULL: "sched_ok k \<Longrightarrow> running k \<noteq> NULL"
  using sched_ok_fields(1,4) [of k] by (auto simp: magic_ok_def)

lemma lock_ok_take:
  assumes "lock_ok k ph l" and "semas k (LockSema l) = Some s" and "sema_value s \<noteq> 0"
    and "semas k' (LockSema l) = Some (s\<lparr>sema_value := sema_value s - 1\<rparr>)" and "holder k' l = holder k l"
  shows "lock_ok k' (ph((t, l) := Got)) l"
proof -
  have v: "sema_value s = 1" "\<And>t. ph (t, l) = Outside"
    using assms(1-3) by (auto simp: lock_ok_def)
  then have "holder k l = NULL" using assms(1) by (metis lock_ok_def phase.distinct(3))
  with v assms(4,5) show ?thesis by (auto simp: lock_ok_def)
qed

lemma lock_ok_move:
  assumes "lock_ok k ph l" and "ph (t, l) \<noteq> Outside" and "t \<noteq> NULL"
    and "z = Held \<and> h = t \<or> z = Dropping \<and> h = NULL"
    and "semas k' (LockSema l) = semas k (LockSema l)" and "holder k' l = h"
  shows "lock_ok k' (ph((t, l) := z)) l"
proof -
  obtain s where s: "semas k (LockSema l) = Some s" "sema_value s = 0" "\<And>u. u \<noteq> t \<Longrightarrow> ph (u, l) = Outside"
    using assms(1,2) unfolding lock_ok_def by metis
  have "ph (u, l) \<noteq> Held" if "u \<noteq> t" for u using s(3) that by simp
  with s assms show ?thesis by (auto simp: lock_ok_def)
qed

lemma lock_ok_up:
  assumes "lock_ok k ph l" and "ph (t, l) = Dropping" and "semas k (LockSema l) = Some s"
    and "semas k' (LockSema l) = Some s'" and "sema_value s' = sema_value s + 1" and "holder k' l = holder k l"
  shows "lock_ok k' (ph((t, l) := Outside)) l"
proof -
  have s: "sema_value s = 0" "\<And>u. u \<noteq> t \<Longrightarrow> ph (u, l) = Outside"
    using assms(1-3) unfolding lock_ok_def by (metis option.inject phase.distinct(5))+
  have "ph (u, l) \<noteq> Held" for u using s(2) [of u] assms(2) by (cases "u = t") auto
  then have "holder k l = NULL" using assms(1) unfolding lock_ok_def by metis
  with s assms(4-6) show ?thesis by (auto simp: lock_ok_def)
qed

lemma lstep_ok:
  assumes "lstep (k, ph) (k', ph')" and "sched_ok k" and "\<And>l. l \<in> L \<Longrightarrow> lock_ok k ph l"
  shows "sched_ok k' \<and> (\<forall>l \<in> L. lock_ok k' ph' l)"
  using assms(1)
proof (cases rule: lstep.cases)
  case (acquire l b)
  note d = sema_down_ok [OF assms(2) acquire(5)]
  have "lock_ok k' ph' m" if "m \<in> L" for m
  proof (cases "b \<and> m = l")
    case True
    then show ?thesis using d acquire assms(3) [OF that] lock_ok_take [of k ph l] by auto
  next
    case False
    then show ?thesis using d acquire by (intro lock_ok_other [OF assms(3) [OF that]]) (auto split: if_splits)
  qed
  then show ?thesis using d acquire by blast
next
  case (try_acquire l b)
  note d = sema_try_down_ok [OF assms(2) try_acquire(4)]
  have "lock_ok k' ph' m" if "m \<in> L" for m
  proof (cases "b \<and> m = l")
    case True
    then show ?thesis using d try_acquire assms(3) [OF that] lock_ok_take [of k ph l] by auto
  next
    case False
    then show ?thesis using d try_acquire by (intro lock_ok_other [OF assms(3) [OF that]]) (auto split: if_splits)
  qed
  then show ?thesis using d by blast
next
  case (hold l)
  have "lock_ok k' ph' m" if "m \<in> L" for m
  proof (cases "m = l")
    case True
    then show ?thesis using hold assms(3) [OF that] sched_ok_running_NULL [OF assms(2)]
      by (auto intro!: lock_ok_move [of k ph l])
  next
    case False
    then show ?thesis using hold by (intro lock_ok_other [OF assms(3) [OF that]]) auto
  qed
  then show ?thesis using hold assms(2) by (simp add: sched_ok_def lists_ok_def)
next
  case (drop l)
  have "lock_ok k' ph' m" if "m \<in> L" for m
  proof (cases "m = l")
    case True
    have "ph (running k, l) = Held"
      using assms(3) [OF that] True drop sched_ok_running_NULL [OF assms(2)] by (simp add: lock_ok_def)
    then show ?thesis using True drop assms(3) [OF that] sched_ok_running_NULL [OF assms(2)]
      by (auto intro!: lock_ok_move [of k ph l])
  next
    case False
    then show ?thesis using drop by (intro lock_ok_other [OF assms(3) [OF that]]) auto
  qed
  then show ?thesis using drop assms(2) by (simp add: sched_ok_def lists_ok_def)
next
  case (release l)
  note u = sema_up_ok [OF assms(2) release(3)]
  have "lock_ok k' ph' m" if "m \<in> L" for m
  proof (cases "m = l")
    case True
    then show ?thesis using u release assms(3) [OF that] lock_ok_up [of k ph l "running k"] by auto
  next
    case False
    then show ?thesis using u release by (intro lock_ok_other [OF assms(3) [OF that]]) auto
  qed
  then show ?thesis using u by blast
next
  case other
  note k = kstep_ok [OF other(2) assms(2)]
  have "lock_ok k' ph' m" if "m \<in> L" for m
    using k(2) other(1) by (intro lock_ok_other [OF assms(3) [OF that]]) auto
  with k(1) show ?thesis by blast
qed

lemma lsteps_ok:
  assumes "lstep\<^sup>*\<^sup>* p q" and "sched_ok (fst p)" and "\<And>l. l \<in> L \<Longrightarrow> lock_ok (fst p) (snd p) l"
  shows "sched_ok (fst q) \<and> (\<forall>l \<in> L. lock_ok (fst q) (snd q) l)"
  using assms
proof (induction rule: rtranclp_induct)
  case (step q r)
  then show ?case using lstep_ok [of "fst q" "snd q" "fst r" "snd r" L] by simp
qed auto

lemma lock_acquire_busy:
  assumes "sched_ok k" and "lock_ok k ph l" and "ph (t, l) \<noteq> Outside"
  shows "lock_acquire k l \<noteq> Some (k', True)"
proof
  assume "lock_acquire k l = Some (k', True)"
  then obtain k1 where "sema_down k (LockSema l) = Some (k1, True)"
    by (auto simp: lock_acquire_def elim!: bind_SomeE split: if_splits)
  with sema_down_ok [OF assms(1)] assms(2,3) show False by (fastforce simp: lock_ok_def)
qed

section \<open>Turns at the processor\<close>

text \<open>A sequence of threads giving up the processor: by \<^verbatim>\<open>thread_yield\<close>, or by \<^verbatim>\<open>intr_disable\<close> and
  \<^verbatim>\<open>thread_block\<close>.\<close>

definition turn :: "bool \<Rightarrow> kern \<Rightarrow> kern option" where
  "turn b k = (if b then thread_yield k else thread_block (fst (intr_disable k)))"

fun turns :: "bool list \<Rightarrow> kern \<Rightarrow> kern option" where
  "turns [] k = Some k"
| "turns (b # bs) k = do { k \<leftarrow> turn b k; turns bs k }"

lemma switch_next:
  assumes "sched_ok k" and "z \<noteq> THREAD_RUNNING"
    and "k2 = set_status k1 (running k) z" and "threads k1 = threads k" and "running k1 = running k"
    and "queues_ok ((st k)(running k \<mapsto> z)) (t # ts) (idle_thread k1) (wl k1)"
    and "ready_list k1 = t # ts" and "\<not> intr_level k1"
  shows "\<exists>k'. schedule k2 = Some k' \<and> sched_ok k' \<and> same_sync k1 k' \<and> running k' = t \<and> ready_list k' = ts"
proof -
  have "st k1 = st k" "magic_ok k1" using assms(4) sched_ok_fields(1) [OF assms(1)]
    by (auto simp: st_def fun_eq_iff magic_ok_def)
  moreover have st2: "st k2 = (st k)(running k \<mapsto> z)"
    using sched_ok_fields(4) [OF assms(1)] calculation assms(3,4) by auto
  ultimately have ok: "lists_ok k2" "\<And>t. st k2 t \<noteq> Some THREAD_RUNNING"
    using assms(2,3,6,7) sched_ok_fields(3) [OF assms(1)] by (auto simp: lists_ok_def)
  obtain k' where k': "schedule k2 = Some k'"
    using schedule_runs [OF ok(1), of z] st2 assms by auto
  from schedule_ok(1) [OF this ok] schedule_ok(2) [OF this ok] k' assms(3,7) show ?thesis
    by (auto simp: same_sync_def)
qed

lemma turn_next:
  assumes "sched_ok k" and "\<not> in_external_intr k" and "ready_list k = t # ts"
  shows "\<exists>k' zs. turn b k = Some k' \<and> sched_ok k' \<and> \<not> in_external_intr k' \<and> running k' = t \<and> ready_list k' = ts @ zs"
proof -
  note q = sched_ok_fields(2) [OF assms(1)]
  have run: "st k (running k) = Some THREAD_RUNNING" using sched_ok_fields(3) [OF assms(1)] by simp
  obtain c where c: "thread_current k = Some (running k, c)" using sched_ok_current [OF assms(1)] by blast
  obtain c' where c': "thread_current (k\<lparr>intr_level := False\<rparr>) = Some (running k, c')"
    using sched_ok_current [of "k\<lparr>intr_level := False\<rparr>"] assms(1) by auto
  define zs where "zs = (if b \<and> running k \<noteq> idle_thread k then [running k] else [])"
  define z where "z = (if b then THREAD_READY else THREAD_BLOCKED)"
  define k1 where "k1 = (if zs = [] then k\<lparr>intr_level := False\<rparr> else k\<lparr>intr_level := False, ready_list := ready_list k @ zs\<rparr>)"
  have "queues_ok ((st k)(running k \<mapsto> z)) (ready_list k @ zs) (idle_thread k) (wl k)"
    using queues_ok_ready [OF q, of "running k"] queues_ok_running [OF q run] queues_ok_idle [OF q]
      queues_ok_leave [OF q, of "running k" "Some THREAD_BLOCKED"] run
    by (auto simp: zs_def z_def)
  then have "\<exists>k'. schedule (set_status k1 (running k) z) = Some k' \<and> sched_ok k' \<and> same_sync k1 k'
     \<and> running k' = t \<and> ready_list k' = ts @ zs"
    using assms(3) by (intro switch_next [OF assms(1) _ refl]) (auto simp: k1_def z_def split: if_splits)
  then obtain k' where k': "schedule (set_status k1 (running k) z) = Some k'" "sched_ok k'" "same_sync k1 k'"
    "running k' = t" "ready_list k' = ts @ zs" by blast
  have "turn b k = Some k'"
    using k'(1) c c' assms(2)
    by (auto simp: turn_def thread_yield_def thread_block_def intr_disable_def intr_context_def Let_def k1_def z_def zs_def)
  with k' assms(2) show ?thesis by (auto simp: same_sync_def k1_def)
qed

lemma turns_reach:
  "sched_ok k \<Longrightarrow> \<not> in_external_intr k \<Longrightarrow> ready_list k = xs @ t # ys \<Longrightarrow> length bs = Suc (length xs)
    \<Longrightarrow> \<exists>k'. turns bs k = Some k' \<and> running k' = t \<and> sched_ok k'"
proof (induction xs arbitrary: k ys bs)
  case Nil
  then obtain b where "bs = [b]" by (cases bs) auto
  with turn_next [of k t ys b] Nil show ?case by auto
next
  case (Cons x xs)
  then obtain b bs' where b: "bs = b # bs'" "length bs' = Suc (length xs)" by (cases bs) auto
  obtain k1 zs where k1: "turn b k = Some k1" "sched_ok k1" "\<not> in_external_intr k1"
      "ready_list k1 = xs @ t # ys @ zs"
    using turn_next [of k x "xs @ t # ys" b] Cons.prems by auto
  from Cons.IH [OF k1(2-4) b(2)] k1(1) show ?case
    unfolding b(1) by simp
qed

section \<open>Properties\<close>

text \<open>C3. Wherever the threads are interrupted and whichever of them run, exactly the current thread
  is running, the run queue holds the ready threads other than the idle thread, each once, and the
  threads on the wait lists of the semaphores are blocked, each on one list and once; so the
  assertions of \<^verbatim>\<open>thread_current\<close> never fire.\<close>

theorem scheduler_invariant:
  assumes "sched_ok k" and "(kstep UNIV)\<^sup>*\<^sup>* k k'"
  shows "sched_ok k' \<and> thread_current k' \<noteq> None
    \<and> distinct (ready_list k') \<and> set (ready_list k') \<inter> set (wl k' x) = {}
    \<and> (x \<noteq> y \<longrightarrow> set (wl k' x) \<inter> set (wl k' y) = {})"
proof -
  from assms(2,1) have ok: "sched_ok k'"
    by (induction rule: rtranclp_induct) (auto dest: kstep_ok(1))
  note q = sched_ok_fields(2) [OF ok]
  have "t \<notin> set (wl k' x)" if "t \<in> set (ready_list k')" for t
    using queues_ok_status [OF q] that by fastforce
  moreover have "distinct (ready_list k')" "x \<noteq> y \<longrightarrow> set (wl k' x) \<inter> set (wl k' y) = {}"
    using q unfolding queues_ok_def by blast+
  ultimately show ?thesis
    using ok sched_ok_current [OF ok] by auto
qed

text \<open>C5. Mutual exclusion, with the threads interrupted at any statement of the lock operations: from
  a state in which a lock is free, at most one thread is ever between the completed \<^verbatim>\<open>sema_down\<close> of
  \<^verbatim>\<open>lock_acquire\<close> and the \<^verbatim>\<open>sema_up\<close> of \<^verbatim>\<open>lock_release\<close>; while one is, \<^verbatim>\<open>lock_acquire\<close> completes for no thread,
  and \<^verbatim>\<open>holder\<close> is a thread exactly when that thread holds the lock.\<close>

theorem lock_mutual_exclusion:
  assumes "sched_ok k" and "semas k (LockSema l) = Some \<lparr>sema_value = 1, waiters = ws\<rparr>" and "holder k l = NULL"
    and "lstep\<^sup>*\<^sup>* (k, \<lambda>_. Outside) (k', ph)"
    and "ph (t, l) \<noteq> Outside"
  shows "(\<forall>u. u \<noteq> t \<longrightarrow> ph (u, l) = Outside) \<and> lock_acquire k' l \<noteq> Some (k'', True)
    \<and> (\<forall>u. ph (u, l) = Held \<longleftrightarrow> u \<noteq> NULL \<and> holder k' l = u)"
proof -
  have "lock_ok k (\<lambda>_. Outside) l" using assms(2,3) by (simp add: lock_ok_def)
  with lsteps_ok [OF assms(4), of "{l}"] assms(1) have ok: "sched_ok k'" "lock_ok k' ph l" by auto
  have "\<forall>u. u \<noteq> t \<longrightarrow> ph (u, l) = Outside" using ok(2) assms(5) unfolding lock_ok_def by metis
  with ok lock_acquire_busy [OF ok assms(5)] show ?thesis by (simp add: lock_ok_def)
qed

text \<open>C7. Bounded waiting: a thread with \<open>n\<close> threads before it on the run queue runs after \<open>n + 1\<close> turns,
  whether the threads before it yield or block, and every turn completes.\<close>

theorem round_robin_liveness:
  assumes "sched_ok k" and "\<not> in_external_intr k" and "ready_list k = xs @ t # ys"
    and "length bs = Suc (length xs)"
  shows "\<exists>k'. turns bs k = Some k' \<and> running k' = t \<and> st k' t = Some THREAD_RUNNING"
  using turns_reach [OF assms] sched_ok_fields(3) by blast

section \<open>Witnesses\<close>

definition ex_thread :: "thread_status \<Rightarrow> thread" where
  "ex_thread z = \<lparr>tid = 1, status = z, tname = [], stack = 0, kframes = [], priority = PRI_DEFAULT,
     childExecSuccess = False, stat_holder = NULL, status_number = 0, list_of_children = [], parent = NULL,
     open_files = [], code_file = NULL, index_fd = 2, personal_esp = NULL, pagedir = NULL,
     magic = THREAD_MAGIC\<rparr>"

definition ex_kern :: kern where
  "ex_kern = \<lparr>threads = [0x1000 \<mapsto> ex_thread THREAD_RUNNING, 0x2000 \<mapsto> ex_thread THREAD_READY,
       0x3000 \<mapsto> ex_thread THREAD_READY, 0x4000 \<mapsto> ex_thread THREAD_BLOCKED],
     ready_list = [0x2000, 0x3000], all_list = [0x1000, 0x4000, 0x2000, 0x3000], running = 0x1000,
     idle_thread = 0x4000, initial_thread = 0x1000, next_tid = 5, thread_ticks = 0, idle_ticks = 0,
     kernel_ticks = 0, user_ticks = 0, intr_level = True, in_external_intr = False, yield_on_return = False,
     semas = [LockSema 2 \<mapsto> \<lparr>sema_value = 1, waiters = []\<rparr>], holder = (\<lambda>_. NULL), conds = (\<lambda>_. []),
     status_holders = Map.empty\<rparr>"

lemma ex_wl: "wl ex_kern x = []"
  by (simp add: wl_def ex_kern_def)

lemma ex_st: "st ex_kern = [0x1000 \<mapsto> THREAD_RUNNING, 0x2000 \<mapsto> THREAD_READY, 0x3000 \<mapsto> THREAD_READY,
    0x4000 \<mapsto> THREAD_BLOCKED]"
  by (auto simp: st_def ex_kern_def ex_thread_def fun_eq_iff)

lemma ex_kern_ok: "sched_ok ex_kern"
proof -
  have "magic_ok ex_kern"
    by (auto simp: magic_ok_def ex_kern_def ex_thread_def split: if_splits)
  moreover have "queues_ok (st ex_kern) (ready_list ex_kern) (idle_thread ex_kern) (wl ex_kern)"
    unfolding queues_ok_def ex_wl ex_st by (auto simp: ex_kern_def)
  moreover have "st ex_kern t = Some THREAD_RUNNING \<longleftrightarrow> t = running ex_kern" for t
    unfolding ex_st by (simp add: ex_kern_def)
  ultimately show ?thesis by (simp add: sched_ok_def lists_ok_def)
qed

theorem scheduler_invariant_witness:
  "sched_ok (ex_kern\<lparr>intr_level := False\<rparr>) \<and> thread_current (ex_kern\<lparr>intr_level := False\<rparr>) \<noteq> None"
proof -
  have "(kstep UNIV)\<^sup>*\<^sup>* ex_kern (ex_kern\<lparr>intr_level := False\<rparr>)" by (intro r_into_rtranclp kstep.intr)
  from scheduler_invariant [OF ex_kern_ok this] show ?thesis by blast
qed

definition ex_locked :: kern where
  "ex_locked = ex_kern\<lparr>semas := [LockSema 2 \<mapsto> \<lparr>sema_value = 0, waiters = []\<rparr>]\<rparr>"

lemma ex_acquire: "sema_down ex_kern (LockSema 2) = Some (ex_locked, True)"
  by (simp add: sema_down_def ex_kern_def ex_locked_def intr_context_def intr_disable_def intr_set_level_def
      intr_enable_def)

theorem lock_mutual_exclusion_witness: "\<forall>k. lock_acquire ex_locked 2 \<noteq> Some (k, True)"
proof
  have "lstep (ex_kern, \<lambda>_. Outside) (ex_locked, if True then (\<lambda>_. Outside)((running ex_kern, 2) := Got) else (\<lambda>_. Outside))"
    by (rule lstep.acquire [OF _ _ _ ex_acquire]) (simp_all add: ex_kern_def)
  then have "lstep\<^sup>*\<^sup>* (ex_kern, \<lambda>_. Outside) (ex_locked, (\<lambda>_. Outside)((0x1000, 2) := Got))"
    by (simp add: ex_kern_def r_into_rtranclp)
  from lock_mutual_exclusion [OF ex_kern_ok _ _ this, of 2 "[]" "0x1000"] show "lock_acquire ex_locked 2 \<noteq> Some (k, True)" for k
    by (simp add: ex_kern_def)
qed

theorem round_robin_liveness_witness:
  "\<exists>k'. turns [True, False] ex_kern = Some k' \<and> running k' = 0x3000 \<and> st k' 0x3000 = Some THREAD_RUNNING"
  using round_robin_liveness [OF ex_kern_ok, of "[0x2000]" "0x3000" "[]" "[True, False]"]
  by (simp add: ex_kern_def)

end
