(* ===== verification/Spec2Isabelle.thy ===== *)
theory Spec2Isabelle
  imports DList_Sort Filesys OpenCounts SwapTable Arithmetic CString Stdlib Rc4 Interleave
begin

text \<open>
  A verification library for the Pintos kernel under \<^verbatim>\<open>src/src\<close>: a teaching operating system in C, with
  threads, block devices, a file system, swap space and a small C library of its own.

  \<^bold>\<open>Conventions.\<close>  A kernel routine is a function into \<open>option\<close>.  \<open>Some\<close> is a normal return; \<open>None\<close> is a run
  that does not come back to its caller: a failed \<^verbatim>\<open>ASSERT\<close>, a \<^verbatim>\<open>PANIC\<close>, an access outside the memory of
  the model, or a loop that does not end.  A theorem that a routine works therefore says that its
  result is \<open>Some\<close>.  Definitions keep the names and the statement order of the source.  C integers
  are 32-bit or 64-bit words where they may wrap (\<^verbatim>\<open>size_t\<close>, sector numbers, the elements of a bit map,
  64-bit division); file offsets (\<^verbatim>\<open>off_t\<close>) are \<open>int\<close>, with the bound on the length of a file that keeps
  them in 32 bits as a hypothesis of the theorems.  Allocation may fail: the state of the file system holds the outcomes
  of the calls of \<^verbatim>\<open>malloc\<close> to come (\<open>fs_mallocs\<close>, empty when all succeed), and pages taken from the page
  allocator are arguments, \<open>NULL\<close> when there is none.

  \<^bold>\<open>Parts and how they interact.\<close>  The file system (\<^verbatim>\<open>filesys/\<close>) keeps directories and a free map in inodes,
  inodes in the sectors of a block device, and block devices are disks or partitions of disks
  (\<^verbatim>\<open>devices/\<close>).  The swap table (\<^verbatim>\<open>vm/\<close>) uses another block device.  All of them use the lists, bit maps
  and strings of \<^verbatim>\<open>lib/\<close>.  The scheduler and the synchronisation primitives (\<^verbatim>\<open>threads/\<close>) run it all.

  \<^bold>\<open>Theories.\<close>
  \<^item> \<^theory_text>\<open>Prelude\<close>: the option discipline (\<open>ASSERT\<close>), rounding (\<^verbatim>\<open>lib/round.h\<close>), 32-bit arithmetic, counting loops.
  \<^item> \<^theory_text>\<open>Interfaces\<close>: the contracts between the parts, as locales: \<open>fifo_queue\<close>, \<open>slot_allocator\<close>,
    \<open>sector_device\<close>, with the facts their clients need proved once.
  \<^item> \<^theory_text>\<open>Bytes\<close>: layout of integers and strings in sectors.
  \<^item> \<^theory_text>\<open>DList\<close>, \<^theory_text>\<open>DList_Sort\<close>: \<^verbatim>\<open>lib/kernel/list.c\<close> on an explicit heap of \<^verbatim>\<open>prev\<close> and \<^verbatim>\<open>next\<close> fields.  \<open>dlist\<close> relates
    a heap to the list it represents; the lemmas say what each operation does to that list and that
    it writes nothing else; the natural merge sort ends, sorts, permutes and is stable.  The list is
    a \<open>fifo_queue\<close> (\<open>lq\<close>).
  \<^item> \<^theory_text>\<open>Bitmap\<close>: \<^verbatim>\<open>lib/kernel/bitmap.c\<close> on 32-bit elements, refined to a list of booleans; a \<open>slot_allocator\<close>
    (\<open>ba\<close>).
  \<^item> \<^theory_text>\<open>Block\<close>: \<^verbatim>\<open>devices/block.c\<close> and \<^verbatim>\<open>devices/partition.c\<close>; a \<open>sector_device\<close> (\<open>bd\<close>) for whole disks and
    partitions, which do not reach each other's sectors.
  \<^item> \<^theory_text>\<open>Inode\<close>, \<^theory_text>\<open>FreeMap\<close>, \<^theory_text>\<open>InodeTable\<close>, \<^theory_text>\<open>OpenCounts\<close>, \<^theory_text>\<open>Directory\<close>, \<^theory_text>\<open>Filesys\<close>: \<^verbatim>\<open>filesys/inode.c\<close>, \<^verbatim>\<open>file.c\<close>, \<^verbatim>\<open>free-map.c\<close>,
    \<^verbatim>\<open>directory.c\<close>, \<^verbatim>\<open>filesys.c\<close> over one state \<open>fs\<close> (devices, open inodes, open files, free map).  \<open>fs_holds\<close>
    says what the sectors of the device hold; reading and writing refine the byte string of a file,
    the open counts and write denials of the table are invariants of every sequence of file
    operations, the free map in memory and the one on disk agree (it is a \<open>slot_allocator\<close> too,
    \<open>fma\<close>), and a directory refines a finite map from names to sectors (\<open>dmap\<close>).
  \<^item> \<^theory_text>\<open>SwapTable\<close>: \<^verbatim>\<open>vm/swaptable.c\<close>; a page moved out is read back whatever happens to other slots.
  \<^item> \<^theory_text>\<open>Sched\<close>, \<^theory_text>\<open>Interleave\<close>: \<^verbatim>\<open>threads/thread.c\<close>, \<^verbatim>\<open>threads/synch.c\<close> and the interrupt level of
    \<^verbatim>\<open>threads/interrupt.c\<close>.  \<open>kern\<close> is the state of the scheduler, \<open>queues_ok\<close> its abstract view, \<open>kstep\<close> and \<open>lstep\<close>
    are the steps of all threads in any order, with locks taken apart statement by statement; the lock
    operations are sequences of these steps.
  \<^item> \<^theory_text>\<open>Arithmetic\<close>, \<^theory_text>\<open>CString\<close>, \<^theory_text>\<open>Stdlib\<close>: \<^verbatim>\<open>lib/arithmetic.c\<close>, \<^verbatim>\<open>lib/string.c\<close>, \<^verbatim>\<open>lib/stdlib.c\<close>: 64-bit division from
    the 32-bit instruction, strings on a flat byte memory, heap sort and binary search.
  \<^item> \<^theory_text>\<open>Rc4\<close>: \<^verbatim>\<open>lib/random.c\<close>, whose state stays a permutation of the byte values.

  \<^bold>\<open>Loops and fuel.\<close>  Loops with an evident bound are structural or have a termination proof.  Loops whose end
  depends on the data are \<^theory_text>\<open>partial_function (option)\<close>, and the properties that rest on
  them show that they end.  Fuel
  is in \<open>broadcast_loop\<close>, whose bound is the number of waiters, as every turn removes one, and in
  \<open>read_partition_table\<close>, where it is the depth of the kernel stack and the theorem holds for every depth.

  \<^bold>\<open>Waiting.\<close>  An operation that may sleep returns whether it completed.  A thread that sleeps in \<^verbatim>\<open>sema_down\<close>
  repeats the test of the loop when it runs again, which is the same operation from its start.
  Steps of the machine are the regions in which the source has interrupts turned off.

  \<^bold>\<open>Not modelled.\<close>  Device registers (\<^verbatim>\<open>devices/ide.c\<close>, keyboard, serial port, clocks, display), assembly code,
  boot code and the descriptor tables, since their meaning is that of the hardware; formatted output
  and the console, which have no effect on the state; the arenas of \<^verbatim>\<open>threads/malloc.c\<close>, whose outcomes
  are inputs here; \<^verbatim>\<open>lib/kernel/hash.c\<close>, which no part of this kernel uses; the loading of executables and
  page tables, which need a model of user memory.  In \<^verbatim>\<open>thread_exit\<close> only the wake-up of
  the parent and the part with interrupts off are modelled, as two steps.  The operations table of a block
  device is a case distinction in \<open>block_read\<close> and \<open>block_write\<close>, whose partition case is \<^verbatim>\<open>partition_read\<close> and
  \<^verbatim>\<open>partition_write\<close>.  Positions inside a file are computed in \<open>int\<close> in \<open>chunk\<close>, \<open>read_loop\<close> and \<open>write_loop\<close>;
  the positions they reach are below the length of the file, which \<open>inode_ok\<close> keeps in 31 bits.  In \<^theory_text>\<open>Stdlib\<close> the element numbers of the heap wrap
  around at 32 bits, and sorting is proved for arrays of fewer than \<open>2 ^ 31\<close> elements.
\<close>

end
